(* ===== verification/Prelude.thy ===== *)
theory Prelude
  imports Main "HOL-Library.Word"
begin

unbundle bit_operations_syntax

text \<open>
  Shared vocabulary of the development: the machine types of the C sources, the
  little- and big-endian codecs that the packed wire structures go through, pointers into
  an explicit store, and the list lemmas that several components use.

  Two collections carry the component proofs: \<open>wire_simps\<close> holds the codec equations
  (length of an encoding, decoding after encoding), \<open>ptr_simps\<close> the equations of the
  two functions that read the end pointers of a list.
\<close>

named_theorems wire_simps \<open>equations of the byte codecs\<close>
named_theorems ptr_simps \<open>equations of the end pointers of a linked sequence\<close>

type_synonym u8 = "8 word"
type_synonym u16 = "16 word"
type_synonym u32 = "32 word"
type_synonym u64 = "64 word"
type_synonym bytes = "u8 list"
type_synonym addr = nat

subsection \<open>C integer helpers\<close>

text \<open>\<open>bdivide_up a b\<close> of misc/balign.h, on the non-negative ints it is called with.\<close>

definition bdivide_up :: "nat \<Rightarrow> nat \<Rightarrow> nat" where
  "bdivide_up a b = (let r = a mod b in (if r > 0 then a div b + 1 else a div b))"

lemma bdivide_up_0 [simp]: "bdivide_up 0 b = 0"
  by (simp add: bdivide_up_def)

lemma bdivide_up_enough: "0 < b \<Longrightarrow> a \<le> bdivide_up a b * b"
proof -
  assume b: "0 < b"
  have a: "a = a div b * b + a mod b" by simp
  have "a mod b < b" using b by simp
  with a have "a \<le> a div b * b + b" by linarith
  then have "0 < a mod b \<Longrightarrow> a \<le> (a div b + 1) * b" by (simp add: add.commute)
  moreover have "a mod b = 0 \<Longrightarrow> a \<le> a div b * b" using a by linarith
  ultimately show ?thesis by (simp add: bdivide_up_def Let_def)
qed

lemma bdivide_up_le: "0 < b \<Longrightarrow> a \<le> n * b \<Longrightarrow> bdivide_up a b \<le> n"
proof -
  assume b: "0 < b" and le: "a \<le> n * b"
  show ?thesis
  proof (cases "a mod b = 0")
    case True
    then show ?thesis using b le by (simp add: bdivide_up_def div_le_mono less_eq_div_iff_mult_less_eq)
        (metis b div_le_mono nonzero_mult_div_cancel_right not_gr0)
  next
    case False
    then have "a \<noteq> n * b" by auto
    with le have "a < n * b" by simp
    then have "a div b < n" using b by (simp add: less_mult_imp_div_less)
    with False show ?thesis by (simp add: bdivide_up_def)
  qed
qed

lemma bdivide_up_mono: "0 < b \<Longrightarrow> a \<le> c \<Longrightarrow> bdivide_up a b \<le> bdivide_up c b"
  by (rule bdivide_up_le) (auto intro: order_trans [OF _ bdivide_up_enough])

subsection \<open>Byte codecs\<close>

text \<open>
  A packed structure's multi-byte field is its bytes in memory order. \<open>le16\<close> is the
  memory image of \<open>htol16\<close>, \<open>be16\<close> and \<open>be32\<close> those of \<open>hton16\<close> and
  \<open>hton32\<close>; \<open>rd_le16\<close>, \<open>rd_be16\<close> and \<open>rd_be32\<close> read such an image back.
\<close>

definition le16 :: "u16 \<Rightarrow> bytes" where
  "le16 w = [ucast w, ucast (drop_bit 8 w)]"

definition be16 :: "u16 \<Rightarrow> bytes" where
  "be16 w = [ucast (drop_bit 8 w), ucast w]"

definition be32 :: "u32 \<Rightarrow> bytes" where
  "be32 w = [ucast (drop_bit 24 w), ucast (drop_bit 16 w), ucast (drop_bit 8 w), ucast w]"

definition rd_le16 :: "u8 \<Rightarrow> u8 \<Rightarrow> u16" where
  "rd_le16 a b = ucast a OR push_bit 8 (ucast b)"

definition rd_be16 :: "u8 \<Rightarrow> u8 \<Rightarrow> u16" where
  "rd_be16 a b = push_bit 8 (ucast a) OR ucast b"

definition rd_be32 :: "u8 \<Rightarrow> u8 \<Rightarrow> u8 \<Rightarrow> u8 \<Rightarrow> u32" where
  "rd_be32 a b c d =
     push_bit 24 (ucast a) OR push_bit 16 (ucast b) OR push_bit 8 (ucast c) OR ucast d"

lemma length_codecs [wire_simps, simp]:
  "length (le16 w) = 2" "length (be16 w) = 2" "length (be32 v) = 4"
  by (simp_all add: le16_def be16_def be32_def)

lemma rd_le16_le16 [wire_simps]: "rd_le16 (ucast w) (ucast (drop_bit 8 w)) = w"
  unfolding rd_le16_def
  by (rule bit_word_eqI) (auto simp: bit_simps)

lemma rd_be16_be16 [wire_simps]: "rd_be16 (ucast (drop_bit 8 w)) (ucast w) = w"
  unfolding rd_be16_def
  by (rule bit_word_eqI) (auto simp: bit_simps)

lemma rd_be32_be32 [wire_simps]:
  "rd_be32 (ucast (drop_bit 24 w)) (ucast (drop_bit 16 w)) (ucast (drop_bit 8 w)) (ucast w) = w"
proof (rule bit_word_eqI)
  fix n
  assume "n < LENGTH(32)"
  then show "bit (rd_be32 (ucast (drop_bit 24 w)) (ucast (drop_bit 16 w))
      (ucast (drop_bit 8 w)) (ucast w)) n = bit w n"
    by (cases "24 \<le> n"; cases "16 \<le> n"; cases "8 \<le> n")
      (auto simp: rd_be32_def bit_simps)
qed

subsection \<open>Ends of a linked sequence\<close>

text \<open>
  The pointer held by a list head: the first (last) element, or the given default where
  the sequence is empty.
\<close>

definition hdo :: "'a list \<Rightarrow> 'a option \<Rightarrow> 'a option" where
  "hdo xs d = (case xs of [] \<Rightarrow> d | x # _ \<Rightarrow> Some x)"

definition lasto :: "'a list \<Rightarrow> 'a option \<Rightarrow> 'a option" where
  "lasto xs d = (if xs = [] then d else Some (last xs))"

lemma hdo_simps [ptr_simps, simp]:
  "hdo [] d = d" "hdo (x # xs) d = Some x"
  by (simp_all add: hdo_def)

lemma hdo_append [ptr_simps, simp]: "hdo (xs @ ys) d = hdo xs (hdo ys d)"
  by (cases xs) simp_all

lemma lasto_simps [ptr_simps, simp]:
  "lasto [] d = d" "lasto [x] d = Some x" "lasto (xs @ [x]) d = Some x"
  by (simp_all add: lasto_def)

lemma lasto_Cons [ptr_simps, simp]: "lasto (x # xs) d = lasto xs (Some x)"
  by (simp add: lasto_def)

lemma lasto_append [ptr_simps, simp]: "lasto (xs @ ys) d = lasto ys (lasto xs d)"
  by (simp add: lasto_def)

lemma hdo_None_iff [simp]: "hdo xs None = None \<longleftrightarrow> xs = []"
  by (cases xs) simp_all

lemma lasto_None_iff [simp]: "lasto xs None = None \<longleftrightarrow> xs = []"
  by (simp add: lasto_def)

lemma hdo_Some_in: "hdo xs None = Some y \<Longrightarrow> y \<in> set xs"
  by (cases xs) simp_all

lemma lasto_Some_in: "lasto xs None = Some y \<Longrightarrow> y \<in> set xs"
  by (auto simp: lasto_def split: if_splits)

end
