(* ===== verification/Badvpn_LinkedList.thy ===== *)
theory Badvpn_LinkedList
  imports Prelude
begin

text \<open>
  The intrusive doubly linked lists of badvpn (structure/LinkedList0.h,
  structure/LinkedList1.h, structure/SLinkedList_impl.h), modelled on an explicit store:
  a node address is mapped to its two pointers, and each operation performs the stores of
  the C function in their order. \<open>dseg\<close> says that a stretch of the store is linked up
  as a given sequence of addresses; the three list heads are related to a sequence by
  \<open>ll1_rep\<close>, \<open>ll0_rep\<close> and \<open>sl_rep\<close>.

  \<open>linked_seq\<close> is the contract the list clients rely on (the job queue of BPending,
  the flow list of the fair queue); all three implementations are interpretations of it.
\<close>

record ll_node =
  node_p :: "addr option"
  node_n :: "addr option"

type_synonym ll_heap = "addr \<Rightarrow> ll_node"

definition set_p :: "ll_heap \<Rightarrow> addr \<Rightarrow> addr option \<Rightarrow> ll_heap" where
  "set_p h a v = h(a := (h a)\<lparr>node_p := v\<rparr>)"

definition set_n :: "ll_heap \<Rightarrow> addr \<Rightarrow> addr option \<Rightarrow> ll_heap" where
  "set_n h a v = h(a := (h a)\<lparr>node_n := v\<rparr>)"

lemma node_set [simp]:
  "node_p (set_p h a v b) = (if a = b then v else node_p (h b))"
  "node_n (set_p h a v b) = node_n (h b)"
  "node_n (set_n h a v b) = (if a = b then v else node_n (h b))"
  "node_p (set_n h a v b) = node_p (h b)"
  by (simp_all add: set_p_def set_n_def)

subsection \<open>LinkedList1: a list with a last pointer\<close>

record LinkedList1 =
  ll1_first :: "addr option"
  ll1_last :: "addr option"

definition LinkedList1_Init :: LinkedList1 where
  "LinkedList1_Init = \<lparr>ll1_first = None, ll1_last = None\<rparr>"

definition LinkedList1_IsEmpty :: "LinkedList1 \<Rightarrow> bool" where
  "LinkedList1_IsEmpty l = (ll1_first l = None)"

definition LinkedList1_GetFirst :: "LinkedList1 \<Rightarrow> addr option" where
  "LinkedList1_GetFirst l = ll1_first l"

definition LinkedList1_GetLast :: "LinkedList1 \<Rightarrow> addr option" where
  "LinkedList1_GetLast l = ll1_last l"

definition LinkedList1_Prepend :: "ll_heap \<times> LinkedList1 \<Rightarrow> addr \<Rightarrow> ll_heap \<times> LinkedList1" where
  "LinkedList1_Prepend s node =
     (let (h, l) = s;
          h = set_p h node None;
          h = set_n h node (ll1_first l);
          (h, l) = (case ll1_first l of
                      Some f \<Rightarrow> (set_p h f (Some node), l)
                    | None \<Rightarrow> (h, l\<lparr>ll1_last := Some node\<rparr>))
      in (h, l\<lparr>ll1_first := Some node\<rparr>))"

definition LinkedList1_Append :: "ll_heap \<times> LinkedList1 \<Rightarrow> addr \<Rightarrow> ll_heap \<times> LinkedList1" where
  "LinkedList1_Append s node =
     (let (h, l) = s;
          h = set_p h node (ll1_last l);
          h = set_n h node None;
          (h, l) = (case ll1_last l of
                      Some b \<Rightarrow> (set_n h b (Some node), l)
                    | None \<Rightarrow> (h, l\<lparr>ll1_first := Some node\<rparr>))
      in (h, l\<lparr>ll1_last := Some node\<rparr>))"

definition LinkedList1_InsertBefore ::
  "ll_heap \<times> LinkedList1 \<Rightarrow> addr \<Rightarrow> addr \<Rightarrow> ll_heap \<times> LinkedList1" where
  "LinkedList1_InsertBefore s node target =
     (let (h, l) = s;
          h = set_p h node (node_p (h target));
          h = set_n h node (Some target);
          (h, l) = (case node_p (h target) of
                      Some a \<Rightarrow> (set_n h a (Some node), l)
                    | None \<Rightarrow> (h, l\<lparr>ll1_first := Some node\<rparr>))
      in (set_p h target (Some node), l))"

definition LinkedList1_InsertAfter ::
  "ll_heap \<times> LinkedList1 \<Rightarrow> addr \<Rightarrow> addr \<Rightarrow> ll_heap \<times> LinkedList1" where
  "LinkedList1_InsertAfter s node target =
     (let (h, l) = s;
          h = set_p h node (Some target);
          h = set_n h node (node_n (h target));
          (h, l) = (case node_n (h target) of
                      Some a \<Rightarrow> (set_p h a (Some node), l)
                    | None \<Rightarrow> (h, l\<lparr>ll1_last := Some node\<rparr>))
      in (set_n h target (Some node), l))"

definition LinkedList1_Remove :: "ll_heap \<times> LinkedList1 \<Rightarrow> addr \<Rightarrow> ll_heap \<times> LinkedList1" where
  "LinkedList1_Remove s node =
     (let (h, l) = s;
          (h, l) = (case node_p (h node) of
                      Some a \<Rightarrow> (set_n h a (node_n (h node)), l)
                    | None \<Rightarrow> (h, l\<lparr>ll1_first := node_n (h node)\<rparr>))
      in (case node_n (h node) of
            Some b \<Rightarrow> (set_p h b (node_p (h node)), l)
          | None \<Rightarrow> (h, l\<lparr>ll1_last := node_p (h node)\<rparr>)))"

definition LinkedList1_InsertListAfter ::
  "ll_heap \<times> LinkedList1 \<Rightarrow> LinkedList1 \<Rightarrow> addr option \<Rightarrow> ll_heap \<times> LinkedList1" where
  "LinkedList1_InsertListAfter s ins target =
     (case (ll1_first ins, ll1_last ins) of
        (Some f, Some b) \<Rightarrow>
          (let (h, l) = s;
               t_next = (case target of Some t \<Rightarrow> node_n (h t) | None \<Rightarrow> ll1_first l);
               h = set_p h f target;
               h = set_n h b t_next;
               (h, l) = (case target of
                           Some t \<Rightarrow> (set_n h t (Some f), l)
                         | None \<Rightarrow> (h, l\<lparr>ll1_first := Some f\<rparr>))
           in (case t_next of
                 Some t \<Rightarrow> (set_p h t (Some b), l)
               | None \<Rightarrow> (h, l\<lparr>ll1_last := Some b\<rparr>)))
      | _ \<Rightarrow> s)"

definition LinkedList1Node_Next :: "ll_heap \<Rightarrow> addr \<Rightarrow> addr option" where
  "LinkedList1Node_Next h node = node_n (h node)"

definition LinkedList1Node_Prev :: "ll_heap \<Rightarrow> addr \<Rightarrow> addr option" where
  "LinkedList1Node_Prev h node = node_p (h node)"

subsection \<open>LinkedList0: a list with a first pointer only\<close>

record LinkedList0 =
  ll0_first :: "addr option"

definition LinkedList0_Init :: LinkedList0 where
  "LinkedList0_Init = \<lparr>ll0_first = None\<rparr>"

definition LinkedList0_IsEmpty :: "LinkedList0 \<Rightarrow> bool" where
  "LinkedList0_IsEmpty l = (ll0_first l = None)"

definition LinkedList0_GetFirst :: "LinkedList0 \<Rightarrow> addr option" where
  "LinkedList0_GetFirst l = ll0_first l"

definition LinkedList0_Prepend :: "ll_heap \<times> LinkedList0 \<Rightarrow> addr \<Rightarrow> ll_heap \<times> LinkedList0" where
  "LinkedList0_Prepend s node =
     (let (h, l) = s;
          h = set_p h node None;
          h = set_n h node (ll0_first l);
          h = (case ll0_first l of Some f \<Rightarrow> set_p h f (Some node) | None \<Rightarrow> h)
      in (h, l\<lparr>ll0_first := Some node\<rparr>))"

definition LinkedList0_InsertBefore ::
  "ll_heap \<times> LinkedList0 \<Rightarrow> addr \<Rightarrow> addr \<Rightarrow> ll_heap \<times> LinkedList0" where
  "LinkedList0_InsertBefore s node target =
     (let (h, l) = s;
          h = set_p h node (node_p (h target));
          h = set_n h node (Some target);
          (h, l) = (case node_p (h target) of
                      Some a \<Rightarrow> (set_n h a (Some node), l)
                    | None \<Rightarrow> (h, l\<lparr>ll0_first := Some node\<rparr>))
      in (set_p h target (Some node), l))"

definition LinkedList0_InsertAfter ::
  "ll_heap \<times> LinkedList0 \<Rightarrow> addr \<Rightarrow> addr \<Rightarrow> ll_heap \<times> LinkedList0" where
  "LinkedList0_InsertAfter s node target =
     (let (h, l) = s;
          h = set_p h node (Some target);
          h = set_n h node (node_n (h target));
          h = (case node_n (h target) of Some a \<Rightarrow> set_p h a (Some node) | None \<Rightarrow> h)
      in (set_n h target (Some node), l))"

definition LinkedList0_Remove :: "ll_heap \<times> LinkedList0 \<Rightarrow> addr \<Rightarrow> ll_heap \<times> LinkedList0" where
  "LinkedList0_Remove s node =
     (let (h, l) = s;
          (h, l) = (case node_p (h node) of
                      Some a \<Rightarrow> (set_n h a (node_n (h node)), l)
                    | None \<Rightarrow> (h, l\<lparr>ll0_first := node_n (h node)\<rparr>))
      in (case node_n (h node) of
            Some b \<Rightarrow> (set_p h b (node_p (h node)), l)
          | None \<Rightarrow> (h, l)))"

subsection \<open>SLinkedList with SLINKEDLIST\_PARAM\_FEATURE\_LAST = 0\<close>

text \<open>The instance BPending\_list.h makes: entries keep their node inside, no last pointer.\<close>

record SLinkedList =
  sl_first :: "addr option"

definition SLinkedList_Init :: SLinkedList where
  "SLinkedList_Init = \<lparr>sl_first = None\<rparr>"

definition SLinkedList_Prepend :: "ll_heap \<times> SLinkedList \<Rightarrow> addr \<Rightarrow> ll_heap \<times> SLinkedList" where
  "SLinkedList_Prepend s entry =
     (let (h, o1) = s;
          h = set_p h entry None;
          h = set_n h entry (sl_first o1);
          h = (case sl_first o1 of Some f \<Rightarrow> set_p h f (Some entry) | None \<Rightarrow> h)
      in (h, o1\<lparr>sl_first := Some entry\<rparr>))"

definition SLinkedList_InsertBefore ::
  "ll_heap \<times> SLinkedList \<Rightarrow> addr \<Rightarrow> addr \<Rightarrow> ll_heap \<times> SLinkedList" where
  "SLinkedList_InsertBefore s entry before_entry =
     (let (h, o1) = s;
          h = set_p h entry (node_p (h before_entry));
          h = set_n h entry (Some before_entry);
          (h, o1) = (case node_p (h before_entry) of
                       Some a \<Rightarrow> (set_n h a (Some entry), o1)
                     | None \<Rightarrow> (h, o1\<lparr>sl_first := Some entry\<rparr>))
      in (set_p h before_entry (Some entry), o1))"

definition SLinkedList_InsertAfter ::
  "ll_heap \<times> SLinkedList \<Rightarrow> addr \<Rightarrow> addr \<Rightarrow> ll_heap \<times> SLinkedList" where
  "SLinkedList_InsertAfter s entry after_entry =
     (let (h, o1) = s;
          h = set_n h entry (node_n (h after_entry));
          h = set_p h entry (Some after_entry);
          h = (case node_n (h after_entry) of Some a \<Rightarrow> set_p h a (Some entry) | None \<Rightarrow> h)
      in (set_n h after_entry (Some entry), o1))"

definition SLinkedList_Remove :: "ll_heap \<times> SLinkedList \<Rightarrow> addr \<Rightarrow> ll_heap \<times> SLinkedList" where
  "SLinkedList_Remove s entry =
     (let (h, o1) = s;
          (h, o1) = (case node_p (h entry) of
                       Some a \<Rightarrow> (set_n h a (node_n (h entry)), o1)
                     | None \<Rightarrow> (h, o1\<lparr>sl_first := node_n (h entry)\<rparr>))
      in (case node_n (h entry) of
            Some b \<Rightarrow> (set_p h b (node_p (h entry)), o1)
          | None \<Rightarrow> (h, o1)))"

definition SLinkedList_First :: "SLinkedList \<Rightarrow> addr option" where
  "SLinkedList_First o1 = sl_first o1"

definition SLinkedList_IsEmpty :: "SLinkedList \<Rightarrow> bool" where
  "SLinkedList_IsEmpty o1 = (sl_first o1 = None)"

subsection \<open>Linked stretches of the store\<close>

fun dseg :: "ll_heap \<Rightarrow> addr option \<Rightarrow> addr list \<Rightarrow> addr option \<Rightarrow> bool" where
  "dseg h pr [] nx = True"
| "dseg h pr (x # xs) nx \<longleftrightarrow>
     node_p (h x) = pr \<and> node_n (h x) = hdo xs nx \<and> dseg h (Some x) xs nx"

lemma dseg_append [simp]:
  "dseg h pr (xs @ ys) nx \<longleftrightarrow> dseg h pr xs (hdo ys nx) \<and> dseg h (lasto xs pr) ys nx"
  by (induction xs arbitrary: pr) auto

lemma dseg_frame_p [simp]: "a \<notin> set xs \<Longrightarrow> dseg (set_p h a v) pr xs nx = dseg h pr xs nx"
  by (induction xs arbitrary: pr) auto

lemma dseg_frame_n [simp]: "a \<notin> set xs \<Longrightarrow> dseg (set_n h a v) pr xs nx = dseg h pr xs nx"
  by (induction xs arbitrary: pr) auto

lemma dseg_mid:
  "dseg h pr (ys @ x # zs) nx \<Longrightarrow> node_p (h x) = lasto ys pr \<and> node_n (h x) = hdo zs nx"
  by simp

lemma dseg_next:
  assumes "dseg h pr xs nx" "distinct xs" "x \<in> set xs" "nx \<noteq> Some x"
  shows "node_n (h x) \<noteq> Some x"
proof -
  from assms(3) obtain ys zs where xs: "xs = ys @ x # zs"
    by (meson split_list)
  with assms(1) have "node_n (h x) = hdo zs nx" by simp
  moreover from assms(2) xs have "x \<notin> set zs" by simp
  ultimately show ?thesis using assms(4) by (cases zs) auto
qed

text \<open>Relinking the node in front of a stretch, and the node behind one.\<close>

lemma dseg_set_head:
  "dseg h pr (x # xs) nx \<Longrightarrow> x \<notin> set xs \<Longrightarrow> dseg (set_p h x pr') pr' (x # xs) nx"
  by simp

lemma dseg_set_last:
  "dseg h pr (xs @ [x]) nx \<Longrightarrow> x \<notin> set xs \<Longrightarrow> dseg (set_n h x nx') pr (xs @ [x]) nx'"
  by simp

definition ll1_rep :: "ll_heap \<times> LinkedList1 \<Rightarrow> addr list \<Rightarrow> bool" where
  "ll1_rep s xs \<longleftrightarrow> distinct xs \<and> dseg (fst s) None xs None \<and>
     ll1_first (snd s) = hdo xs None \<and> ll1_last (snd s) = lasto xs None"

definition ll0_rep :: "ll_heap \<times> LinkedList0 \<Rightarrow> addr list \<Rightarrow> bool" where
  "ll0_rep s xs \<longleftrightarrow> distinct xs \<and> dseg (fst s) None xs None \<and>
     ll0_first (snd s) = hdo xs None"

definition sl_rep :: "ll_heap \<times> SLinkedList \<Rightarrow> addr list \<Rightarrow> bool" where
  "sl_rep s xs \<longleftrightarrow> distinct xs \<and> dseg (fst s) None xs None \<and>
     sl_first (snd s) = hdo xs None"

text \<open>The case analyses of the proofs below: what stands before and behind a node.\<close>

lemma before_cases:
  obtains (first) "ys = []" | (later) ys' y where "ys = ys' @ [y]"
  by (cases ys rule: rev_cases) auto

lemmas ll1_ops = LinkedList1_Prepend_def LinkedList1_Append_def LinkedList1_InsertBefore_def
  LinkedList1_InsertAfter_def LinkedList1_Remove_def LinkedList1_InsertListAfter_def
lemmas ll0_ops = LinkedList0_Prepend_def LinkedList0_InsertBefore_def
  LinkedList0_InsertAfter_def LinkedList0_Remove_def
lemmas sl_ops = SLinkedList_Prepend_def SLinkedList_InsertBefore_def
  SLinkedList_InsertAfter_def SLinkedList_Remove_def

subsubsection \<open>LinkedList1\<close>

lemma ll1_prepend:
  "ll1_rep s xs \<Longrightarrow> x \<notin> set xs \<Longrightarrow> ll1_rep (LinkedList1_Prepend s x) (x # xs)"
  by (cases s; cases xs) (auto simp: ll1_rep_def ll1_ops)

lemma ll1_append:
  assumes "ll1_rep s xs" "x \<notin> set xs"
  shows "ll1_rep (LinkedList1_Append s x) (xs @ [x])"
  using assms by (cases s; cases xs rule: before_cases) (auto simp: ll1_rep_def ll1_ops)

lemma ll1_insert_before:
  assumes "ll1_rep s (ys @ t # zs)" "x \<notin> set (ys @ t # zs)"
  shows "ll1_rep (LinkedList1_InsertBefore s x t) (ys @ x # t # zs)"
  using assms by (cases s; cases ys rule: before_cases) (auto simp: ll1_rep_def ll1_ops)

lemma ll1_insert_after:
  assumes "ll1_rep s (ys @ t # zs)" "x \<notin> set (ys @ t # zs)"
  shows "ll1_rep (LinkedList1_InsertAfter s x t) (ys @ t # x # zs)"
  using assms by (cases s; cases zs) (auto simp: ll1_rep_def ll1_ops)

lemma ll1_remove:
  assumes "ll1_rep s (ys @ x # zs)"
  shows "ll1_rep (LinkedList1_Remove s x) (ys @ zs)"
  using assms
  by (cases s; cases ys rule: before_cases; cases zs) (auto simp: ll1_rep_def ll1_ops)

subsubsection \<open>LinkedList0\<close>

lemma ll0_prepend:
  "ll0_rep s xs \<Longrightarrow> x \<notin> set xs \<Longrightarrow> ll0_rep (LinkedList0_Prepend s x) (x # xs)"
  by (cases s; cases xs) (auto simp: ll0_rep_def ll0_ops)

lemma ll0_insert_before:
  assumes "ll0_rep s (ys @ t # zs)" "x \<notin> set (ys @ t # zs)"
  shows "ll0_rep (LinkedList0_InsertBefore s x t) (ys @ x # t # zs)"
  using assms by (cases s; cases ys rule: before_cases) (auto simp: ll0_rep_def ll0_ops)

lemma ll0_insert_after:
  assumes "ll0_rep s (ys @ t # zs)" "x \<notin> set (ys @ t # zs)"
  shows "ll0_rep (LinkedList0_InsertAfter s x t) (ys @ t # x # zs)"
  using assms by (cases s; cases zs) (auto simp: ll0_rep_def ll0_ops)

lemma ll0_remove:
  assumes "ll0_rep s (ys @ x # zs)"
  shows "ll0_rep (LinkedList0_Remove s x) (ys @ zs)"
  using assms
  by (cases s; cases ys rule: before_cases; cases zs) (auto simp: ll0_rep_def ll0_ops)

subsubsection \<open>SLinkedList\<close>

lemma sl_prepend:
  "sl_rep s xs \<Longrightarrow> x \<notin> set xs \<Longrightarrow> sl_rep (SLinkedList_Prepend s x) (x # xs)"
  by (cases s; cases xs) (auto simp: sl_rep_def sl_ops)

lemma sl_insert_before:
  assumes "sl_rep s (ys @ t # zs)" "x \<notin> set (ys @ t # zs)"
  shows "sl_rep (SLinkedList_InsertBefore s x t) (ys @ x # t # zs)"
  using assms by (cases s; cases ys rule: before_cases) (auto simp: sl_rep_def sl_ops)

lemma sl_insert_after:
  assumes "sl_rep s (ys @ t # zs)" "x \<notin> set (ys @ t # zs)"
  shows "sl_rep (SLinkedList_InsertAfter s x t) (ys @ t # x # zs)"
  using assms by (cases s; cases zs) (auto simp: sl_rep_def sl_ops)

lemma sl_remove:
  assumes "sl_rep s (ys @ x # zs)"
  shows "sl_rep (SLinkedList_Remove s x) (ys @ zs)"
  using assms
  by (cases s; cases ys rule: before_cases; cases zs) (auto simp: sl_rep_def sl_ops)

subsection \<open>The contract of an intrusive list\<close>

text \<open>
  \<open>walk\<close> is the loop \<^verbatim>\<open>for (n = GetFirst(l); n; n = Next(n))\<close> with a bound on the
  number of iterations; \<open>walk_rep\<close> below shows that the loop ends after one iteration
  per element, so any bound not smaller than the length gives all of them.
\<close>

fun walk :: "nat \<Rightarrow> ('a \<Rightarrow> 'a option) \<Rightarrow> 'a option \<Rightarrow> 'a list" where
  "walk 0 nxt a = []"
| "walk (Suc n) nxt None = []"
| "walk (Suc n) nxt (Some x) = x # walk n nxt (nxt x)"

locale linked_seq =
  fixes rep :: "'s \<Rightarrow> addr list \<Rightarrow> bool"
    and first :: "'s \<Rightarrow> addr option"
    and is_empty :: "'s \<Rightarrow> bool"
    and nxt :: "'s \<Rightarrow> addr \<Rightarrow> addr option"
    and prepend :: "'s \<Rightarrow> addr \<Rightarrow> 's"
    and insert_before :: "'s \<Rightarrow> addr \<Rightarrow> addr \<Rightarrow> 's"
    and insert_after :: "'s \<Rightarrow> addr \<Rightarrow> addr \<Rightarrow> 's"
    and remove :: "'s \<Rightarrow> addr \<Rightarrow> 's"
  assumes rep_distinct: "rep s xs \<Longrightarrow> distinct xs"
    and first_rep: "rep s xs \<Longrightarrow> first s = hdo xs None"
    and is_empty_rep: "rep s xs \<Longrightarrow> is_empty s = (xs = [])"
    and nxt_rep: "rep s (ys @ x # zs) \<Longrightarrow> nxt s x = hdo zs None"
    and prepend_rep: "rep s xs \<Longrightarrow> x \<notin> set xs \<Longrightarrow> rep (prepend s x) (x # xs)"
    and insert_before_rep: "rep s (ys @ t # zs) \<Longrightarrow> x \<notin> set (ys @ t # zs) \<Longrightarrow>
      rep (insert_before s x t) (ys @ x # t # zs)"
    and insert_after_rep: "rep s (ys @ t # zs) \<Longrightarrow> x \<notin> set (ys @ t # zs) \<Longrightarrow>
      rep (insert_after s x t) (ys @ t # x # zs)"
    and remove_rep: "rep s (ys @ x # zs) \<Longrightarrow> rep (remove s x) (ys @ zs)"
    and prepend_frame: "rep s xs \<Longrightarrow> y \<notin> set xs \<Longrightarrow> y \<noteq> x \<Longrightarrow>
      nxt (prepend s x) y = nxt s y"
    and remove_frame: "rep s (ys @ x # zs) \<Longrightarrow> y \<notin> set (ys @ zs) \<Longrightarrow>
      nxt (remove s x) y = nxt s y"
begin

lemma remove_in:
  assumes "rep s xs" "x \<in> set xs"
  shows "rep (remove s x) (remove1 x xs)"
proof -
  from assms(2) obtain ys zs where xs: "xs = ys @ x # zs" and "x \<notin> set ys"
    by (meson split_list_first)
  then have "remove1 x xs = ys @ zs" by (simp add: remove1_append)
  with remove_rep [of s ys x zs] assms(1) xs show ?thesis by simp
qed

lemma remove_in_frame:
  assumes "rep s xs" "x \<in> set xs" "y \<notin> set (remove1 x xs)"
  shows "nxt (remove s x) y = nxt s y"
proof -
  from assms(2) obtain ys zs where xs: "xs = ys @ x # zs" and "x \<notin> set ys"
    by (meson split_list_first)
  then have "remove1 x xs = ys @ zs" by (simp add: remove1_append)
  with remove_frame [of s ys x zs y] assms xs show ?thesis by simp
qed

lemma nxt_not_self:
  assumes "rep s xs" "x \<in> set xs"
  shows "nxt s x \<noteq> Some x"
proof -
  from assms(2) obtain ys zs where xs: "xs = ys @ x # zs" by (meson split_list)
  with assms(1) have "nxt s x = hdo zs None" using nxt_rep by simp
  moreover have "x \<notin> set zs" using rep_distinct [OF assms(1)] xs by simp
  ultimately show ?thesis by (auto dest: hdo_Some_in)
qed

lemma walk_suffix:
  "rep s (ys @ zs) \<Longrightarrow> length zs \<le> n \<Longrightarrow> walk n (nxt s) (hdo zs None) = zs"
proof (induction zs arbitrary: ys n)
  case Nil
  then show ?case by (cases n) simp_all
next
  case (Cons z zs)
  then obtain m where n: "n = Suc m" by (cases n) simp_all
  have "nxt s z = hdo zs None" using Cons.prems(1) by (rule nxt_rep)
  with Cons.IH [of "ys @ [z]" m] Cons.prems n show ?case by simp
qed

lemma walk_rep: "rep s xs \<Longrightarrow> length xs \<le> n \<Longrightarrow> walk n (nxt s) (first s) = xs"
  using walk_suffix [of s "[]" xs n] by (simp add: first_rep)

end

lemma ll1_rep_nxt: "ll1_rep s (ys @ x # zs) \<Longrightarrow> LinkedList1Node_Next (fst s) x = hdo zs None"
  by (simp add: ll1_rep_def LinkedList1Node_Next_def)

interpretation ll1: linked_seq ll1_rep "\<lambda>s. LinkedList1_GetFirst (snd s)"
  "\<lambda>s. LinkedList1_IsEmpty (snd s)" "\<lambda>s. LinkedList1Node_Next (fst s)"
  LinkedList1_Prepend LinkedList1_InsertBefore LinkedList1_InsertAfter LinkedList1_Remove
proof (unfold_locales, goal_cases)
  case (9 s xs y x)
  then show ?case
    by (cases s) (auto simp: ll1_ops LinkedList1Node_Next_def Let_def split: option.splits)
next
  case (10 s ys x zs y)
  then show ?case
    by (cases s; cases ys rule: before_cases)
      (auto simp: ll1_rep_def ll1_ops LinkedList1Node_Next_def Let_def split: option.splits)
qed (auto simp: ll1_prepend ll1_insert_before ll1_insert_after ll1_remove ll1_rep_nxt,
    auto simp: ll1_rep_def LinkedList1_GetFirst_def LinkedList1_IsEmpty_def)

interpretation ll0: linked_seq ll0_rep "\<lambda>s. LinkedList0_GetFirst (snd s)"
  "\<lambda>s. LinkedList0_IsEmpty (snd s)" "\<lambda>s x. node_n (fst s x)"
  LinkedList0_Prepend LinkedList0_InsertBefore LinkedList0_InsertAfter LinkedList0_Remove
proof (unfold_locales, goal_cases)
  case (9 s xs y x)
  then show ?case
    by (cases s) (auto simp: ll0_ops Let_def split: option.splits)
next
  case (10 s ys x zs y)
  then show ?case
    by (cases s; cases ys rule: before_cases)
      (auto simp: ll0_rep_def ll0_ops Let_def split: option.splits)
qed (auto simp: ll0_prepend ll0_insert_before ll0_insert_after ll0_remove,
    auto simp: ll0_rep_def LinkedList0_GetFirst_def LinkedList0_IsEmpty_def)

interpretation sl: linked_seq sl_rep "\<lambda>s. SLinkedList_First (snd s)"
  "\<lambda>s. SLinkedList_IsEmpty (snd s)" "\<lambda>s x. node_n (fst s x)"
  SLinkedList_Prepend SLinkedList_InsertBefore SLinkedList_InsertAfter SLinkedList_Remove
proof (unfold_locales, goal_cases)
  case (9 s xs y x)
  then show ?case
    by (cases s) (auto simp: sl_ops Let_def split: option.splits)
next
  case (10 s ys x zs y)
  then show ?case
    by (cases s; cases ys rule: before_cases)
      (auto simp: sl_rep_def sl_ops Let_def split: option.splits)
qed (auto simp: sl_prepend sl_insert_before sl_insert_after sl_remove,
    auto simp: sl_rep_def SLinkedList_First_def SLinkedList_IsEmpty_def)

subsection \<open>Sequences of operations\<close>

text \<open>
  The abstract list: an insertion needs a node that is not linked yet, a target and a
  removal need a linked one; outside that the operation has no meaning (\<open>None\<close>).
\<close>

datatype ll_op = LPrepend addr | LAppend addr | LInsertBefore addr addr
  | LInsertAfter addr addr | LRemove addr

fun ll1_step :: "ll_heap \<times> LinkedList1 \<Rightarrow> ll_op \<Rightarrow> ll_heap \<times> LinkedList1" where
  "ll1_step s (LPrepend x) = LinkedList1_Prepend s x"
| "ll1_step s (LAppend x) = LinkedList1_Append s x"
| "ll1_step s (LInsertBefore x t) = LinkedList1_InsertBefore s x t"
| "ll1_step s (LInsertAfter x t) = LinkedList1_InsertAfter s x t"
| "ll1_step s (LRemove x) = LinkedList1_Remove s x"

fun abs_step :: "addr list \<Rightarrow> ll_op \<Rightarrow> addr list option" where
  "abs_step xs (LPrepend x) = (if x \<in> set xs then None else Some (x # xs))"
| "abs_step xs (LAppend x) = (if x \<in> set xs then None else Some (xs @ [x]))"
| "abs_step xs (LInsertBefore x t) = (if x \<in> set xs \<or> t \<notin> set xs then None
     else Some (takeWhile (\<lambda>y. y \<noteq> t) xs @ x # dropWhile (\<lambda>y. y \<noteq> t) xs))"
| "abs_step xs (LInsertAfter x t) = (if x \<in> set xs \<or> t \<notin> set xs then None
     else Some (takeWhile (\<lambda>y. y \<noteq> t) xs @ t # x # tl (dropWhile (\<lambda>y. y \<noteq> t) xs)))"
| "abs_step xs (LRemove x) = (if x \<in> set xs then Some (remove1 x xs) else None)"

fun abs_run :: "addr list \<Rightarrow> ll_op list \<Rightarrow> addr list option" where
  "abs_run xs [] = Some xs"
| "abs_run xs (a # as) = (case abs_step xs a of None \<Rightarrow> None | Some ys \<Rightarrow> abs_run ys as)"

lemma split_at:
  assumes "t \<in> set xs"
  shows "xs = takeWhile (\<lambda>y. y \<noteq> t) xs @ t # tl (dropWhile (\<lambda>y. y \<noteq> t) xs)"
    and "dropWhile (\<lambda>y. y \<noteq> t) xs = t # tl (dropWhile (\<lambda>y. y \<noteq> t) xs)"
proof -
  have ne: "dropWhile (\<lambda>y. y \<noteq> t) xs \<noteq> []" using assms by simp
  with hd_dropWhile [OF ne] show *: "dropWhile (\<lambda>y. y \<noteq> t) xs = t # tl (dropWhile (\<lambda>y. y \<noteq> t) xs)"
    by (metis list.collapse)
  show "xs = takeWhile (\<lambda>y. y \<noteq> t) xs @ t # tl (dropWhile (\<lambda>y. y \<noteq> t) xs)"
    using takeWhile_dropWhile_id [of "\<lambda>y. y \<noteq> t" xs] * by simp
qed

lemma ll1_step_rep:
  assumes rep: "ll1_rep s xs" and abs: "abs_step xs a = Some ys"
  shows "ll1_rep (ll1_step s a) ys"
proof (cases a)
  case (LInsertBefore x t)
  with abs have t: "t \<in> set xs" and x: "x \<notin> set xs" by (auto split: if_splits)
  let ?l = "takeWhile (\<lambda>y. y \<noteq> t) xs" and ?r = "tl (dropWhile (\<lambda>y. y \<noteq> t) xs)"
  have "ll1_rep (LinkedList1_InsertBefore s x t) (?l @ x # t # ?r)"
    using rep x split_at(1) [OF t] by (metis ll1_insert_before)
  with abs LInsertBefore t x split_at(2) [OF t] show ?thesis by simp
next
  case (LInsertAfter x t)
  with abs have t: "t \<in> set xs" and x: "x \<notin> set xs" by (auto split: if_splits)
  let ?l = "takeWhile (\<lambda>y. y \<noteq> t) xs" and ?r = "tl (dropWhile (\<lambda>y. y \<noteq> t) xs)"
  have "ll1_rep (LinkedList1_InsertAfter s x t) (?l @ t # x # ?r)"
    using rep x split_at(1) [OF t] by (metis ll1_insert_after)
  with abs LInsertAfter t x show ?thesis by simp
qed (use assms in \<open>auto simp: ll1_prepend ll1_append ll1.remove_in split: if_splits\<close>)

lemma ll1_run_rep:
  "ll1_rep s xs \<Longrightarrow> abs_run xs as = Some ys \<Longrightarrow> ll1_rep (foldl ll1_step s as) ys"
proof (induction as arbitrary: s xs)
  case (Cons a as)
  from Cons.prems(2) obtain zs where "abs_step xs a = Some zs" "abs_run zs as = Some ys"
    by (auto split: option.splits)
  with Cons.IH [OF ll1_step_rep [OF Cons.prems(1)]] show ?case by simp
qed simp

lemma ll1_init_rep: "ll1_rep (h, LinkedList1_Init) []"
  by (simp add: ll1_rep_def LinkedList1_Init_def)

text \<open>
  C12: starting from an empty LinkedList1 over any store, any sequence of prepend, append,
  insert-before, insert-after and remove operations whose abstract counterpart is defined
  leaves the store linked as the abstract list: walking the next pointers from the first
  node visits exactly its elements in order, walking ends, and the last pointer is its last
  element.
\<close>

theorem LinkedList1_refines_list:
  assumes "abs_run [] as = Some xs"
    and "s = foldl ll1_step (h, LinkedList1_Init) as"
  shows "walk (Suc (length xs)) (LinkedList1Node_Next (fst s)) (LinkedList1_GetFirst (snd s)) = xs
    \<and> LinkedList1_GetLast (snd s) = lasto xs None
    \<and> LinkedList1_IsEmpty (snd s) = (xs = [])"
proof -
  have rep: "ll1_rep s xs"
    using ll1_run_rep [OF ll1_init_rep assms(1)] assms(2) by simp
  show ?thesis
    using ll1.walk_rep [OF rep, of "Suc (length xs)"] ll1.is_empty_rep [OF rep] rep
    by (simp add: ll1_rep_def LinkedList1_GetLast_def)
qed

theorem LinkedList1_refines_list_witness:
  "abs_run [] [LAppend 1, LPrepend 2, LInsertAfter 3 2, LRemove 2, LInsertBefore 4 1] = Some [3, 4, 1]
   \<and> walk (Suc (length [3, 4, 1 :: addr])) (LinkedList1Node_Next (fst (foldl ll1_step ((\<lambda>_. \<lparr>node_p = None, node_n = None\<rparr>), LinkedList1_Init)
        [LAppend 1, LPrepend 2, LInsertAfter 3 2, LRemove 2, LInsertBefore 4 1])))
      (LinkedList1_GetFirst (snd (foldl ll1_step ((\<lambda>_. \<lparr>node_p = None, node_n = None\<rparr>), LinkedList1_Init)
        [LAppend 1, LPrepend 2, LInsertAfter 3 2, LRemove 2, LInsertBefore 4 1]))) = [3, 4, 1]"
proof -
  have run: "abs_run [] [LAppend 1, LPrepend 2, LInsertAfter 3 2, LRemove 2, LInsertBefore 4 1] = Some [3, 4, 1]"
    by simp
  show ?thesis
    using LinkedList1_refines_list [OF run refl, of "\<lambda>_. \<lparr>node_p = None, node_n = None\<rparr>"] run
    by blast
qed

text \<open>Splicing a whole list in after a node, or in front when there is no target.\<close>

lemma LinkedList1_InsertListAfter_splices:
  assumes "ll1_rep (h, l) (ys @ zs)" "ll1_rep (h, ins) ws" "set ws \<inter> set (ys @ zs) = {}"
  shows "ll1_rep (LinkedList1_InsertListAfter (h, l) ins (lasto ys None)) (ys @ ws @ zs)"
proof -
  consider (nil) "ws = []" | (one) f where "ws = [f]" | (more) f ms w where "ws = f # ms @ [w]"
    by (cases ws; cases "tl ws" rule: rev_cases) auto
  then show ?thesis
  proof cases
    case nil
    with assms show ?thesis by (simp add: ll1_rep_def ll1_ops)
  next
    case one
    with assms show ?thesis
      by (cases ys rule: before_cases; cases zs) (auto simp: ll1_rep_def ll1_ops)
  next
    case more
    with assms show ?thesis
      by (cases ys rule: before_cases; cases zs) (simp_all add: ll1_rep_def ll1_ops, auto)
  qed
qed

end
