(* ===== verification/Badvpn_BPending.thy ===== *)
theory Badvpn_BPending
  imports Badvpn_LinkedList
begin

text \<open>
  The job queue of badvpn (base/BPending.c): a group keeps its pending jobs in an intrusive
  list without a last pointer, newest first, and a job that is not pending is marked by
  letting its next pointer point at itself. The state holds the store of nodes, the list
  head and the handler of every job; a handler together with its user pointer is one
  abstract value.

  The clients of the queue see it through \<open>pend_rep\<close>: a set of initialised jobs and the
  sequence of pending ones. Every operation is shown to act on that sequence as on a stack
  without duplicates, whatever sequence of operations is performed.
\<close>

record 'h BPendingGroup =
  pg_heap :: ll_heap
  pg_jobs :: SLinkedList
  pg_handler :: "addr \<Rightarrow> 'h"

definition pg_list :: "'h BPendingGroup \<Rightarrow> ll_heap \<times> SLinkedList" where
  "pg_list g = (pg_heap g, pg_jobs g)"

definition pg_upd :: "'h BPendingGroup \<Rightarrow> ll_heap \<times> SLinkedList \<Rightarrow> 'h BPendingGroup" where
  "pg_upd g s = g\<lparr>pg_heap := fst s, pg_jobs := snd s\<rparr>"

definition BPendingGroup_Init :: "'h BPendingGroup \<Rightarrow> 'h BPendingGroup" where
  "BPendingGroup_Init g = g\<lparr>pg_jobs := SLinkedList_Init\<rparr>"

definition BPendingGroup_HasJobs :: "'h BPendingGroup \<Rightarrow> bool" where
  "BPendingGroup_HasJobs g = (\<not> SLinkedList_IsEmpty (pg_jobs g))"

text \<open>
  \<open>BPendingGroup_ExecuteJob\<close> returns the handler it calls last; \<open>None\<close> is the null
  dereference on an empty queue that the function's precondition rules out.
\<close>

definition BPendingGroup_ExecuteJob :: "'h BPendingGroup \<Rightarrow> ('h \<times> 'h BPendingGroup) option" where
  "BPendingGroup_ExecuteJob g =
     (case SLinkedList_First (pg_jobs g) of
        None \<Rightarrow> None
      | Some p \<Rightarrow>
          (let g = pg_upd g (SLinkedList_Remove (pg_list g) p);
               g = g\<lparr>pg_heap := set_n (pg_heap g) p (Some p)\<rparr>
           in Some (pg_handler g p, g)))"

definition BPendingGroup_PeekJob :: "'h BPendingGroup \<Rightarrow> addr option" where
  "BPendingGroup_PeekJob g = SLinkedList_First (pg_jobs g)"

definition BSmallPending_Init :: "'h BPendingGroup \<Rightarrow> addr \<Rightarrow> 'h \<Rightarrow> 'h BPendingGroup" where
  "BSmallPending_Init g p handler =
     g\<lparr>pg_handler := (pg_handler g)(p := handler), pg_heap := set_n (pg_heap g) p (Some p)\<rparr>"

definition is_pending :: "'h BPendingGroup \<Rightarrow> addr \<Rightarrow> bool" where
  "is_pending g p = (node_n (pg_heap g p) \<noteq> Some p)"

definition BSmallPending_Free :: "'h BPendingGroup \<Rightarrow> addr \<Rightarrow> 'h BPendingGroup" where
  "BSmallPending_Free g p =
     (if is_pending g p then pg_upd g (SLinkedList_Remove (pg_list g) p) else g)"

definition BSmallPending_SetHandler :: "'h BPendingGroup \<Rightarrow> addr \<Rightarrow> 'h \<Rightarrow> 'h BPendingGroup" where
  "BSmallPending_SetHandler g p handler = g\<lparr>pg_handler := (pg_handler g)(p := handler)\<rparr>"

definition BSmallPending_Set :: "'h BPendingGroup \<Rightarrow> addr \<Rightarrow> 'h BPendingGroup" where
  "BSmallPending_Set g p =
     (let g = (if is_pending g p then pg_upd g (SLinkedList_Remove (pg_list g) p) else g)
      in pg_upd g (SLinkedList_Prepend (pg_list g) p))"

definition BSmallPending_Unset :: "'h BPendingGroup \<Rightarrow> addr \<Rightarrow> 'h BPendingGroup" where
  "BSmallPending_Unset g p =
     (if is_pending g p
      then (let g = pg_upd g (SLinkedList_Remove (pg_list g) p)
            in g\<lparr>pg_heap := set_n (pg_heap g) p (Some p)\<rparr>)
      else g)"

definition BSmallPending_IsSet :: "'h BPendingGroup \<Rightarrow> addr \<Rightarrow> bool" where
  "BSmallPending_IsSet g p = is_pending g p"

subsection \<open>What the clients see\<close>

definition pend_rep :: "'h BPendingGroup \<Rightarrow> addr set \<Rightarrow> addr list \<Rightarrow> bool" where
  "pend_rep g live xs \<longleftrightarrow> sl_rep (pg_list g) xs \<and> set xs \<subseteq> live \<and>
     (\<forall>p \<in> live. p \<notin> set xs \<longrightarrow> node_n (pg_heap g p) = Some p)"

lemma pg_simps [simp]:
  "pg_list (pg_upd g s) = s"
  "pg_heap (pg_upd g s) = fst s"
  "pg_jobs (pg_upd g s) = snd s"
  "pg_handler (pg_upd g s) = pg_handler g"
  "fst (pg_list g) = pg_heap g"
  "snd (pg_list g) = pg_jobs g"
  by (cases s; simp add: pg_list_def pg_upd_def)+

lemma is_pending_iff: "pend_rep g live xs \<Longrightarrow> p \<in> live \<Longrightarrow> is_pending g p = (p \<in> set xs)"
  using sl.nxt_not_self [of "pg_list g" xs p]
  by (auto simp: pend_rep_def is_pending_def)

text \<open>Marking a job that is not linked does not disturb the list.\<close>

lemma sl_rep_mark:
  "sl_rep (pg_list g) xs \<Longrightarrow> p \<notin> set xs \<Longrightarrow>
    sl_rep (pg_list (g\<lparr>pg_heap := set_n (pg_heap g) p v\<rparr>)) xs"
  by (simp add: sl_rep_def pg_list_def)

lemma pend_rep_init: "pend_rep (BPendingGroup_Init g) {} []"
  by (simp add: pend_rep_def BPendingGroup_Init_def sl_rep_def pg_list_def SLinkedList_Init_def)

lemma pend_rep_Init:
  "pend_rep g live xs \<Longrightarrow> p \<notin> live \<Longrightarrow> pend_rep (BSmallPending_Init g p hdl) (insert p live) xs"
  using sl_rep_mark [of g xs p]
  by (auto simp: pend_rep_def BSmallPending_Init_def pg_list_def)

text \<open>Unlinking a pending job, which all four removing operations share.\<close>

lemma unlink_rep:
  assumes "pend_rep g live xs" "p \<in> set xs"
  defines "g' \<equiv> pg_upd g (SLinkedList_Remove (pg_list g) p)"
  shows "sl_rep (pg_list g') (remove1 p xs)"
    and "q \<in> live \<Longrightarrow> q \<noteq> p \<Longrightarrow> q \<notin> set (remove1 p xs) \<Longrightarrow> node_n (pg_heap g' q) = Some q"
    and "p \<notin> set (remove1 p xs)"
proof -
  have rep: "sl_rep (pg_list g) xs" and sub: "set xs \<subseteq> live"
    and mark: "\<And>q. q \<in> live \<Longrightarrow> q \<notin> set xs \<Longrightarrow> node_n (pg_heap g q) = Some q"
    using assms(1) by (auto simp: pend_rep_def)
  show "sl_rep (pg_list g') (remove1 p xs)"
    using sl.remove_in [OF rep assms(2)] by (simp add: g'_def)
  show "p \<notin> set (remove1 p xs)"
    using sl.rep_distinct [OF rep] by simp
  show "node_n (pg_heap g' q) = Some q" if "q \<in> live" "q \<noteq> p" "q \<notin> set (remove1 p xs)"
  proof -
    have "q \<notin> set xs" using that by (auto simp: in_set_remove1)
    with mark that have "node_n (pg_heap g q) = Some q" by simp
    with sl.remove_in_frame [OF rep assms(2), of q] that show ?thesis by (simp add: g'_def)
  qed
qed

lemma pend_rep_unlink_mark:
  assumes "pend_rep g live xs" "p \<in> set xs"
  shows "pend_rep (let g = pg_upd g (SLinkedList_Remove (pg_list g) p)
      in g\<lparr>pg_heap := set_n (pg_heap g) p (Some p)\<rparr>) live (remove1 p xs)"
  using sl_rep_mark [OF unlink_rep(1,3) [OF assms], of "Some p"] unlink_rep(2) [OF assms] assms(1)
  by (auto simp: pend_rep_def Let_def dest: notin_set_remove1)

lemma pend_rep_Unset:
  "pend_rep g live xs \<Longrightarrow> p \<in> live \<Longrightarrow> pend_rep (BSmallPending_Unset g p) live (remove1 p xs)"
  using pend_rep_unlink_mark [of g live xs p]
  by (simp add: BSmallPending_Unset_def is_pending_iff remove1_idem)

lemma pend_rep_Free:
  assumes "pend_rep g live xs" "p \<in> live"
  shows "pend_rep (BSmallPending_Free g p) (live - {p}) (remove1 p xs)"
proof (cases "p \<in> set xs")
  case True
  then show ?thesis
    using unlink_rep [OF assms(1) True] assms
    by (auto simp: BSmallPending_Free_def is_pending_iff pend_rep_def dest: notin_set_remove1)
next
  case False
  with assms show ?thesis
    by (auto simp: BSmallPending_Free_def is_pending_iff pend_rep_def remove1_idem)
qed

lemma pend_rep_Set:
  assumes "pend_rep g live xs" "p \<in> live"
  shows "pend_rep (BSmallPending_Set g p) live (p # remove1 p xs)"
proof -
  define g1 where "g1 = (if is_pending g p then pg_upd g (SLinkedList_Remove (pg_list g) p) else g)"
  have g1: "sl_rep (pg_list g1) (remove1 p xs)" "p \<notin> set (remove1 p xs)"
    "\<And>q. q \<in> live \<Longrightarrow> q \<noteq> p \<Longrightarrow> q \<notin> set (remove1 p xs) \<Longrightarrow> node_n (pg_heap g1 q) = Some q"
    using unlink_rep [OF assms(1)] assms sl.rep_distinct [of "pg_list g" xs]
    by (auto simp: g1_def is_pending_iff pend_rep_def remove1_idem)
  have "pend_rep (pg_upd g1 (SLinkedList_Prepend (pg_list g1) p)) live (p # remove1 p xs)"
    using sl.prepend_rep [OF g1(1,2)] sl.prepend_frame [OF g1(1)] g1(3) assms
    by (auto simp: pend_rep_def dest: notin_set_remove1)
  then show ?thesis by (simp add: BSmallPending_Set_def g1_def Let_def)
qed

lemma ExecuteJob_rep:
  assumes "pend_rep g live (p # xs)"
  shows "\<exists>g'. BPendingGroup_ExecuteJob g = Some (pg_handler g p, g') \<and> pend_rep g' live xs"
proof -
  have "SLinkedList_First (pg_jobs g) = Some p"
    using sl.first_rep [of "pg_list g" "p # xs"] assms by (simp add: pend_rep_def)
  then show ?thesis
    using pend_rep_unlink_mark [OF assms, of p]
    by (simp add: BPendingGroup_ExecuteJob_def Let_def)
qed

subsection \<open>Sequences of operations\<close>

text \<open>
  A history of the group: jobs come and go, are set and unset, and the event loop executes
  one job at a time. The abstract queue is the pair of the initialised jobs with their
  handlers and the stack of pending ones; an operation outside its precondition has no
  abstract counterpart.
\<close>

datatype 'h pend_op = PInit addr 'h | PSetHandler addr 'h | PSet addr | PUnset addr
  | PFree addr | PExec

fun pend_step :: "'h BPendingGroup \<Rightarrow> 'h pend_op \<Rightarrow> 'h list \<times> 'h BPendingGroup" where
  "pend_step g (PInit p h) = ([], BSmallPending_Init g p h)"
| "pend_step g (PSetHandler p h) = ([], BSmallPending_SetHandler g p h)"
| "pend_step g (PSet p) = ([], BSmallPending_Set g p)"
| "pend_step g (PUnset p) = ([], BSmallPending_Unset g p)"
| "pend_step g (PFree p) = ([], BSmallPending_Free g p)"
| "pend_step g PExec = (case BPendingGroup_ExecuteJob g of
      None \<Rightarrow> ([], g) | Some (h, g') \<Rightarrow> ([h], g'))"

fun pend_run :: "'h BPendingGroup \<Rightarrow> 'h pend_op list \<Rightarrow> 'h list" where
  "pend_run g [] = []"
| "pend_run g (a # as) = (let (out, g') = pend_step g a in out @ pend_run g' as)"

fun stack_step :: "(addr \<rightharpoonup> 'h) \<times> addr list \<Rightarrow> 'h pend_op \<Rightarrow>
    ('h list \<times> (addr \<rightharpoonup> 'h) \<times> addr list) option" where
  "stack_step (m, xs) (PInit p h) = (if m p = None then Some ([], m(p \<mapsto> h), xs) else None)"
| "stack_step (m, xs) (PSetHandler p h) = (if m p = None then None else Some ([], m(p \<mapsto> h), xs))"
| "stack_step (m, xs) (PSet p) = (if m p = None then None else Some ([], m, p # remove1 p xs))"
| "stack_step (m, xs) (PUnset p) = (if m p = None then None else Some ([], m, remove1 p xs))"
| "stack_step (m, xs) (PFree p) =
     (if m p = None then None else Some ([], m(p := None), remove1 p xs))"
| "stack_step (m, xs) PExec = (case xs of [] \<Rightarrow> None
     | p # ps \<Rightarrow> (case m p of None \<Rightarrow> None | Some h \<Rightarrow> Some ([h], m, ps)))"

fun stack_run :: "(addr \<rightharpoonup> 'h) \<times> addr list \<Rightarrow> 'h pend_op list \<Rightarrow> 'h list option" where
  "stack_run s [] = Some []"
| "stack_run s (a # as) = (case stack_step s a of None \<Rightarrow> None
     | Some (out, s') \<Rightarrow> map_option ((@) out) (stack_run s' as))"

definition pend_sim :: "'h BPendingGroup \<Rightarrow> (addr \<rightharpoonup> 'h) \<times> addr list \<Rightarrow> bool" where
  "pend_sim g s \<longleftrightarrow> pend_rep g (dom (fst s)) (snd s) \<and>
     (\<forall>p h. fst s p = Some h \<longrightarrow> pg_handler g p = h)"

lemma handler_frame [simp]:
  "pg_handler (BSmallPending_Set g p) = pg_handler g"
  "pg_handler (BSmallPending_Unset g p) = pg_handler g"
  "pg_handler (BSmallPending_Free g p) = pg_handler g"
  "BPendingGroup_ExecuteJob g = Some (h, g') \<Longrightarrow> pg_handler g' = pg_handler g"
  by (auto simp: BSmallPending_Set_def BSmallPending_Unset_def BSmallPending_Free_def
      BPendingGroup_ExecuteJob_def Let_def split: option.splits)

lemma pend_step_sim:
  assumes sim: "pend_sim g s" and abs: "stack_step s a = Some (out, s')"
  shows "\<exists>g'. pend_step g a = (out, g') \<and> pend_sim g' s'"
proof -
  obtain m xs where s: "s = (m, xs)" by (cases s)
  have rep: "pend_rep g (dom m) xs" and hd: "\<And>p h. m p = Some h \<Longrightarrow> pg_handler g p = h"
    using sim s by (auto simp: pend_sim_def)
  show ?thesis
  proof (cases a)
    case (PInit p h)
    with abs s rep hd show ?thesis
      using pend_rep_Init [OF rep, of p h]
      by (auto simp: pend_sim_def domIff BSmallPending_Init_def split: if_splits)
  next
    case (PSetHandler p h)
    then have "pend_rep (BSmallPending_SetHandler g p h) (dom m) xs"
      using rep by (simp add: pend_rep_def pg_list_def BSmallPending_SetHandler_def)
    with PSetHandler abs s hd show ?thesis
      by (auto simp: pend_sim_def BSmallPending_SetHandler_def insert_absorb domI split: if_splits)
  next
    case PExec
    then obtain p ps h where xs: "xs = p # ps" "m p = Some h" "out = [h]" "s' = (m, ps)"
      using abs s by (auto split: list.splits option.splits)
    with ExecuteJob_rep [of g "dom m" p ps] rep obtain g' where
      "BPendingGroup_ExecuteJob g = Some (pg_handler g p, g')" "pend_rep g' (dom m) ps" by auto
    with xs PExec hd handler_frame(4) [of g "pg_handler g p" g'] show ?thesis
      by (auto simp: pend_sim_def)
  qed (use abs s hd pend_rep_Set [OF rep] pend_rep_Unset [OF rep] pend_rep_Free [OF rep] in
      \<open>auto simp: pend_sim_def domI split: if_splits\<close>)
qed

lemma pend_run_sim:
  "pend_sim g s \<Longrightarrow> stack_run s as = Some out \<Longrightarrow> pend_run g as = out"
proof (induction as arbitrary: g s out)
  case (Cons a as)
  then obtain o1 s' o2 where st: "stack_step s a = Some (o1, s')" "stack_run s' as = Some o2"
    "out = o1 @ o2" by (auto split: option.splits)
  from pend_step_sim [OF Cons.prems(1) st(1)] obtain g' where
    "pend_step g a = (o1, g')" "pend_sim g' s'" by blast
  with Cons.IH st(2,3) show ?case by simp
qed simp

lemma pend_sim_init: "pend_sim (BPendingGroup_Init g) (Map.empty, [])"
  by (simp add: pend_sim_def pend_rep_init)

text \<open>
  C7: over any history of job initialisation, handler change, set, unset, free and execution
  whose operations respect their preconditions, the pointer-level job group calls exactly
  the handlers, in exactly the order, that a duplicate-free stack would: the job set last
  runs first, setting a pending job moves it to the front, and an unset or freed job never
  runs.
\<close>

theorem BPendingGroup_runs_stack_order:
  assumes "stack_run (Map.empty, []) as = Some out"
  shows "pend_run (BPendingGroup_Init g) as = out"
  using pend_run_sim [OF pend_sim_init assms] .

theorem BPendingGroup_runs_stack_order_witness:
  "stack_run (Map.empty, []) [PInit 1 (10::nat), PInit 2 20, PInit 3 30, PSet 1, PSet 2, PSet 3,
      PSet 1, PUnset 3, PExec, PExec] = Some [10, 20]
   \<and> pend_run (BPendingGroup_Init (\<lparr>pg_heap = (\<lambda>_. \<lparr>node_p = None, node_n = None\<rparr>),
        pg_jobs = \<lparr>sl_first = None\<rparr>, pg_handler = (\<lambda>_. 0)\<rparr>))
      [PInit 1 (10::nat), PInit 2 20, PInit 3 30, PSet 1, PSet 2, PSet 3,
       PSet 1, PUnset 3, PExec, PExec] = [10, 20]"
proof -
  have run: "stack_run (Map.empty, []) [PInit 1 (10::nat), PInit 2 20, PInit 3 30, PSet 1,
      PSet 2, PSet 3, PSet 1, PUnset 3, PExec, PExec] = Some [10, 20]"
    by simp
  show ?thesis using run BPendingGroup_runs_stack_order [OF run] by blast
qed

end
