(* ===== verification/Badvpn_PacketBuffer.thy ===== *)
theory Badvpn_PacketBuffer
  imports Prelude
begin

text \<open>
  The circular packet buffer of badvpn (structure/ChunkBuffer2.h) and the component built on
  it that decouples a packet source from a packet sink (flow/PacketBuffer.c).

  The buffer is an array of 4-byte blocks; a packet is one header block holding its length
  followed by its data, padded to whole blocks, and never wraps in the middle. The model
  keeps the bytes of the array (\<open>cb_mem\<close>, by byte offset, the header as the four
  little-endian bytes of a 32-bit int) and the C fields as integers. The two assertion
  functions of the header file are modelled too; they are shown to hold after every
  operation.
\<close>

subsection \<open>ChunkBuffer2\<close>

record ChunkBuffer2 =
  cb_mem :: "int \<Rightarrow> u8"
  cb_size :: int
  cb_wrap :: int
  cb_start :: int
  cb_used :: int
  cb_mtu :: int
  cb_input_dest :: "int option"
  cb_input_avail :: int
  cb_output_dest :: "int option"
  cb_output_avail :: int

definition INT_MAX :: int where
  "INT_MAX = 2147483647"

text \<open>The length field of block \<open>b\<close>, and storing it.\<close>

definition block_len :: "(int \<Rightarrow> u8) \<Rightarrow> int \<Rightarrow> int" where
  "block_len m b = sint (rd_be32 (m (4 * b + 3)) (m (4 * b + 2)) (m (4 * b + 1)) (m (4 * b)))"

definition set_block_len :: "(int \<Rightarrow> u8) \<Rightarrow> int \<Rightarrow> int \<Rightarrow> (int \<Rightarrow> u8)" where
  "set_block_len m b len =
     (let w = word_of_int len :: u32
      in m(4 * b := ucast w, 4 * b + 1 := ucast (drop_bit 8 w),
           4 * b + 2 := ucast (drop_bit 16 w), 4 * b + 3 := ucast (drop_bit 24 w)))"

definition blocks_of :: "int \<Rightarrow> int" where
  "blocks_of len = int (bdivide_up (nat len) 4)"

definition ChunkBuffer2_end :: "ChunkBuffer2 \<Rightarrow> int" where
  "ChunkBuffer2_end buf =
     (if cb_used buf \<ge> cb_wrap buf - cb_start buf
      then cb_used buf - (cb_wrap buf - cb_start buf)
      else cb_start buf + cb_used buf)"

definition ChunkBuffer2_assert_buffer :: "ChunkBuffer2 \<Rightarrow> bool" where
  "ChunkBuffer2_assert_buffer buf \<longleftrightarrow>
     cb_size buf > 0 \<and> cb_wrap buf > 0 \<and> cb_wrap buf \<le> cb_size buf \<and>
     cb_start buf \<ge> 0 \<and> cb_start buf < cb_wrap buf \<and>
     cb_used buf \<ge> 0 \<and> cb_used buf \<le> cb_wrap buf \<and>
     (cb_wrap buf = cb_size buf \<or> cb_used buf \<ge> cb_wrap buf - cb_start buf) \<and>
     cb_mtu buf \<ge> 0"

definition free_blocks :: "ChunkBuffer2 \<Rightarrow> int" where
  "free_blocks buf =
     (if cb_used buf \<ge> cb_wrap buf - cb_start buf
      then cb_start buf - ChunkBuffer2_end buf
      else cb_size buf - ChunkBuffer2_end buf)"

definition ChunkBuffer2_assert_io :: "ChunkBuffer2 \<Rightarrow> bool" where
  "ChunkBuffer2_assert_io buf \<longleftrightarrow>
     (let end' = ChunkBuffer2_end buf in
      if cb_size buf - end' - 1 < cb_mtu buf
      then cb_input_dest buf = None \<and> cb_input_avail buf = -1
      else if free_blocks buf > 0
      then cb_input_dest buf = Some (4 * (end' + 1)) \<and> cb_input_avail buf = (free_blocks buf - 1) * 4
      else cb_input_dest buf = None \<and> cb_input_avail buf = -1) \<and>
     (if cb_used buf > 0
      then (let datalen = block_len (cb_mem buf) (cb_start buf); blocklen = blocks_of datalen in
            datalen \<ge> 0 \<and> blocklen \<le> cb_used buf - 1 \<and>
            blocklen \<le> cb_wrap buf - cb_start buf - 1 \<and>
            cb_output_dest buf = Some (4 * (cb_start buf + 1)) \<and> cb_output_avail buf = datalen)
      else cb_output_dest buf = None \<and> cb_output_avail buf = -1)"

definition ChunkBuffer2_update_input :: "ChunkBuffer2 \<Rightarrow> ChunkBuffer2" where
  "ChunkBuffer2_update_input buf =
     (let end' = ChunkBuffer2_end buf in
      if cb_size buf - end' - 1 < cb_mtu buf
      then buf\<lparr>cb_input_dest := None, cb_input_avail := -1\<rparr>
      else (let free = (if cb_used buf \<ge> cb_wrap buf - cb_start buf
                        then cb_start buf - end' else cb_size buf - end') in
            if free > 0
            then buf\<lparr>cb_input_dest := Some (4 * (end' + 1)), cb_input_avail := (free - 1) * 4\<rparr>
            else buf\<lparr>cb_input_dest := None, cb_input_avail := -1\<rparr>))"

definition ChunkBuffer2_update_output :: "ChunkBuffer2 \<Rightarrow> ChunkBuffer2" where
  "ChunkBuffer2_update_output buf =
     (if cb_used buf > 0
      then buf\<lparr>cb_output_dest := Some (4 * (cb_start buf + 1)),
               cb_output_avail := block_len (cb_mem buf) (cb_start buf)\<rparr>
      else buf\<lparr>cb_output_dest := None, cb_output_avail := -1\<rparr>)"

definition ChunkBuffer2_calc_blocks :: "int \<Rightarrow> int \<Rightarrow> int" where
  "ChunkBuffer2_calc_blocks chunk_len num =
     (let chunk_data_blocks = blocks_of chunk_len in
      if chunk_data_blocks > INT_MAX - 1 then -1
      else (let chunk_blocks = 1 + chunk_data_blocks in
            if num > INT_MAX - 1 then -1
            else (let num_chunks = num + 1 in
                  if chunk_blocks > INT_MAX div num_chunks then -1
                  else chunk_blocks * num_chunks)))"

definition ChunkBuffer2_Init :: "(int \<Rightarrow> u8) \<Rightarrow> int \<Rightarrow> int \<Rightarrow> ChunkBuffer2" where
  "ChunkBuffer2_Init buffer blocks mtu =
     (let buf = \<lparr>cb_mem = buffer, cb_size = blocks, cb_wrap = blocks, cb_start = 0, cb_used = 0,
                 cb_mtu = blocks_of mtu, cb_input_dest = None, cb_input_avail = 0,
                 cb_output_dest = None, cb_output_avail = 0\<rparr>
      in ChunkBuffer2_update_output (ChunkBuffer2_update_input buf))"

definition ChunkBuffer2_SubmitPacket :: "ChunkBuffer2 \<Rightarrow> int \<Rightarrow> ChunkBuffer2" where
  "ChunkBuffer2_SubmitPacket buf len =
     (let end' = ChunkBuffer2_end buf;
          blocklen = blocks_of len;
          buf = buf\<lparr>cb_mem := set_block_len (cb_mem buf) end' len\<rparr>;
          buf = buf\<lparr>cb_used := cb_used buf + (1 + blocklen)\<rparr>;
          buf = (if cb_used buf \<le> cb_wrap buf - cb_start buf \<and>
                    cb_mtu buf > cb_size buf - (end' + 1 + blocklen) - 1
                 then buf\<lparr>cb_wrap := end' + 1 + blocklen\<rparr> else buf);
          buf = ChunkBuffer2_update_input buf
      in if cb_used buf = 1 + blocklen then ChunkBuffer2_update_output buf else buf)"

definition ChunkBuffer2_ConsumePacket :: "ChunkBuffer2 \<Rightarrow> ChunkBuffer2" where
  "ChunkBuffer2_ConsumePacket buf =
     (let blocklen = blocks_of (block_len (cb_mem buf) (cb_start buf));
          data_wrapped = (cb_used buf \<ge> cb_wrap buf - cb_start buf);
          buf = buf\<lparr>cb_start := cb_start buf + (1 + blocklen)\<rparr>;
          buf = buf\<lparr>cb_used := cb_used buf - (1 + blocklen)\<rparr>;
          buf = (if cb_start buf = cb_wrap buf
                 then buf\<lparr>cb_start := 0, cb_wrap := cb_size buf\<rparr> else buf);
          buf = (if data_wrapped then ChunkBuffer2_update_input buf else buf)
      in ChunkBuffer2_update_output buf)"

text \<open>
  What the neighbours do with the pointers the buffer hands out: the producer stores the
  bytes of a packet at \<open>cb_input_dest\<close>, the consumer reads \<open>cb_output_avail\<close> bytes at
  \<open>cb_output_dest\<close>.
\<close>

definition store_bytes :: "(int \<Rightarrow> u8) \<Rightarrow> int \<Rightarrow> bytes \<Rightarrow> (int \<Rightarrow> u8)" where
  "store_bytes m a d = (\<lambda>i. if a \<le> i \<and> i < a + int (length d) then d ! nat (i - a) else m i)"

definition load_bytes :: "(int \<Rightarrow> u8) \<Rightarrow> int \<Rightarrow> nat \<Rightarrow> bytes" where
  "load_bytes m a n = map (\<lambda>i. m (a + int i)) [0..<n]"



subsection \<open>Reading back what was stored\<close>

lemma block_len_set [simp]:
  assumes "0 \<le> len" "len \<le> INT_MAX"
  shows "block_len (set_block_len m b len) b = len"
proof -
  have "sint (word_of_int len :: u32) = len"
    using assms by (simp add: INT_MAX_def sint_sbintrunc' signed_take_bit_int_eq_self)
  then show ?thesis
    by (simp add: block_len_def set_block_len_def Let_def rd_be32_be32)
qed

lemma block_len_cong:
  "(\<And>i. 4 * b \<le> i \<Longrightarrow> i < 4 * b + 4 \<Longrightarrow> m' i = m i) \<Longrightarrow> block_len m' b = block_len m b"
  by (simp add: block_len_def)

lemma load_bytes_cong:
  "(\<And>i. a \<le> i \<Longrightarrow> i < a + int n \<Longrightarrow> m' i = m i) \<Longrightarrow> load_bytes m' a n = load_bytes m a n"
  by (simp add: load_bytes_def)

lemma set_block_len_frame: "i < 4 * b \<or> 4 * b + 4 \<le> i \<Longrightarrow> set_block_len m b len i = m i"
  by (auto simp: set_block_len_def Let_def)

lemma store_bytes_frame: "i < a \<or> a + int (length d) \<le> i \<Longrightarrow> store_bytes m a d i = m i"
  by (auto simp: store_bytes_def)

lemma load_store [simp]: "load_bytes (store_bytes m a d) a (length d) = d"
  by (rule nth_equalityI) (simp_all add: load_bytes_def store_bytes_def)

lemma length_load_bytes [simp]: "length (load_bytes m a n) = n"
  by (simp add: load_bytes_def)

lemma blocks_of_nonneg [simp]: "0 \<le> blocks_of len"
  by (simp add: blocks_of_def)

lemma blocks_of_enough: "0 \<le> len \<Longrightarrow> len \<le> 4 * blocks_of len"
  using bdivide_up_enough [of 4 "nat len"] by (simp add: blocks_of_def)

lemma blocks_of_le: "0 \<le> n \<Longrightarrow> len \<le> n * 4 \<Longrightarrow> blocks_of len \<le> n"
proof -
  assume n: "0 \<le> n" "len \<le> n * 4"
  then have "nat len \<le> nat n * 4" by linarith
  then have "bdivide_up (nat len) 4 \<le> nat n" by (intro bdivide_up_le) simp_all
  with n show ?thesis by (simp add: blocks_of_def)
qed

lemma blocks_of_mono: "a \<le> b \<Longrightarrow> blocks_of a \<le> blocks_of b"
  by (simp add: blocks_of_def bdivide_up_mono)

subsection \<open>Packets laid out in the array\<close>

definition packet_blocks :: "bytes \<Rightarrow> int" where
  "packet_blocks p = 1 + blocks_of (int (length p))"

lemma packet_blocks_pos [simp]: "0 < packet_blocks p" "1 \<le> packet_blocks p"
  using blocks_of_nonneg [of "int (length p)"] unfolding packet_blocks_def by linarith+

text \<open>
  \<open>lay m lim b ps e\<close>: the packets \<open>ps\<close> stand one behind the other in the blocks from
  \<open>b\<close> to \<open>e\<close>, each starting at a block not beyond \<open>lim\<close>.
\<close>

fun lay :: "(int \<Rightarrow> u8) \<Rightarrow> int \<Rightarrow> int \<Rightarrow> bytes list \<Rightarrow> int \<Rightarrow> bool" where
  "lay m lim b [] e \<longleftrightarrow> b = e"
| "lay m lim b (p # ps) e \<longleftrightarrow> b \<le> lim \<and> block_len m b = int (length p) \<and>
     load_bytes m (4 * (b + 1)) (length p) = p \<and> lay m lim (b + packet_blocks p) ps e"

lemma lay_append: "lay m lim b (ps @ qs) e \<longleftrightarrow> (\<exists>c. lay m lim b ps c \<and> lay m lim c qs e)"
  by (induction ps arbitrary: b) auto

lemma lay_le: "lay m lim b ps e \<Longrightarrow> b \<le> e"
proof (induction ps arbitrary: b)
  case (Cons p ps)
  then have "b + packet_blocks p \<le> e" by simp
  with packet_blocks_pos [of p] show ?case by linarith
qed simp

lemma lay_sum: "lay m lim b ps e \<Longrightarrow> e = b + sum_list (map packet_blocks ps)"
  by (induction ps arbitrary: b) (fastforce simp: algebra_simps)+

lemma lay_cong:
  "lay m lim b ps e \<Longrightarrow> (\<And>i. 4 * b \<le> i \<Longrightarrow> i < 4 * e \<Longrightarrow> m' i = m i) \<Longrightarrow> lay m' lim b ps e"
proof (induction ps arbitrary: b)
  case (Cons p ps)
  let ?c = "b + packet_blocks p"
  have rest: "lay m lim ?c ps e" using Cons.prems(1) by simp
  have c: "?c \<le> e" using lay_le [OF rest] .
  have room: "4 * (b + 1) + int (length p) \<le> 4 * ?c"
    using blocks_of_enough [of "int (length p)"] by (simp add: packet_blocks_def)
  have eq: "m' i = m i" if "4 * b \<le> i" "i < 4 * ?c" for i
  proof (rule Cons.prems(2) [OF that(1)])
    have "4 * ?c \<le> 4 * e" using c by simp
    with that(2) show "i < 4 * e" by (rule less_le_trans)
  qed
  have "block_len m' b = block_len m b"
    by (rule block_len_cong, rule eq) (use room in auto)
  moreover have "load_bytes m' (4 * (b + 1)) (length p) = load_bytes m (4 * (b + 1)) (length p)"
    by (rule load_bytes_cong, rule eq) (use room in auto)
  moreover have "lay m' lim ?c ps e"
    using Cons.IH [OF rest] Cons.prems(2) packet_blocks_pos(1) [of p] by simp
  ultimately show ?case using Cons.prems(1) by simp
qed simp

text \<open>Appending a packet at the end of a stretch, as the producer and SubmitPacket do.\<close>

lemma lay_snoc:
  assumes "lay m lim b ps e" "e \<le> lim" "int (length d) \<le> INT_MAX"
  shows "lay (set_block_len (store_bytes m (4 * (e + 1)) d) e (int (length d))) lim b (ps @ [d])
    (e + packet_blocks d)"
proof -
  let ?m1 = "store_bytes m (4 * (e + 1)) d"
  let ?m = "set_block_len ?m1 e (int (length d))"
  have "lay ?m lim b ps e"
    by (rule lay_cong [OF assms(1)]) (simp add: set_block_len_frame store_bytes_frame)
  moreover have "load_bytes ?m (4 * (e + 1)) (length d) = load_bytes ?m1 (4 * (e + 1)) (length d)"
    by (rule load_bytes_cong) (simp add: set_block_len_frame)
  ultimately show ?thesis using assms(2,3) by (auto simp: lay_append)
qed

text \<open>A stretch that the new packet does not touch.\<close>

lemma lay_snoc_frame:
  assumes "lay m lim b ps e'" "e + packet_blocks d \<le> b"
  shows "lay (set_block_len (store_bytes m (4 * (e + 1)) d) e (int (length d))) lim b ps e'"
proof (rule lay_cong [OF assms(1)])
  fix i assume "4 * b \<le> i"
  then show "set_block_len (store_bytes m (4 * (e + 1)) d) e (int (length d)) i = m i"
    using assms(2) blocks_of_enough [of "int (length d)"]
    by (simp add: set_block_len_frame store_bytes_frame packet_blocks_def)
qed

subsection \<open>The invariant of the buffer\<close>

text \<open>
  \<open>cb_inv buf ps\<close>: the buffer holds the packets \<open>ps\<close>, oldest first. Where the data
  wraps, they are split at the wrap point. The two bounds by \<open>size - mtu - 1\<close> say that a
  packet of maximal length always fits behind the place where the next packet starts, which
  is what keeps the buffer from getting stuck.
\<close>

definition cb_lim :: "ChunkBuffer2 \<Rightarrow> int" where
  "cb_lim buf = cb_size buf - cb_mtu buf - 1"

definition cb_wrapped :: "ChunkBuffer2 \<Rightarrow> bool" where
  "cb_wrapped buf \<longleftrightarrow> cb_used buf \<ge> cb_wrap buf - cb_start buf"

definition cb_inv :: "ChunkBuffer2 \<Rightarrow> bytes list \<Rightarrow> bool" where
  "cb_inv buf ps \<longleftrightarrow> ChunkBuffer2_assert_buffer buf \<and> 4 * cb_size buf \<le> INT_MAX \<and>
     cb_size buf \<le> cb_wrap buf + cb_mtu buf \<and>
     cb_start buf \<le> cb_lim buf \<and> ChunkBuffer2_end buf \<le> cb_lim buf \<and>
     (if cb_wrapped buf
      then ChunkBuffer2_end buf \<le> cb_start buf \<and>
        (\<exists>ps1 ps2. ps = ps1 @ ps2 \<and> lay (cb_mem buf) (cb_lim buf) (cb_start buf) ps1 (cb_wrap buf)
           \<and> lay (cb_mem buf) (cb_lim buf) 0 ps2 (ChunkBuffer2_end buf))
      else lay (cb_mem buf) (cb_lim buf) (cb_start buf) ps (ChunkBuffer2_end buf))"

definition input_ok :: "ChunkBuffer2 \<Rightarrow> bool" where
  "input_ok buf \<longleftrightarrow> (if cb_size buf - ChunkBuffer2_end buf - 1 < cb_mtu buf
      then cb_input_dest buf = None \<and> cb_input_avail buf = -1
      else if free_blocks buf > 0
      then cb_input_dest buf = Some (4 * (ChunkBuffer2_end buf + 1)) \<and>
        cb_input_avail buf = (free_blocks buf - 1) * 4
      else cb_input_dest buf = None \<and> cb_input_avail buf = -1)"

definition output_ok :: "ChunkBuffer2 \<Rightarrow> bytes list \<Rightarrow> bool" where
  "output_ok buf ps \<longleftrightarrow> (case ps of
      [] \<Rightarrow> cb_output_dest buf = None \<and> cb_output_avail buf = -1
    | p # _ \<Rightarrow> cb_output_dest buf = Some (4 * (cb_start buf + 1)) \<and>
        cb_output_avail buf = int (length p) \<and>
        load_bytes (cb_mem buf) (4 * (cb_start buf + 1)) (length p) = p)"

definition cb_rep :: "ChunkBuffer2 \<Rightarrow> bytes list \<Rightarrow> bool" where
  "cb_rep buf ps \<longleftrightarrow> cb_inv buf ps \<and> input_ok buf \<and> output_ok buf ps"

lemma cb_fields_upd [simp]:
  "cb_inv (buf\<lparr>cb_input_dest := a, cb_input_avail := b\<rparr>) ps = cb_inv buf ps"
  "cb_inv (buf\<lparr>cb_output_dest := a, cb_output_avail := b\<rparr>) ps = cb_inv buf ps"
  "input_ok (buf\<lparr>cb_output_dest := a, cb_output_avail := b\<rparr>) = input_ok buf"
  "output_ok (buf\<lparr>cb_input_dest := a, cb_input_avail := b\<rparr>) ps = output_ok buf ps"
  by (simp_all add: cb_inv_def input_ok_def output_ok_def cb_lim_def cb_wrapped_def
      ChunkBuffer2_end_def ChunkBuffer2_assert_buffer_def free_blocks_def split: list.split)

lemma update_input_inv [simp]:
  "cb_inv (ChunkBuffer2_update_input buf) ps = cb_inv buf ps"
  "output_ok (ChunkBuffer2_update_input buf) ps = output_ok buf ps"
  by (simp_all add: ChunkBuffer2_update_input_def Let_def)

lemma update_output_inv [simp]:
  "cb_inv (ChunkBuffer2_update_output buf) ps = cb_inv buf ps"
  "input_ok (ChunkBuffer2_update_output buf) = input_ok buf"
  by (simp_all add: ChunkBuffer2_update_output_def Let_def)

lemma update_input_ok [simp]: "input_ok (ChunkBuffer2_update_input buf)"
  by (simp add: input_ok_def ChunkBuffer2_update_input_def Let_def free_blocks_def
      ChunkBuffer2_end_def)

lemma inv_used:
  assumes "cb_inv buf ps"
  shows "cb_used buf = sum_list (map packet_blocks ps)"
proof (cases "cb_wrapped buf")
  case True
  with assms obtain ps1 ps2 where ps: "ps = ps1 @ ps2"
    and l1: "lay (cb_mem buf) (cb_lim buf) (cb_start buf) ps1 (cb_wrap buf)"
    and l2: "lay (cb_mem buf) (cb_lim buf) 0 ps2 (ChunkBuffer2_end buf)"
    by (auto simp: cb_inv_def)
  have "ChunkBuffer2_end buf = cb_used buf - (cb_wrap buf - cb_start buf)"
    using True by (simp add: ChunkBuffer2_end_def cb_wrapped_def)
  with lay_sum [OF l1] lay_sum [OF l2] ps show ?thesis by simp
next
  case False
  then have "lay (cb_mem buf) (cb_lim buf) (cb_start buf) ps (ChunkBuffer2_end buf)"
    and "ChunkBuffer2_end buf = cb_start buf + cb_used buf"
    using assms by (simp_all add: cb_inv_def ChunkBuffer2_end_def cb_wrapped_def)
  with lay_sum show ?thesis by fastforce
qed

lemma packet_blocks_sum_pos: "0 \<le> sum_list (map packet_blocks ps)"
  by (induction ps) (use packet_blocks_pos in \<open>auto simp: add_nonneg_nonneg less_imp_le\<close>)

lemma inv_used_pos: "cb_inv buf ps \<Longrightarrow> cb_used buf > 0 \<longleftrightarrow> ps \<noteq> []"
  using inv_used [of buf ps] packet_blocks_sum_pos [of "tl ps"] packet_blocks_pos(1) [of "hd ps"]
  by (cases ps) (auto simp del: packet_blocks_pos intro: add_pos_nonneg)

lemma inv_first:
  assumes "cb_inv buf (p # qs)"
  shows "block_len (cb_mem buf) (cb_start buf) = int (length p)"
    and "load_bytes (cb_mem buf) (4 * (cb_start buf + 1)) (length p) = p"
    and "packet_blocks p \<le> cb_used buf"
    and "cb_start buf + packet_blocks p \<le> cb_wrap buf"
proof -
  have st: "cb_start buf < cb_wrap buf" "ChunkBuffer2_assert_buffer buf"
    using assms by (auto simp: cb_inv_def ChunkBuffer2_assert_buffer_def)
  have "\<exists>qs' e. lay (cb_mem buf) (cb_lim buf) (cb_start buf) (p # qs') e \<and> e \<le> cb_wrap buf"
  proof (cases "cb_wrapped buf")
    case True
    with assms obtain ps1 ps2 where ps: "p # qs = ps1 @ ps2"
      and l1: "lay (cb_mem buf) (cb_lim buf) (cb_start buf) ps1 (cb_wrap buf)"
      by (auto simp: cb_inv_def)
    with st obtain ps1' where "ps1 = p # ps1'" by (cases ps1) auto
    with l1 show ?thesis by auto
  next
    case False
    with assms st have "lay (cb_mem buf) (cb_lim buf) (cb_start buf) (p # qs) (ChunkBuffer2_end buf)"
      "ChunkBuffer2_end buf \<le> cb_wrap buf"
      by (auto simp: cb_inv_def cb_wrapped_def ChunkBuffer2_end_def)
    then show ?thesis by blast
  qed
  then obtain qs' e where l: "lay (cb_mem buf) (cb_lim buf) (cb_start buf) (p # qs') e"
    and e: "e \<le> cb_wrap buf" by blast
  from l show "block_len (cb_mem buf) (cb_start buf) = int (length p)"
    and "load_bytes (cb_mem buf) (4 * (cb_start buf + 1)) (length p) = p" by auto
  from l have "cb_start buf + packet_blocks p \<le> e" using lay_le by auto
  with e show "cb_start buf + packet_blocks p \<le> cb_wrap buf" by simp
  show "packet_blocks p \<le> cb_used buf"
    using inv_used [OF assms] packet_blocks_sum_pos [of qs] by simp
qed

lemma update_output_ok: "cb_inv buf ps \<Longrightarrow> output_ok (ChunkBuffer2_update_output buf) ps"
  using inv_used_pos [of buf ps]
  by (cases ps) (auto simp: output_ok_def ChunkBuffer2_update_output_def dest: inv_first(1,2))

text \<open>The assertions of the header file follow from the invariant.\<close>

lemma rep_assert:
  assumes "cb_rep buf ps"
  shows "ChunkBuffer2_assert_buffer buf" "ChunkBuffer2_assert_io buf"
proof -
  have inv: "cb_inv buf ps" and io: "input_ok buf" "output_ok buf ps"
    using assms by (auto simp: cb_rep_def)
  show "ChunkBuffer2_assert_buffer buf" using inv by (simp add: cb_inv_def)
  show "ChunkBuffer2_assert_io buf"
  proof (cases ps)
    case Nil
    with inv io inv_used_pos [OF inv] show ?thesis
      by (simp add: ChunkBuffer2_assert_io_def input_ok_def output_ok_def Let_def)
  next
    case (Cons p qs)
    with inv have "cb_inv buf (p # qs)" by simp
    note f = inv_first [OF this]
    have "0 < cb_used buf" using Cons inv_used_pos [OF inv] by simp
    with Cons io f show ?thesis
      by (simp add: ChunkBuffer2_assert_io_def input_ok_def output_ok_def Let_def packet_blocks_def)
  qed
qed

subsection \<open>The operations keep the invariant\<close>

lemma calc_blocks_bounds:
  assumes "0 \<le> mtu" "0 < num" "ChunkBuffer2_calc_blocks mtu num = blocks" "0 \<le> blocks"
  shows "blocks = (1 + blocks_of mtu) * (num + 1)" "blocks_of mtu + 1 < blocks"
proof -
  show b: "blocks = (1 + blocks_of mtu) * (num + 1)"
    using assms by (auto simp: ChunkBuffer2_calc_blocks_def Let_def split: if_splits)
  have "(1 + blocks_of mtu) * 2 \<le> (1 + blocks_of mtu) * (num + 1)"
    using assms(2) by (intro mult_left_mono) (simp_all add: add_nonneg_nonneg)
  moreover have "0 \<le> k \<Longrightarrow> k + 1 < (1 + k) * 2" for k :: int by simp
  from this [OF blocks_of_nonneg] have "blocks_of mtu + 1 < (1 + blocks_of mtu) * 2" .
  ultimately show "blocks_of mtu + 1 < blocks" unfolding b by (rule less_le_trans [rotated])
qed

lemma cb_rep_Init:
  assumes "blocks_of mtu + 1 \<le> blocks" "4 * blocks \<le> INT_MAX"
  shows "cb_rep (ChunkBuffer2_Init m blocks mtu) []"
proof -
  let ?b = "\<lparr>cb_mem = m, cb_size = blocks, cb_wrap = blocks, cb_start = 0, cb_used = 0,
     cb_mtu = blocks_of mtu, cb_input_dest = None, cb_input_avail = 0,
     cb_output_dest = None, cb_output_avail = 0\<rparr>"
  have "0 < blocks" using blocks_of_nonneg [of mtu] assms(1) by linarith
  then have "cb_inv ?b []"
    using assms by (simp add: cb_inv_def ChunkBuffer2_assert_buffer_def cb_lim_def cb_wrapped_def
        ChunkBuffer2_end_def)
  then show ?thesis
    by (simp add: cb_rep_def ChunkBuffer2_Init_def Let_def update_output_ok)
qed

text \<open>
  The producer's part of a submission. The bytes go where the buffer says, and nowhere else.
\<close>

definition cb_fill :: "ChunkBuffer2 \<Rightarrow> bytes \<Rightarrow> ChunkBuffer2" where
  "cb_fill buf d = (case cb_input_dest buf of
      None \<Rightarrow> buf | Some a \<Rightarrow> buf\<lparr>cb_mem := store_bytes (cb_mem buf) a d\<rparr>)"

lemma cb_fill_dest:
  assumes "cb_rep buf ps" "int (length d) \<le> cb_input_avail buf"
  shows "cb_fill buf d = buf\<lparr>cb_mem := store_bytes (cb_mem buf) (4 * (ChunkBuffer2_end buf + 1)) d\<rparr>"
    and "packet_blocks d \<le> free_blocks buf"
    and "int (length d) \<le> INT_MAX"
proof -
  have ok: "input_ok buf" and inv: "cb_inv buf ps" using assms(1) by (auto simp: cb_rep_def)
  have "0 \<le> cb_input_avail buf" using assms(2) by linarith
  with ok have a: "cb_input_dest buf = Some (4 * (ChunkBuffer2_end buf + 1))"
    "cb_input_avail buf = (free_blocks buf - 1) * 4" "free_blocks buf > 0"
    by (auto simp: input_ok_def split: if_splits)
  then show "cb_fill buf d =
      buf\<lparr>cb_mem := store_bytes (cb_mem buf) (4 * (ChunkBuffer2_end buf + 1)) d\<rparr>"
    by (simp add: cb_fill_def)
  show "packet_blocks d \<le> free_blocks buf"
    using blocks_of_le [of "free_blocks buf - 1" "int (length d)"] a assms(2)
    by (simp add: packet_blocks_def)
  have "free_blocks buf \<le> cb_size buf" "4 * cb_size buf \<le> INT_MAX"
    using inv by (auto simp: cb_inv_def free_blocks_def ChunkBuffer2_assert_buffer_def
        ChunkBuffer2_end_def)
  with a(2) assms(2) show "int (length d) \<le> INT_MAX" by (simp add: algebra_simps)
qed

lemma submit_fields:
  fixes buf d
  defines "e \<equiv> ChunkBuffer2_end buf"
  defines "s \<equiv> ChunkBuffer2_SubmitPacket
      (buf\<lparr>cb_mem := store_bytes (cb_mem buf) (4 * (e + 1)) d\<rparr>) (int (length d))"
  defines "u \<equiv> cb_used buf + packet_blocks d"
  defines "w \<equiv> (if u \<le> cb_wrap buf - cb_start buf \<and> e + packet_blocks d > cb_lim buf
      then e + packet_blocks d else cb_wrap buf)"
  defines "b \<equiv> buf\<lparr>cb_mem := set_block_len (store_bytes (cb_mem buf) (4 * (e + 1)) d) e (int (length d)),
      cb_used := u, cb_wrap := w\<rparr>"
  shows "s = (if u = packet_blocks d then ChunkBuffer2_update_output (ChunkBuffer2_update_input b)
      else ChunkBuffer2_update_input b)"
proof -
  have used: "cb_used (ChunkBuffer2_update_input x) = cb_used x" for x
    by (simp add: ChunkBuffer2_update_input_def Let_def)
  show ?thesis
    unfolding s_def ChunkBuffer2_SubmitPacket_def Let_def
    by (auto simp: b_def w_def u_def e_def used packet_blocks_def ChunkBuffer2_end_def cb_lim_def
        add.assoc intro!: arg_cong [where f = ChunkBuffer2_update_input])
qed

lemma cb_inv_submit:
  assumes rep: "cb_rep buf ps" and len: "int (length d) \<le> cb_input_avail buf"
  defines "e \<equiv> ChunkBuffer2_end buf"
  defines "u \<equiv> cb_used buf + packet_blocks d"
  defines "w \<equiv> (if u \<le> cb_wrap buf - cb_start buf \<and> e + packet_blocks d > cb_lim buf
      then e + packet_blocks d else cb_wrap buf)"
  defines "b \<equiv> buf\<lparr>cb_mem := set_block_len (store_bytes (cb_mem buf) (4 * (e + 1)) d) e (int (length d)),
      cb_used := u, cb_wrap := w\<rparr>"
  shows "cb_inv b (ps @ [d])"
proof -
  have inv: "cb_inv buf ps" using rep by (simp add: cb_rep_def)
  note room = cb_fill_dest(2,3) [OF rep len]
  note pos = packet_blocks_pos(1) [of d]
  have ab: "ChunkBuffer2_assert_buffer buf" "4 * cb_size buf \<le> INT_MAX"
    "cb_size buf \<le> cb_wrap buf + cb_mtu buf" "cb_start buf \<le> cb_lim buf" "e \<le> cb_lim buf"
    using inv by (simp_all add: cb_inv_def e_def)
  let ?m = "set_block_len (store_bytes (cb_mem buf) (4 * (e + 1)) d) e (int (length d))"
  have lim: "cb_lim b = cb_lim buf" by (simp add: b_def cb_lim_def)
  show ?thesis
  proof (cases "cb_wrapped buf")
    case True
    then have u: "u > cb_wrap buf - cb_start buf" and w: "w = cb_wrap buf"
      using pos by (auto simp: u_def w_def cb_wrapped_def simp del: packet_blocks_pos)
    have e: "e = cb_used buf - (cb_wrap buf - cb_start buf)" "e + packet_blocks d \<le> cb_start buf"
      using True room by (auto simp: e_def ChunkBuffer2_end_def cb_wrapped_def free_blocks_def)
    have eb: "ChunkBuffer2_end b = e + packet_blocks d" "cb_wrapped b"
      using u w e(1) by (auto simp: ChunkBuffer2_end_def b_def u_def cb_wrapped_def)
    obtain ps1 ps2 where ps: "ps = ps1 @ ps2"
      "lay (cb_mem buf) (cb_lim buf) (cb_start buf) ps1 (cb_wrap buf)"
      "lay (cb_mem buf) (cb_lim buf) 0 ps2 e"
      using True inv by (auto simp: cb_inv_def e_def)
    have "lay ?m (cb_lim buf) (cb_start buf) ps1 (cb_wrap buf)"
      using lay_snoc_frame [OF ps(2) e(2)] .
    moreover have "lay ?m (cb_lim buf) 0 (ps2 @ [d]) (e + packet_blocks d)"
      using lay_snoc [OF ps(3) ab(5) room(2)] .
    ultimately have "\<exists>qs1 qs2. ps @ [d] = qs1 @ qs2 \<and> lay (cb_mem b) (cb_lim b) (cb_start b) qs1 (cb_wrap b)
        \<and> lay (cb_mem b) (cb_lim b) 0 qs2 (ChunkBuffer2_end b)"
      using ps(1) w eb(1) lim
      by (intro exI [of _ ps1] exI [of _ "ps2 @ [d]"]) (simp add: b_def)
    then show ?thesis
      using ab e eb u w lim pos
      unfolding cb_inv_def by (auto simp: b_def ChunkBuffer2_assert_buffer_def u_def)
  next
    case False
    then have e: "e = cb_start buf + cb_used buf" and wsz: "cb_wrap buf = cb_size buf"
      using ab(1) by (auto simp: e_def ChunkBuffer2_end_def cb_wrapped_def ChunkBuffer2_assert_buffer_def)
    have fit: "e + packet_blocks d \<le> cb_size buf"
      using room False by (simp add: free_blocks_def e_def cb_wrapped_def)
    have le: "lay ?m (cb_lim buf) (cb_start buf) (ps @ [d]) (e + packet_blocks d)"
      using lay_snoc [OF _ ab(5) room(2)] False inv by (simp add: cb_inv_def e_def)
    have st: "0 \<le> cb_start buf" "0 \<le> cb_used buf" "0 \<le> cb_mtu buf" "0 < cb_size buf"
      using ab(1) by (auto simp: ChunkBuffer2_assert_buffer_def)
    show ?thesis
    proof (cases "e + packet_blocks d > cb_lim buf")
      case True
      then have w: "w = e + packet_blocks d" using fit e wsz by (simp add: w_def u_def)
      have eb: "ChunkBuffer2_end b = 0" "cb_wrapped b"
        using w e by (auto simp: ChunkBuffer2_end_def b_def u_def cb_wrapped_def)
      have "\<exists>qs1 qs2. ps @ [d] = qs1 @ qs2 \<and> lay (cb_mem b) (cb_lim b) (cb_start b) qs1 (cb_wrap b)
          \<and> lay (cb_mem b) (cb_lim b) 0 qs2 (ChunkBuffer2_end b)"
        using le w eb(1) lim
        by (intro exI [of _ "ps @ [d]"] exI [of _ "[]"]) (simp add: b_def)
      then show ?thesis
        using ab e eb w lim pos st fit True
        unfolding cb_inv_def by (auto simp: b_def ChunkBuffer2_assert_buffer_def u_def cb_lim_def)
    next
      case far: False
      then have w: "w = cb_wrap buf" by (simp add: w_def)
      have "e + packet_blocks d < cb_size buf" using far st by (simp add: cb_lim_def)
      then have eb: "ChunkBuffer2_end b = e + packet_blocks d" "\<not> cb_wrapped b"
        using w e wsz by (auto simp: ChunkBuffer2_end_def b_def u_def cb_wrapped_def)
      then show ?thesis
        using ab e w lim pos st fit far le wsz
        unfolding cb_inv_def
        by (auto simp: b_def ChunkBuffer2_assert_buffer_def u_def cb_lim_def
            simp del: packet_blocks_pos)
    qed
  qed
qed

lemma cb_rep_Submit:
  assumes rep: "cb_rep buf ps" and len: "int (length d) \<le> cb_input_avail buf"
  shows "cb_rep (ChunkBuffer2_SubmitPacket (cb_fill buf d) (int (length d))) (ps @ [d])"
proof -
  define e where "e = ChunkBuffer2_end buf"
  define u where "u = cb_used buf + packet_blocks d"
  define w where "w = (if u \<le> cb_wrap buf - cb_start buf \<and> e + packet_blocks d > cb_lim buf
      then e + packet_blocks d else cb_wrap buf)"
  define b where "b = buf\<lparr>cb_mem := set_block_len (store_bytes (cb_mem buf) (4 * (e + 1)) d) e (int (length d)),
      cb_used := u, cb_wrap := w\<rparr>"
  have inv: "cb_inv b (ps @ [d])"
    unfolding b_def w_def u_def e_def by (rule cb_inv_submit [OF rep len])
  have s: "ChunkBuffer2_SubmitPacket (cb_fill buf d) (int (length d)) =
      (if u = packet_blocks d then ChunkBuffer2_update_output (ChunkBuffer2_update_input b)
       else ChunkBuffer2_update_input b)"
    unfolding b_def w_def u_def e_def cb_fill_dest(1) [OF rep len] by (rule submit_fields)
  show ?thesis
  proof (cases "ps = []")
    case True
    then have "cb_used buf = 0" using rep inv_used by (fastforce simp: cb_rep_def)
    then have "u = packet_blocks d" by (simp add: u_def)
    with s inv show ?thesis by (simp add: cb_rep_def update_output_ok)
  next
    case False
    then have "u \<noteq> packet_blocks d"
      using rep inv_used_pos by (fastforce simp: cb_rep_def u_def)
    moreover have "output_ok b (ps @ [d])"
      using False rep inv inv_first(2) [of b "hd ps" "tl ps @ [d]"]
      by (cases ps) (simp_all add: output_ok_def cb_rep_def b_def)
    ultimately show ?thesis using s inv by (simp add: cb_rep_def)
  qed
qed

lemma consume_fields:
  fixes buf p
  defines "st \<equiv> cb_start buf + packet_blocks p"
  defines "u \<equiv> cb_used buf - packet_blocks p"
  defines "b \<equiv> (if st = cb_wrap buf then buf\<lparr>cb_used := u, cb_start := 0, cb_wrap := cb_size buf\<rparr>
      else buf\<lparr>cb_start := st, cb_used := u\<rparr>)"
  assumes "block_len (cb_mem buf) (cb_start buf) = int (length p)"
  shows "ChunkBuffer2_ConsumePacket buf =
    ChunkBuffer2_update_output (if cb_wrapped buf then ChunkBuffer2_update_input b else b)"
  using assms
  by (simp add: ChunkBuffer2_ConsumePacket_def Let_def packet_blocks_def add.assoc cb_wrapped_def)

lemma cb_inv_consume:
  assumes inv: "cb_inv buf (p # ps)"
  defines "st \<equiv> cb_start buf + packet_blocks p"
  defines "u \<equiv> cb_used buf - packet_blocks p"
  defines "b \<equiv> (if st = cb_wrap buf then buf\<lparr>cb_used := u, cb_start := 0, cb_wrap := cb_size buf\<rparr>
      else buf\<lparr>cb_start := st, cb_used := u\<rparr>)"
  shows "cb_inv b ps"
proof -
  note f = inv_first [OF inv]
  note pos = packet_blocks_pos(1) [of p]
  have ab: "ChunkBuffer2_assert_buffer buf" "4 * cb_size buf \<le> INT_MAX"
    "cb_size buf \<le> cb_wrap buf + cb_mtu buf" "cb_start buf \<le> cb_lim buf"
    "ChunkBuffer2_end buf \<le> cb_lim buf"
    using inv by (simp_all add: cb_inv_def)
  then have st: "0 \<le> cb_start buf" "0 \<le> cb_used buf" "0 \<le> cb_mtu buf" "0 < cb_size buf"
    "cb_wrap buf \<le> cb_size buf" "0 \<le> cb_lim buf"
    by (auto simp: ChunkBuffer2_assert_buffer_def)
  have lim: "cb_lim b = cb_lim buf" "cb_mem b = cb_mem buf" by (simp_all add: b_def cb_lim_def)
  show ?thesis
  proof (cases "cb_wrapped buf")
    case True
    then have e: "ChunkBuffer2_end buf = cb_used buf - (cb_wrap buf - cb_start buf)"
      by (simp add: ChunkBuffer2_end_def cb_wrapped_def)
    from True inv obtain ps1 ps2 where ps: "p # ps = ps1 @ ps2"
      and l1: "lay (cb_mem buf) (cb_lim buf) (cb_start buf) ps1 (cb_wrap buf)"
      and l2: "lay (cb_mem buf) (cb_lim buf) 0 ps2 (ChunkBuffer2_end buf)"
      and es: "ChunkBuffer2_end buf \<le> cb_start buf"
      by (auto simp: cb_inv_def)
    have "cb_start buf \<noteq> cb_wrap buf" using f(4) pos by linarith
    with l1 ps obtain qs where qs: "ps1 = p # qs" "ps = qs @ ps2" by (cases ps1) auto
    from l1 qs have l1': "lay (cb_mem buf) (cb_lim buf) st qs (cb_wrap buf)" by (simp add: st_def)
    show ?thesis
    proof (cases "st = cb_wrap buf")
      case fin: True
      have "qs = []" using lay_sum [OF l1'] packet_blocks_sum_pos [of "tl qs"] packet_blocks_pos(1) [of "hd qs"] fin
        by (cases qs) (simp_all del: packet_blocks_pos)
      have b: "ChunkBuffer2_end b = ChunkBuffer2_end buf" "\<not> cb_wrapped b"
        using fin e es ab st
        by (auto simp: b_def ChunkBuffer2_end_def cb_wrapped_def u_def st_def cb_lim_def)
      with \<open>qs = []\<close> qs l2 lim ab st fin e es f show ?thesis
        unfolding cb_inv_def
        by (auto simp: b_def ChunkBuffer2_assert_buffer_def u_def st_def)
    next
      case False
      have b: "ChunkBuffer2_end b = ChunkBuffer2_end buf" "cb_wrapped b" "cb_start b = st"
        using False True e by (auto simp: b_def ChunkBuffer2_end_def cb_wrapped_def u_def st_def)
      have "st \<le> cb_lim buf" using l1' False by (cases qs) auto
      with b qs l1' l2 lim ab st False e es f pos show ?thesis
        unfolding cb_inv_def
        by (auto simp: b_def ChunkBuffer2_assert_buffer_def u_def st_def simp del: packet_blocks_pos)
    qed
  next
    case False
    then have e: "ChunkBuffer2_end buf = cb_start buf + cb_used buf" "cb_wrap buf = cb_size buf"
      "cb_used buf < cb_wrap buf - cb_start buf"
      using ab(1) by (auto simp: ChunkBuffer2_end_def cb_wrapped_def ChunkBuffer2_assert_buffer_def)
    have ne: "st \<noteq> cb_wrap buf" using e(3) f(3) by (simp add: st_def)
    have l: "lay (cb_mem buf) (cb_lim buf) st ps (ChunkBuffer2_end buf)"
      using False inv by (simp add: cb_inv_def st_def)
    have b: "ChunkBuffer2_end b = ChunkBuffer2_end buf" "\<not> cb_wrapped b"
      using ne e by (auto simp: b_def ChunkBuffer2_end_def cb_wrapped_def u_def st_def)
    have "st \<le> cb_lim buf" using lay_le [OF l] ab(5) by simp
    with b l lim ab st e f ne pos show ?thesis
      unfolding cb_inv_def
      by (auto simp: b_def ChunkBuffer2_assert_buffer_def u_def st_def simp del: packet_blocks_pos)
  qed
qed

lemma cb_rep_Consume:
  assumes rep: "cb_rep buf (p # ps)"
  shows "cb_rep (ChunkBuffer2_ConsumePacket buf) ps"
proof -
  define st where "st = cb_start buf + packet_blocks p"
  define u where "u = cb_used buf - packet_blocks p"
  define b where "b = (if st = cb_wrap buf then buf\<lparr>cb_used := u, cb_start := 0, cb_wrap := cb_size buf\<rparr>
      else buf\<lparr>cb_start := st, cb_used := u\<rparr>)"
  have inv0: "cb_inv buf (p # ps)" and ok0: "input_ok buf" using rep by (auto simp: cb_rep_def)
  have inv: "cb_inv b ps"
    unfolding b_def u_def st_def by (rule cb_inv_consume [OF inv0])
  have s: "ChunkBuffer2_ConsumePacket buf =
    ChunkBuffer2_update_output (if cb_wrapped buf then ChunkBuffer2_update_input b else b)"
    unfolding b_def u_def st_def by (rule consume_fields [OF inv_first(1) [OF inv0]])
  have "input_ok (if cb_wrapped buf then ChunkBuffer2_update_input b else b)"
  proof (cases "cb_wrapped buf")
    case False
    note f = inv_first [OF inv0]
    have "st \<noteq> cb_wrap buf" using False f(3) by (simp add: cb_wrapped_def st_def)
    moreover have "\<not> cb_wrap buf - st \<le> u" using False by (simp add: cb_wrapped_def st_def u_def)
    ultimately show ?thesis
      using False ok0
      by (simp add: input_ok_def free_blocks_def ChunkBuffer2_end_def cb_wrapped_def b_def st_def u_def)
  qed simp
  moreover have "cb_inv (if cb_wrapped buf then ChunkBuffer2_update_input b else b) ps"
    using inv by simp
  ultimately show ?thesis unfolding s cb_rep_def by (simp add: update_output_ok)
qed

text \<open>What the consumer reads at the output pointer is the oldest packet.\<close>

lemma cb_rep_output:
  assumes "cb_rep buf ps"
  shows "cb_output_dest buf = None \<longleftrightarrow> ps = []"
    and "ps = p # qs \<Longrightarrow> cb_output_dest buf = Some a \<Longrightarrow>
      load_bytes (cb_mem buf) a (nat (cb_output_avail buf)) = p"
  using assms by (auto simp: cb_rep_def output_ok_def split: list.splits)

subsection \<open>Capacity\<close>

text \<open>
  A buffer sized by \<open>ChunkBuffer2_calc_blocks\<close> for \<open>num\<close> packets accepts a packet of
  maximal length whenever it holds fewer than \<open>num\<close> packets, at whatever place the data
  starts and wraps.
\<close>

lemma packet_blocks_sum_le:
  "(\<And>p. p \<in> set ps \<Longrightarrow> int (length p) \<le> mtu) \<Longrightarrow>
    sum_list (map packet_blocks ps) \<le> int (length ps) * (1 + blocks_of mtu)"
proof (induction ps)
  case (Cons p ps)
  have "packet_blocks p \<le> 1 + blocks_of mtu"
    using Cons.prems [of p] blocks_of_mono by (simp add: packet_blocks_def)
  then show ?case using Cons by (simp add: algebra_simps)
qed simp

lemma capacity:
  assumes rep: "cb_rep buf ps" and mtu: "0 \<le> mtu" "cb_mtu buf = blocks_of mtu"
    and size: "cb_size buf = (1 + blocks_of mtu) * (num + 1)"
    and small: "\<And>p. p \<in> set ps \<Longrightarrow> int (length p) \<le> mtu" and num: "int (length ps) < num"
  shows "mtu \<le> cb_input_avail buf" "cb_input_dest buf \<noteq> None"
proof -
  let ?k = "1 + blocks_of mtu"
  have k: "0 < ?k" using blocks_of_nonneg [of mtu] by linarith
  have inv: "cb_inv buf ps" and ok: "input_ok buf" using rep by (auto simp: cb_rep_def)
  have "cb_used buf \<le> int (length ps) * ?k"
    using inv_used [OF inv] packet_blocks_sum_le [OF small] by simp
  also have "\<dots> \<le> (num - 1) * ?k" using num k by (intro mult_right_mono) simp_all
  finally have used: "cb_used buf + 2 * ?k \<le> cb_size buf" by (simp add: size algebra_simps)
  have i: "cb_size buf \<le> cb_wrap buf + blocks_of mtu" "ChunkBuffer2_end buf + ?k \<le> cb_size buf"
    using inv mtu(2) by (auto simp: cb_inv_def cb_lim_def)
  have "?k \<le> free_blocks buf"
    using used i k by (auto simp: free_blocks_def ChunkBuffer2_end_def)
  moreover have "mtu \<le> 4 * blocks_of mtu" by (rule blocks_of_enough [OF mtu(1)])
  ultimately have "0 < free_blocks buf" "mtu \<le> (free_blocks buf - 1) * 4"
    using k by (linarith, simp add: algebra_simps)
  with ok i(2) mtu(2) show "mtu \<le> cb_input_avail buf" "cb_input_dest buf \<noteq> None"
    by (auto simp: input_ok_def)
qed



section \<open>PacketBuffer\<close>

text \<open>
  \<open>flow/PacketBuffer.c\<close>. The buffer calls its neighbours through a PacketRecvInterface
  and a PacketPassInterface; a call is recorded with its arguments, in call order.
\<close>

datatype flow_call = Receiver_Recv "int option" | Sender_Send "int option" int

record PacketBuffer =
  pb_buf :: ChunkBuffer2
  pb_input_mtu :: int

definition PacketBuffer_input_handler_done :: "PacketBuffer \<Rightarrow> int \<Rightarrow> PacketBuffer \<times> flow_call list" where
  "PacketBuffer_input_handler_done pb in_len =
     (let was_empty = (cb_output_avail (pb_buf pb) < 0);
          buf = ChunkBuffer2_SubmitPacket (pb_buf pb) in_len
      in (pb\<lparr>pb_buf := buf\<rparr>,
          (if cb_input_avail buf \<ge> pb_input_mtu pb then [Receiver_Recv (cb_input_dest buf)] else []) @
          (if was_empty then [Sender_Send (cb_output_dest buf) (cb_output_avail buf)] else [])))"

definition PacketBuffer_output_handler_done :: "PacketBuffer \<Rightarrow> PacketBuffer \<times> flow_call list" where
  "PacketBuffer_output_handler_done pb =
     (let was_full = (cb_input_avail (pb_buf pb) < pb_input_mtu pb);
          buf = ChunkBuffer2_ConsumePacket (pb_buf pb)
      in (pb\<lparr>pb_buf := buf\<rparr>,
          (if was_full \<and> cb_input_avail buf \<ge> pb_input_mtu pb
           then [Receiver_Recv (cb_input_dest buf)] else []) @
          (if cb_output_avail buf \<ge> 0
           then [Sender_Send (cb_output_dest buf) (cb_output_avail buf)] else [])))"

text \<open>\<open>alloc\<close> is BAllocArray: the fresh array, or nothing when there is no memory.\<close>

definition PacketBuffer_Init ::
  "(int \<Rightarrow> (int \<Rightarrow> u8) option) \<Rightarrow> int \<Rightarrow> int \<Rightarrow> (PacketBuffer \<times> flow_call list) option" where
  "PacketBuffer_Init alloc input_mtu num_packets =
     (let num_blocks = ChunkBuffer2_calc_blocks input_mtu num_packets in
      if num_blocks < 0 then None
      else case alloc num_blocks of
        None \<Rightarrow> None
      | Some buf_data \<Rightarrow>
          (let buf = ChunkBuffer2_Init buf_data num_blocks input_mtu
           in Some (\<lparr>pb_buf = buf, pb_input_mtu = input_mtu\<rparr>, [Receiver_Recv (cb_input_dest buf)])))"

subsection \<open>The buffer between its two neighbours\<close>

text \<open>
  The neighbours hold at most one operation each. \<open>Arrive d\<close>: the input stores the packet
  \<open>d\<close> at the destination of the outstanding receive and reports it done. \<open>Sent\<close>: the
  output has finished with the packet of the outstanding send. Without an outstanding
  operation there is nothing to finish. A call while the previous operation on that
  interface is outstanding is the failed assertion \<open>state == STATE_NONE\<close>, here \<open>None\<close>.
\<close>

record pb_env =
  pe_pb :: PacketBuffer
  pe_recv :: "int option option"
  pe_send :: "(int option \<times> int) option"
  pe_in :: "bytes list"
  pe_out :: "bytes list"

datatype pb_event = Arrive bytes | Sent

fun pb_calls :: "flow_call list \<Rightarrow> pb_env \<Rightarrow> pb_env option" where
  "pb_calls [] env = Some env"
| "pb_calls (Receiver_Recv a # cs) env =
     (if pe_recv env = None \<and> a \<noteq> None then pb_calls cs (env\<lparr>pe_recv := Some a\<rparr>) else None)"
| "pb_calls (Sender_Send a n # cs) env =
     (if pe_send env = None \<and> a \<noteq> None \<and> n \<ge> 0 \<and> n \<le> pb_input_mtu (pe_pb env)
      then pb_calls cs (env\<lparr>pe_send := Some (a, n)\<rparr>) else None)"

fun pb_step :: "pb_event \<Rightarrow> pb_env \<Rightarrow> pb_env option" where
  "pb_step (Arrive d) env =
     (case pe_recv env of
        Some (Some a) \<Rightarrow>
          if int (length d) \<le> pb_input_mtu (pe_pb env) then
            (let pb = pe_pb env;
                 pb = pb\<lparr>pb_buf := pb_buf pb\<lparr>cb_mem := store_bytes (cb_mem (pb_buf pb)) a d\<rparr>\<rparr>;
                 (pb, cs) = PacketBuffer_input_handler_done pb (int (length d))
             in pb_calls cs (env\<lparr>pe_pb := pb, pe_recv := None, pe_in := pe_in env @ [d]\<rparr>))
          else Some env
      | _ \<Rightarrow> Some env)"
| "pb_step Sent env =
     (case pe_send env of
        Some (Some a, n) \<Rightarrow>
          (let p = load_bytes (cb_mem (pb_buf (pe_pb env))) a (nat n);
               (pb, cs) = PacketBuffer_output_handler_done (pe_pb env)
           in pb_calls cs (env\<lparr>pe_pb := pb, pe_send := None, pe_out := pe_out env @ [p]\<rparr>))
      | _ \<Rightarrow> Some env)"

fun pb_run :: "pb_event list \<Rightarrow> pb_env \<Rightarrow> pb_env option" where
  "pb_run [] env = Some env"
| "pb_run (e # es) env = Option.bind (pb_step e env) (pb_run es)"

definition pb_start :: "PacketBuffer \<times> flow_call list \<Rightarrow> pb_env option" where
  "pb_start r = pb_calls (snd r) \<lparr>pe_pb = fst r, pe_recv = None, pe_send = None, pe_in = [], pe_out = []\<rparr>"

definition pb_ok :: "int \<Rightarrow> int \<Rightarrow> pb_env \<Rightarrow> bytes list \<Rightarrow> bool" where
  "pb_ok mtu num env q \<longleftrightarrow> (let buf = pb_buf (pe_pb env) in
     cb_rep buf q \<and> 0 \<le> mtu \<and> 0 < num \<and> pb_input_mtu (pe_pb env) = mtu \<and>
     cb_mtu buf = blocks_of mtu \<and> cb_size buf = (1 + blocks_of mtu) * (num + 1) \<and>
     (\<forall>p \<in> set q. int (length p) \<le> mtu) \<and>
     pe_in env = pe_out env @ q \<and>
     pe_recv env = (if mtu \<le> cb_input_avail buf then Some (cb_input_dest buf) else None) \<and>
     pe_send env = (if q = [] then None else Some (cb_output_dest buf, cb_output_avail buf)))"

lemma cb_rep_dest:
  "cb_rep buf q \<Longrightarrow> 0 \<le> cb_input_avail buf \<Longrightarrow> cb_input_dest buf = Some (4 * (ChunkBuffer2_end buf + 1))"
  by (auto simp: cb_rep_def input_ok_def split: if_splits)

lemma cb_rep_out:
  "cb_rep buf q \<Longrightarrow> cb_output_dest buf = (if q = [] then None else Some (4 * (cb_start buf + 1)))"
  "cb_rep buf q \<Longrightarrow> cb_output_avail buf = (if q = [] then -1 else int (length (hd q)))"
  by (auto simp: cb_rep_def output_ok_def split: list.splits)

lemma update_static [simp]:
  "cb_size (ChunkBuffer2_update_input b) = cb_size b" "cb_size (ChunkBuffer2_update_output b) = cb_size b"
  "cb_mtu (ChunkBuffer2_update_input b) = cb_mtu b" "cb_mtu (ChunkBuffer2_update_output b) = cb_mtu b"
  "cb_start (ChunkBuffer2_update_input b) = cb_start b" "cb_start (ChunkBuffer2_update_output b) = cb_start b"
  by (simp_all add: ChunkBuffer2_update_input_def ChunkBuffer2_update_output_def Let_def)

lemma submit_static [simp]:
  "cb_size (ChunkBuffer2_SubmitPacket b n) = cb_size b"
  "cb_mtu (ChunkBuffer2_SubmitPacket b n) = cb_mtu b"
  "cb_start (ChunkBuffer2_SubmitPacket b n) = cb_start b"
  by (simp_all add: ChunkBuffer2_SubmitPacket_def Let_def)

lemma consume_static [simp]:
  "cb_size (ChunkBuffer2_ConsumePacket b) = cb_size b"
  "cb_mtu (ChunkBuffer2_ConsumePacket b) = cb_mtu b"
  by (simp_all add: ChunkBuffer2_ConsumePacket_def Let_def)

lemma pb_calls_both:
  assumes "r \<Longrightarrow> pe_recv env = None \<and> x \<noteq> None"
    and "s \<Longrightarrow> pe_send env = None \<and> y \<noteq> None \<and> 0 \<le> n \<and> n \<le> pb_input_mtu (pe_pb env)"
  shows "pb_calls ((if r then [Receiver_Recv x] else []) @ (if s then [Sender_Send y n] else [])) env =
    Some (env\<lparr>pe_recv := if r then Some x else pe_recv env,
              pe_send := if s then Some (y, n) else pe_send env\<rparr>)"
  using assms by (cases r; cases s) simp_all

lemma pb_ok_Arrive:
  assumes ok: "pb_ok mtu num env q"
  shows "\<exists>env' q'. pb_step (Arrive d) env = Some env' \<and> pb_ok mtu num env' q'"
proof (cases "mtu \<le> cb_input_avail (pb_buf (pe_pb env)) \<and> int (length d) \<le> mtu")
  case False
  then have "pb_step (Arrive d) env = Some env"
    using ok by (auto simp: pb_ok_def Let_def split: option.split)
  with ok show ?thesis by blast
next
  case True
  define buf where "buf = pb_buf (pe_pb env)"
  define s where "s = ChunkBuffer2_SubmitPacket (cb_fill buf d) (int (length d))"
  have rep: "cb_rep buf q" and mtu: "0 \<le> mtu" "pb_input_mtu (pe_pb env) = mtu"
    and small: "q \<noteq> [] \<Longrightarrow> int (length (hd q)) \<le> mtu"
    and send: "pe_send env = (if q = [] then None else Some (cb_output_dest buf, cb_output_avail buf))"
    and recv: "pe_recv env = Some (cb_input_dest buf)"
    using ok True by (auto simp: pb_ok_def Let_def buf_def)
  have av: "int (length d) \<le> cb_input_avail buf" using True by (simp add: buf_def)
  obtain a where dest: "cb_input_dest buf = Some a"
    using cb_rep_dest [OF rep] av by simp
  have rep': "cb_rep s (q @ [d])" unfolding s_def by (rule cb_rep_Submit [OF rep av])
  have fill: "cb_fill buf d = buf\<lparr>cb_mem := store_bytes (cb_mem buf) a d\<rparr>"
    using dest by (simp add: cb_fill_def)
  have st: "cb_start s = cb_start buf" "cb_size s = cb_size buf" "cb_mtu s = cb_mtu buf"
    by (simp_all add: fill s_def)
  define env1 where "env1 = env\<lparr>pe_pb := (pe_pb env)\<lparr>pb_buf := s\<rparr>, pe_recv := None, pe_in := pe_in env @ [d]\<rparr>"
  have "pb_step (Arrive d) env = pb_calls
      ((if mtu \<le> cb_input_avail s then [Receiver_Recv (cb_input_dest s)] else []) @
       (if q = [] then [Sender_Send (cb_output_dest s) (cb_output_avail s)] else [])) env1"
    using True mtu cb_rep_out(2) [OF rep]
    by (simp add: recv dest PacketBuffer_input_handler_done_def Let_def env1_def
        buf_def [symmetric] fill [symmetric] s_def [symmetric] del: pb_calls.simps)
  also have "\<dots> = Some (env1\<lparr>pe_recv := if mtu \<le> cb_input_avail s then Some (cb_input_dest s) else pe_recv env1,
      pe_send := if q = [] then Some (cb_output_dest s, cb_output_avail s) else pe_send env1\<rparr>)"
    using cb_rep_dest [OF rep'] cb_rep_out [OF rep'] mtu True
    by (intro pb_calls_both) (simp_all add: env1_def send)
  finally have "pb_step (Arrive d) env = Some (env1\<lparr>pe_recv := if mtu \<le> cb_input_avail s then Some (cb_input_dest s) else None,
      pe_send := Some (cb_output_dest s, cb_output_avail s)\<rparr>)"
    using cb_rep_out [OF rep] cb_rep_out [OF rep'] st(1) by (simp add: env1_def send)
  moreover have "pb_ok mtu num (env1\<lparr>pe_recv := if mtu \<le> cb_input_avail s then Some (cb_input_dest s) else None,
      pe_send := Some (cb_output_dest s, cb_output_avail s)\<rparr>) (q @ [d])"
    using ok rep' st True by (simp add: pb_ok_def Let_def buf_def env1_def)
  ultimately show ?thesis by blast
qed

text \<open>Consuming a packet never takes away input space and never moves the input pointer.\<close>

lemma consume_input:
  assumes rep: "cb_rep buf (p # ps)" and av: "0 \<le> cb_input_avail buf"
  shows "cb_input_avail buf \<le> cb_input_avail (ChunkBuffer2_ConsumePacket buf)"
    "cb_input_dest (ChunkBuffer2_ConsumePacket buf) = cb_input_dest buf"
proof -
  have inv0: "cb_inv buf (p # ps)" and ok0: "input_ok buf" using rep by (auto simp: cb_rep_def)
  have rep': "cb_rep (ChunkBuffer2_ConsumePacket buf) ps" by (rule cb_rep_Consume [OF rep])
  then have ok1: "input_ok (ChunkBuffer2_ConsumePacket buf)" by (simp add: cb_rep_def)
  note f = inv_first [OF inv0]
  let ?c = "ChunkBuffer2_ConsumePacket buf"
  have c: "cb_start ?c = (if cb_start buf + packet_blocks p = cb_wrap buf then 0 else cb_start buf + packet_blocks p)"
    "cb_wrap ?c = (if cb_start buf + packet_blocks p = cb_wrap buf then cb_size buf else cb_wrap buf)"
    "cb_used ?c = cb_used buf - packet_blocks p"
    by (simp_all add: consume_fields [OF f(1)] ChunkBuffer2_update_input_def
        ChunkBuffer2_update_output_def Let_def)
  have s: "cb_wrap buf \<le> cb_size buf" "cb_used buf \<le> cb_wrap buf" "cb_start buf \<le> cb_lim buf" "0 \<le> cb_mtu buf"
    "ChunkBuffer2_end buf \<le> cb_lim buf" "0 \<le> cb_start buf"
    using inv0 by (auto simp: cb_inv_def ChunkBuffer2_assert_buffer_def)
  have e: "ChunkBuffer2_end ?c = ChunkBuffer2_end buf"
    using f(3,4) s c by (auto simp: ChunkBuffer2_end_def cb_lim_def)
  have fr: "free_blocks buf \<le> free_blocks ?c"
    using f(3,4) s c e packet_blocks_pos(1) [of p]
    by (auto simp: free_blocks_def simp del: packet_blocks_pos)
  show "cb_input_avail buf \<le> cb_input_avail ?c"
    using ok0 ok1 e fr av by (auto simp: input_ok_def split: if_splits)
  with av show "cb_input_dest ?c = cb_input_dest buf"
    using cb_rep_dest [OF rep av] cb_rep_dest [OF rep'] e by simp
qed

lemma pb_ok_Sent:
  assumes ok: "pb_ok mtu num env q"
  shows "\<exists>env' q'. pb_step Sent env = Some env' \<and> pb_ok mtu num env' q'"
proof (cases q)
  case Nil
  then have "pb_step Sent env = Some env" using ok by (simp add: pb_ok_def Let_def)
  with ok show ?thesis by blast
next
  case (Cons p ps)
  define buf where "buf = pb_buf (pe_pb env)"
  define c where "c = ChunkBuffer2_ConsumePacket buf"
  have rep: "cb_rep buf (p # ps)" and mtu: "0 \<le> mtu" "pb_input_mtu (pe_pb env) = mtu"
    and small: "\<forall>p \<in> set ps. int (length p) \<le> mtu"
    and send: "pe_send env = Some (cb_output_dest buf, cb_output_avail buf)"
    and recv: "pe_recv env = (if mtu \<le> cb_input_avail buf then Some (cb_input_dest buf) else None)"
    using ok Cons by (auto simp: pb_ok_def Let_def buf_def)
  obtain a where dest: "cb_output_dest buf = Some a" using cb_rep_out(1) [OF rep] by simp
  have p: "load_bytes (cb_mem buf) a (nat (cb_output_avail buf)) = p"
    using cb_rep_output(2) [OF rep _ dest] by simp
  have rep': "cb_rep c ps" unfolding c_def by (rule cb_rep_Consume [OF rep])
  have st: "cb_size c = cb_size buf" "cb_mtu c = cb_mtu buf" by (simp_all add: c_def)
  have keep: "mtu \<le> cb_input_avail buf \<Longrightarrow> mtu \<le> cb_input_avail c \<and> cb_input_dest c = cb_input_dest buf"
    using consume_input [OF rep] mtu unfolding c_def by linarith
  define env1 where "env1 = env\<lparr>pe_pb := (pe_pb env)\<lparr>pb_buf := c\<rparr>, pe_send := None, pe_out := pe_out env @ [p]\<rparr>"
  have "pb_step Sent env = pb_calls
      ((if cb_input_avail buf < mtu \<and> mtu \<le> cb_input_avail c then [Receiver_Recv (cb_input_dest c)] else []) @
       (if 0 \<le> cb_output_avail c then [Sender_Send (cb_output_dest c) (cb_output_avail c)] else [])) env1"
    using mtu by (simp add: send dest p PacketBuffer_output_handler_done_def Let_def env1_def
        buf_def [symmetric] c_def [symmetric] del: pb_calls.simps)
  also have "\<dots> = Some (env1\<lparr>pe_recv := if cb_input_avail buf < mtu \<and> mtu \<le> cb_input_avail c
        then Some (cb_input_dest c) else pe_recv env1,
      pe_send := if 0 \<le> cb_output_avail c then Some (cb_output_dest c, cb_output_avail c) else pe_send env1\<rparr>)"
    using cb_rep_dest [OF rep'] cb_rep_out [OF rep'] mtu small
    by (intro pb_calls_both) (auto simp: env1_def recv split: if_splits)
  finally have "pb_step Sent env = Some (env1\<lparr>
      pe_recv := if mtu \<le> cb_input_avail c then Some (cb_input_dest c) else None,
      pe_send := if ps = [] then None else Some (cb_output_dest c, cb_output_avail c)\<rparr>)"
    using cb_rep_out(2) [OF rep'] keep by (cases "mtu \<le> cb_input_avail buf") (auto simp: env1_def recv)
  moreover have "pb_ok mtu num (env1\<lparr>
      pe_recv := if mtu \<le> cb_input_avail c then Some (cb_input_dest c) else None,
      pe_send := if ps = [] then None else Some (cb_output_dest c, cb_output_avail c)\<rparr>) ps"
    using ok rep' st Cons by (simp add: pb_ok_def Let_def buf_def env1_def)
  ultimately show ?thesis by blast
qed

lemma pb_ok_run:
  "pb_ok mtu num env q \<Longrightarrow> \<exists>env' q'. pb_run evs env = Some env' \<and> pb_ok mtu num env' q'"
proof (induction evs arbitrary: env q)
  case (Cons e evs)
  obtain env1 q1 where "pb_step e env = Some env1" "pb_ok mtu num env1 q1"
    using pb_ok_Arrive [OF Cons.prems] pb_ok_Sent [OF Cons.prems] by (cases e) blast+
  with Cons.IH show ?case by simp
qed auto

lemma pb_ok_start:
  assumes "PacketBuffer_Init alloc mtu num = Some r" "0 \<le> mtu" "0 < num"
    and "4 * ChunkBuffer2_calc_blocks mtu num \<le> INT_MAX"
  shows "\<exists>env. pb_start r = Some env \<and> pb_ok mtu num env []"
proof -
  obtain bs m where bs: "ChunkBuffer2_calc_blocks mtu num = bs" "0 \<le> bs"
    and r: "r = (\<lparr>pb_buf = ChunkBuffer2_Init m bs mtu, pb_input_mtu = mtu\<rparr>,
      [Receiver_Recv (cb_input_dest (ChunkBuffer2_Init m bs mtu))])"
    using assms(1) by (auto simp: PacketBuffer_Init_def Let_def split: if_splits option.splits)
  note b = calc_blocks_bounds [OF assms(2,3) bs]
  let ?i = "ChunkBuffer2_Init m bs mtu"
  have rep: "cb_rep ?i []" using cb_rep_Init b(2) assms(4) bs by simp
  have st: "cb_size ?i = bs" "cb_mtu ?i = blocks_of mtu" by (simp_all add: ChunkBuffer2_Init_def Let_def)
  note cap = capacity [OF rep assms(2) st(2) _ _, of num]
  show ?thesis using cap b(1) rep st assms by (auto simp: r pb_start_def pb_ok_def Let_def)
qed

text \<open>
  C2. A packet buffer set up for \<open>num\<close> packets is a lossless queue between its neighbours.
  Whatever sequence of arrivals and completions happens, no assertion of the interfaces
  fails (no call while an operation is outstanding, no missing buffer, no oversized
  packet); the packets delivered, followed by those still in the buffer, are exactly the
  packets received, byte for byte and in order; a send is outstanding whenever the
  buffer holds a packet; and a receive is outstanding whenever it holds fewer than \<open>num\<close>.
\<close>

theorem PacketBuffer_lossless_queue:
  assumes "PacketBuffer_Init alloc mtu num = Some r" "0 \<le> mtu" "0 < num"
    and "4 * ChunkBuffer2_calc_blocks mtu num \<le> INT_MAX"
  shows "\<exists>env q. Option.bind (pb_start r) (pb_run evs) = Some env \<and>
     pe_in env = pe_out env @ q \<and>
     (q \<noteq> [] \<longleftrightarrow> pe_send env \<noteq> None) \<and>
     (int (length q) < num \<longrightarrow> pe_recv env \<noteq> None)"
proof -
  obtain env0 where s: "pb_start r = Some env0" and "pb_ok mtu num env0 []"
    using pb_ok_start [OF assms] by blast
  then obtain env q where run: "pb_run evs env0 = Some env" and ok: "pb_ok mtu num env q"
    using pb_ok_run by blast
  have "int (length q) < num \<Longrightarrow> mtu \<le> cb_input_avail (pb_buf (pe_pb env))"
    by (rule capacity) (use ok in \<open>auto simp: pb_ok_def Let_def\<close>)
  with s run ok show ?thesis by (auto simp: pb_ok_def Let_def)
qed

theorem PacketBuffer_lossless_queue_witness:
  "\<exists>r env q. PacketBuffer_Init (\<lambda>n. Some (\<lambda>i. 0)) 1500 64 = Some r \<and>
     Option.bind (pb_start r) (pb_run [Arrive [1, 2, 3], Arrive [4], Sent]) = Some env \<and>
     pe_in env = pe_out env @ q"
proof -
  have b: "ChunkBuffer2_calc_blocks 1500 64 = 24440"
    by (simp add: ChunkBuffer2_calc_blocks_def blocks_of_def bdivide_up_def INT_MAX_def)
  then obtain r where r: "PacketBuffer_Init (\<lambda>n. Some (\<lambda>i. 0)) 1500 64 = Some r"
    by (simp add: PacketBuffer_Init_def Let_def)
  then show ?thesis
    using PacketBuffer_lossless_queue [OF r, of "[Arrive [1, 2, 3], Arrive [4], Sent]"] b
    by (auto simp: INT_MAX_def)
qed

end
