(* ===== verification/Badvpn_Flow.thy ===== *)
theory Badvpn_Flow
  imports Prelude
begin

text \<open>
  The four interfaces through which badvpn's flow components hand each other data:
  flow/PacketPassInterface, PacketRecvInterface, StreamPassInterface, StreamRecvInterface.
  A user starts an operation, the provider's handler is called from a job, the provider
  finishes the operation, the user's handler is called from another job.

  Each interface is a record of its C fields; a job field says whether the job is set in the
  job group, a handler field whether a handler is registered. An operation whose ASSERT
  fails returns \<open>None\<close>. The functions \<open>..._job_operation\<close>, \<open>..._job_done\<close> and
  \<open>..._job_requestcancel\<close> are the job handlers; they return the state and the arguments
  of the handler call they make. The locale \<open>cancel_iface\<close> states what such an interface
  promises, and shows that every history of it is a sequence of complete operation cycles.
\<close>

datatype iface_state = STATE_NONE | STATE_OPERATION_PENDING | STATE_BUSY | STATE_DONE_PENDING

section \<open>PacketPassInterface\<close>

record PacketPassInterface =
  ppi_mtu :: int
  ppi_handler_requestcancel :: bool
  ppi_handler_done :: bool
  ppi_job_operation :: bool
  ppi_job_operation_data :: "addr option"
  ppi_job_operation_len :: int
  ppi_job_requestcancel :: bool
  ppi_job_done :: bool
  ppi_state :: iface_state
  ppi_cancel_requested :: bool

definition PacketPassInterface_Init :: "PacketPassInterface \<Rightarrow> int \<Rightarrow> PacketPassInterface option" where
  "PacketPassInterface_Init i mtu =
     (if mtu \<ge> 0
      then Some (i\<lparr>ppi_mtu := mtu, ppi_handler_requestcancel := False, ppi_handler_done := False,
                 ppi_job_operation := False, ppi_job_requestcancel := False, ppi_job_done := False,
                 ppi_state := STATE_NONE\<rparr>)
      else None)"

definition PacketPassInterface_Free :: "PacketPassInterface \<Rightarrow> PacketPassInterface" where
  "PacketPassInterface_Free i =
     i\<lparr>ppi_job_done := False, ppi_job_requestcancel := False, ppi_job_operation := False\<rparr>"

definition PacketPassInterface_EnableCancel :: "PacketPassInterface \<Rightarrow> PacketPassInterface option" where
  "PacketPassInterface_EnableCancel i =
     (if \<not> ppi_handler_requestcancel i \<and> \<not> ppi_handler_done i
      then Some (i\<lparr>ppi_handler_requestcancel := True\<rparr>) else None)"

definition PacketPassInterface_Done :: "PacketPassInterface \<Rightarrow> PacketPassInterface option" where
  "PacketPassInterface_Done i =
     (if ppi_state i = STATE_BUSY
      then Some (i\<lparr>ppi_job_requestcancel := False, ppi_job_done := True,
                 ppi_state := STATE_DONE_PENDING\<rparr>)
      else None)"

definition PacketPassInterface_GetMTU :: "PacketPassInterface \<Rightarrow> int" where
  "PacketPassInterface_GetMTU i = ppi_mtu i"

definition PacketPassInterface_Sender_Init :: "PacketPassInterface \<Rightarrow> PacketPassInterface option" where
  "PacketPassInterface_Sender_Init i =
     (if \<not> ppi_handler_done i then Some (i\<lparr>ppi_handler_done := True\<rparr>) else None)"

definition PacketPassInterface_Sender_Send ::
  "addr option \<times> int \<Rightarrow> PacketPassInterface \<Rightarrow> PacketPassInterface option" where
  "PacketPassInterface_Sender_Send a i =
     (let (data, data_len) = a in
      if data_len \<ge> 0 \<and> data_len \<le> ppi_mtu i \<and> (\<not> data_len > 0 \<or> data \<noteq> None) \<and>
         ppi_state i = STATE_NONE \<and> ppi_handler_done i
      then Some (i\<lparr>ppi_job_operation_data := data, ppi_job_operation_len := data_len,
                 ppi_job_operation := True, ppi_state := STATE_OPERATION_PENDING,
                 ppi_cancel_requested := False\<rparr>)
      else None)"

definition PacketPassInterface_Sender_RequestCancel ::
  "PacketPassInterface \<Rightarrow> PacketPassInterface option" where
  "PacketPassInterface_Sender_RequestCancel i =
     (if ppi_state i \<noteq> STATE_NONE \<and> ppi_handler_requestcancel i then
        Some (if ppi_cancel_requested i then i
          else (let i = i\<lparr>ppi_cancel_requested := True\<rparr> in
            if ppi_state i = STATE_OPERATION_PENDING
            then i\<lparr>ppi_job_operation := False, ppi_job_done := True, ppi_state := STATE_DONE_PENDING\<rparr>
            else if ppi_state i = STATE_BUSY then i\<lparr>ppi_job_requestcancel := True\<rparr>
            else i))
      else None)"

definition PacketPassInterface_HasCancel :: "PacketPassInterface \<Rightarrow> bool" where
  "PacketPassInterface_HasCancel i = ppi_handler_requestcancel i"

definition PacketPassInterface_job_operation ::
  "PacketPassInterface \<Rightarrow> (PacketPassInterface \<times> (addr option \<times> int)) option" where
  "PacketPassInterface_job_operation i =
     (if ppi_state i = STATE_OPERATION_PENDING
      then Some (i\<lparr>ppi_state := STATE_BUSY\<rparr>, (ppi_job_operation_data i, ppi_job_operation_len i))
      else None)"

definition PacketPassInterface_job_requestcancel ::
  "PacketPassInterface \<Rightarrow> PacketPassInterface option" where
  "PacketPassInterface_job_requestcancel i =
     (if ppi_state i = STATE_BUSY \<and> ppi_cancel_requested i \<and> ppi_handler_requestcancel i
      then Some i else None)"

definition PacketPassInterface_job_done ::
  "PacketPassInterface \<Rightarrow> (PacketPassInterface \<times> unit) option" where
  "PacketPassInterface_job_done i =
     (if ppi_state i = STATE_DONE_PENDING then Some (i\<lparr>ppi_state := STATE_NONE\<rparr>, ()) else None)"

section \<open>PacketRecvInterface\<close>

record PacketRecvInterface =
  pri_mtu :: int
  pri_handler_done :: bool
  pri_job_operation :: bool
  pri_job_operation_data :: "addr option"
  pri_job_done :: bool
  pri_job_done_len :: int
  pri_state :: iface_state


definition PacketRecvInterface_Free :: "PacketRecvInterface \<Rightarrow> PacketRecvInterface" where
  "PacketRecvInterface_Free i = i\<lparr>pri_job_done := False, pri_job_operation := False\<rparr>"


definition PacketRecvInterface_GetMTU :: "PacketRecvInterface \<Rightarrow> int" where
  "PacketRecvInterface_GetMTU i = pri_mtu i"





section \<open>StreamPassInterface\<close>

record StreamPassInterface =
  spi_handler_done :: bool
  spi_job_operation :: bool
  spi_job_operation_data :: "addr option"
  spi_job_operation_len :: int
  spi_job_done :: bool
  spi_job_done_len :: int
  spi_state :: iface_state


definition StreamPassInterface_Free :: "StreamPassInterface \<Rightarrow> StreamPassInterface" where
  "StreamPassInterface_Free i = i\<lparr>spi_job_done := False, spi_job_operation := False\<rparr>"






section \<open>StreamRecvInterface\<close>

record StreamRecvInterface =
  sri_handler_done :: bool
  sri_job_operation :: bool
  sri_job_operation_data :: "addr option"
  sri_job_operation_len :: int
  sri_job_done :: bool
  sri_job_done_len :: int
  sri_state :: iface_state


definition StreamRecvInterface_Free :: "StreamRecvInterface \<Rightarrow> StreamRecvInterface" where
  "StreamRecvInterface_Free i = i\<lparr>sri_job_done := False, sri_job_operation := False\<rparr>"






section \<open>Operation cycles\<close>

text \<open>
  One history of an interface: what the user, the provider and the event loop do, and the
  calls that result. The event loop runs a job only while the job is set, and unsets it.
\<close>

datatype ('a, 'd) iface_event =
    EStart 'a | ERunOperation | EFinish 'd | ERunDone | ERequestCancel | ERunCancel

datatype ('a, 'd) iface_call = CStart 'a | COperation 'a | CCancel | CFinish 'd | CDone 'd

record ('s, 'a, 'd) iface_ops =
  op_start :: "'a \<Rightarrow> 's \<Rightarrow> 's option"
  op_run_operation :: "'s \<Rightarrow> ('s \<times> 'a) option"
  op_finish :: "'d \<Rightarrow> 's \<Rightarrow> 's option"
  op_run_done :: "'s \<Rightarrow> ('s \<times> 'd) option"
  op_request_cancel :: "'s \<Rightarrow> 's option"
  op_run_cancel :: "'s \<Rightarrow> 's option"

fun iface_step :: "('s, 'a, 'd) iface_ops \<Rightarrow> ('a, 'd) iface_event \<Rightarrow> 's \<Rightarrow>
    ('s \<times> ('a, 'd) iface_call list) option" where
  "iface_step ops (EStart a) s = map_option (\<lambda>s'. (s', [CStart a])) (op_start ops a s)"
| "iface_step ops ERunOperation s = map_option (\<lambda>(s', a). (s', [COperation a])) (op_run_operation ops s)"
| "iface_step ops (EFinish d) s = map_option (\<lambda>s'. (s', [CFinish d])) (op_finish ops d s)"
| "iface_step ops ERunDone s = map_option (\<lambda>(s', d). (s', [CDone d])) (op_run_done ops s)"
| "iface_step ops ERequestCancel s = map_option (\<lambda>s'. (s', [])) (op_request_cancel ops s)"
| "iface_step ops ERunCancel s = map_option (\<lambda>s'. (s', [CCancel])) (op_run_cancel ops s)"

fun iface_run :: "('s, 'a, 'd) iface_ops \<Rightarrow> ('a, 'd) iface_event list \<Rightarrow> 's \<Rightarrow>
    ('s \<times> ('a, 'd) iface_call list) option" where
  "iface_run ops [] s = Some (s, [])"
| "iface_run ops (e # es) s =
     (case iface_step ops e s of
        None \<Rightarrow> None
      | Some (s', cs) \<Rightarrow> map_option (\<lambda>(s'', cs'). (s'', cs @ cs')) (iface_run ops es s'))"

text \<open>
  A complete cycle: the operation with its arguments is passed to the provider, possibly
  followed by one cancel request, then the provider's result is passed to the user; or the
  operation is cancelled before the provider has seen it.
\<close>

definition is_cycle :: "('a, 'd) iface_call list \<Rightarrow> bool" where
  "is_cycle cs \<longleftrightarrow> (\<exists>a d. cs = [CStart a, COperation a, CFinish d, CDone d] \<or>
     cs = [CStart a, COperation a, CCancel, CFinish d, CDone d] \<or> cs = [CStart a, CDone d])"

definition cycles :: "('a, 'd) iface_call list \<Rightarrow> bool \<Rightarrow> bool" where
  "cycles tr idle \<longleftrightarrow> (\<exists>css rest r. tr = concat css @ rest \<and> (\<forall>c \<in> set css. is_cycle c) \<and>
     is_cycle (rest @ r) \<and> (rest = [] \<longleftrightarrow> idle))"

text \<open>The contract of an interface with cancellation.\<close>

locale cancel_iface =
  fixes ops :: "('s, 'a, 'd) iface_ops"
    and state :: "'s \<Rightarrow> iface_state"
    and oper :: "'s \<Rightarrow> 'a"
    and result :: "'s \<Rightarrow> 'd"
    and asked :: "'s \<Rightarrow> bool"
    and cancel_set :: "'s \<Rightarrow> bool"
  assumes start: "op_start ops a s = Some s' \<Longrightarrow>
      state s = STATE_NONE \<and> state s' = STATE_OPERATION_PENDING \<and> oper s' = a \<and>
      \<not> asked s' \<and> cancel_set s' = cancel_set s"
    and run_operation: "op_run_operation ops s = Some (s', a) \<Longrightarrow>
      state s = STATE_OPERATION_PENDING \<and> state s' = STATE_BUSY \<and> a = oper s \<and> oper s' = a \<and>
      asked s' = asked s \<and> cancel_set s' = cancel_set s"
    and finish: "op_finish ops d s = Some s' \<Longrightarrow>
      state s = STATE_BUSY \<and> state s' = STATE_DONE_PENDING \<and> result s' = d \<and> \<not> cancel_set s'"
    and run_done: "op_run_done ops s = Some (s', d) \<Longrightarrow>
      state s = STATE_DONE_PENDING \<and> state s' = STATE_NONE \<and> d = result s \<and>
      cancel_set s' = cancel_set s"
    and request_cancel: "op_request_cancel ops s = Some s' \<Longrightarrow>
      s' = s \<or> state s' = state s \<and> state s = STATE_DONE_PENDING \<and> cancel_set s' = cancel_set s \<and> result s' = result s \<or>
      \<not> asked s \<and> asked s' \<and>
        (state s = STATE_OPERATION_PENDING \<and> state s' = STATE_DONE_PENDING \<and> cancel_set s' = cancel_set s \<or>
         state s = STATE_BUSY \<and> state s' = STATE_BUSY \<and> cancel_set s')"
    and run_cancel: "op_run_cancel ops s = Some s' \<Longrightarrow>
      cancel_set s \<and> state s = STATE_BUSY \<and> state s' = STATE_BUSY \<and> \<not> cancel_set s' \<and>
      asked s' = asked s"
begin

text \<open>The part of the current cycle that has happened, by state.\<close>

definition part_ok :: "('a, 'd) iface_call list \<Rightarrow> 's \<Rightarrow> bool" where
  "part_ok rest s \<longleftrightarrow> (case state s of
      STATE_NONE \<Rightarrow> rest = [] \<and> \<not> cancel_set s
    | STATE_OPERATION_PENDING \<Rightarrow> rest = [CStart (oper s)] \<and> \<not> cancel_set s \<and> \<not> asked s
    | STATE_BUSY \<Rightarrow> (\<exists>a. rest = [CStart a, COperation a] \<and> (cancel_set s \<longrightarrow> asked s) \<or>
        rest = [CStart a, COperation a, CCancel] \<and> asked s \<and> \<not> cancel_set s)
    | STATE_DONE_PENDING \<Rightarrow> \<not> cancel_set s \<and>
        (\<exists>a. rest \<in> {[CStart a], [CStart a, COperation a, CFinish (result s)],
               [CStart a, COperation a, CCancel, CFinish (result s)]}))"

lemma part_step:
  assumes "part_ok rest s" "iface_step ops e s = Some (s', cs)"
  shows "part_ok (rest @ cs) s' \<or> is_cycle (rest @ cs) \<and> part_ok [] s'"
proof (cases e)
  case (EStart a)
  with assms obtain t where "op_start ops a s = Some t" "s' = t" "cs = [CStart a]" by auto
  with assms(1) start [of a s s'] show ?thesis by (auto simp: part_ok_def)
next
  case ERunOperation
  with assms obtain a where "op_run_operation ops s = Some (s', a)" "cs = [COperation a]" by auto
  with assms(1) run_operation [of s s' a] show ?thesis by (auto simp: part_ok_def)
next
  case (EFinish d)
  with assms have "op_finish ops d s = Some s'" "cs = [CFinish d]" by auto
  with assms(1) finish [of d s s'] show ?thesis by (auto simp: part_ok_def)
next
  case ERunDone
  with assms obtain d where "op_run_done ops s = Some (s', d)" "cs = [CDone d]" by auto
  with assms(1) run_done [of s s' d] show ?thesis by (auto simp: part_ok_def is_cycle_def)
next
  case ERequestCancel
  with assms have "op_request_cancel ops s = Some s'" "cs = []" by auto
  with assms(1) request_cancel [of s s'] show ?thesis by (auto simp: part_ok_def)
next
  case ERunCancel
  with assms have "op_run_cancel ops s = Some s'" "cs = [CCancel]" by auto
  with assms(1) run_cancel [of s s'] show ?thesis by (auto simp: part_ok_def)
qed

lemma part_run:
  assumes "part_ok rest s" "iface_run ops es s = Some (s', tr)"
  shows "\<exists>css rest'. rest @ tr = concat css @ rest' \<and> (\<forall>c \<in> set css. is_cycle c) \<and> part_ok rest' s'"
  using assms
proof (induction es arbitrary: s rest tr)
  case Nil
  then show ?case by (intro exI [of _ "[]"] exI [of _ rest]) simp
next
  case (Cons e es)
  then obtain s1 cs tr1 where st: "iface_step ops e s = Some (s1, cs)"
    and run: "iface_run ops es s1 = Some (s', tr1)" and tr: "tr = cs @ tr1"
    by (auto split: option.splits)
  from part_step [OF Cons.prems(1) st] show ?case
  proof
    assume "part_ok (rest @ cs) s1"
    from Cons.IH [OF this run] show ?thesis by (simp add: tr)
  next
    assume c: "is_cycle (rest @ cs) \<and> part_ok [] s1"
    with Cons.IH [OF _ run] obtain css rest' where
      "tr1 = concat css @ rest'" "\<forall>c \<in> set css. is_cycle c" "part_ok rest' s'" by fastforce
    with c show ?thesis by (intro exI [of _ "(rest @ cs) # css"] exI [of _ rest']) (simp add: tr)
  qed
qed

lemma part_completes:
  assumes "part_ok rest s"
  shows "\<exists>r. is_cycle (rest @ r)" "rest = [] \<longleftrightarrow> state s = STATE_NONE"
  using assms by (cases "state s"; fastforce simp: part_ok_def is_cycle_def)+

lemma run_cycles:
  assumes "state s = STATE_NONE" "\<not> cancel_set s" "iface_run ops es s = Some (s', tr)"
  shows "cycles tr (state s' = STATE_NONE)"
proof -
  have "part_ok [] s" using assms by (simp add: part_ok_def)
  from part_run [OF this assms(3)] part_completes show ?thesis
    unfolding cycles_def by fastforce
qed

end



subsection \<open>The interfaces keep the contract\<close>

definition ppi_ops :: "(PacketPassInterface, addr option \<times> int, unit) iface_ops" where
  "ppi_ops = \<lparr>op_start = PacketPassInterface_Sender_Send,
     op_run_operation = (\<lambda>i. if ppi_job_operation i
        then PacketPassInterface_job_operation (i\<lparr>ppi_job_operation := False\<rparr>) else None),
     op_finish = (\<lambda>_. PacketPassInterface_Done),
     op_run_done = (\<lambda>i. if ppi_job_done i
        then PacketPassInterface_job_done (i\<lparr>ppi_job_done := False\<rparr>) else None),
     op_request_cancel = PacketPassInterface_Sender_RequestCancel,
     op_run_cancel = (\<lambda>i. if ppi_job_requestcancel i
        then PacketPassInterface_job_requestcancel (i\<lparr>ppi_job_requestcancel := False\<rparr>) else None)\<rparr>"




lemma iface_state_last:
  "s \<noteq> STATE_NONE \<Longrightarrow> s \<noteq> STATE_OPERATION_PENDING \<Longrightarrow> s \<noteq> STATE_BUSY \<Longrightarrow> s = STATE_DONE_PENDING"
  by (cases s) simp_all

interpretation ppi: cancel_iface ppi_ops ppi_state
    "\<lambda>i. (ppi_job_operation_data i, ppi_job_operation_len i)" "\<lambda>_. ()"
    ppi_cancel_requested ppi_job_requestcancel
  by unfold_locales
    (auto simp: ppi_ops_def PacketPassInterface_Sender_Send_def PacketPassInterface_job_operation_def
      PacketPassInterface_Done_def PacketPassInterface_job_done_def
      PacketPassInterface_Sender_RequestCancel_def PacketPassInterface_job_requestcancel_def Let_def
      split: if_splits dest: iface_state_last)




text \<open>In PacketPassInterface the set jobs follow the state, so no job handler's ASSERT fails.\<close>

definition ppi_jobs_ok :: "PacketPassInterface \<Rightarrow> bool" where
  "ppi_jobs_ok i \<longleftrightarrow> ppi_job_operation i = (ppi_state i = STATE_OPERATION_PENDING) \<and>
     ppi_job_done i = (ppi_state i = STATE_DONE_PENDING) \<and>
     (ppi_job_requestcancel i \<longrightarrow> PacketPassInterface_job_requestcancel i \<noteq> None)"

lemma ppi_jobs_step:
  assumes "ppi_jobs_ok i" "iface_step ppi_ops e i = Some (i', cs)"
  shows "ppi_jobs_ok i'"
  using assms
  by (cases e)
    (auto simp: ppi_jobs_ok_def ppi_ops_def PacketPassInterface_Sender_Send_def
      PacketPassInterface_job_operation_def PacketPassInterface_Done_def
      PacketPassInterface_job_done_def PacketPassInterface_Sender_RequestCancel_def
      PacketPassInterface_job_requestcancel_def Let_def split: if_splits)

lemma ppi_jobs_run:
  "ppi_jobs_ok i \<Longrightarrow> iface_run ppi_ops es i = Some (i', tr) \<Longrightarrow> ppi_jobs_ok i'"
proof (induction es arbitrary: i tr)
  case (Cons e es)
  then show ?case using ppi_jobs_step by (fastforce split: option.splits)
qed simp

definition ppi_setup :: "PacketPassInterface \<Rightarrow> int \<Rightarrow> bool \<Rightarrow> PacketPassInterface option" where
  "ppi_setup i mtu cancel =
     Option.bind (PacketPassInterface_Init i mtu) (\<lambda>i.
     Option.bind (if cancel then PacketPassInterface_EnableCancel i else Some i)
       PacketPassInterface_Sender_Init)"

text \<open>
  C8. A PacketPassInterface, set up with or without cancellation, goes through complete
  cycles whatever its user and its provider do within the ASSERTs: every packet handed to
  Sender_Send reaches the provider with the same pointer and length, exactly once, unless
  it was cancelled before the provider saw it; the provider gets at most one cancel request
  for it, while it is busy; and the user's done handler is called exactly once for it,
  before the next send. The set jobs always match the state, so the handlers' own ASSERTs
  hold when they run.
\<close>

theorem PacketPassInterface_cycles:
  assumes "ppi_setup i0 mtu cancel = Some i" "iface_run ppi_ops es i = Some (i', tr)"
  shows "cycles tr (ppi_state i' = STATE_NONE) \<and> ppi_jobs_ok i'"
proof -
  have i: "ppi_state i = STATE_NONE" "\<not> ppi_job_requestcancel i" "ppi_jobs_ok i"
    using assms(1) by (auto simp: ppi_setup_def PacketPassInterface_Init_def ppi_jobs_ok_def
        PacketPassInterface_EnableCancel_def PacketPassInterface_Sender_Init_def
        bind_eq_Some_conv split: if_splits)
  with assms(2) show ?thesis using ppi.run_cycles ppi_jobs_run by simp
qed

theorem PacketPassInterface_cycles_witness:
  "\<exists>i i' tr. ppi_setup \<lparr>ppi_mtu = 0, ppi_handler_requestcancel = False, ppi_handler_done = False,
       ppi_job_operation = False, ppi_job_operation_data = None, ppi_job_operation_len = 0,
       ppi_job_requestcancel = False, ppi_job_done = False, ppi_state = STATE_NONE,
       ppi_cancel_requested = False\<rparr> 1500 True = Some i \<and>
     iface_run ppi_ops [EStart (Some 7, 20), ERunOperation, ERequestCancel, ERunCancel, EFinish (),
       ERunDone, EStart (Some 9, 5)] i = Some (i', tr) \<and>
     cycles tr False"
proof -
  let ?i0 = "\<lparr>ppi_mtu = 0, ppi_handler_requestcancel = False, ppi_handler_done = False,
       ppi_job_operation = False, ppi_job_operation_data = None, ppi_job_operation_len = 0,
       ppi_job_requestcancel = False, ppi_job_done = False, ppi_state = STATE_NONE,
       ppi_cancel_requested = False\<rparr>"
  let ?es = "[EStart (Some 7, 20), ERunOperation, ERequestCancel, ERunCancel, EFinish (),
       ERunDone, EStart (Some 9, 5)]"
  note defs = ppi_setup_def PacketPassInterface_Init_def PacketPassInterface_EnableCancel_def
    PacketPassInterface_Sender_Init_def ppi_ops_def PacketPassInterface_Sender_Send_def
    PacketPassInterface_job_operation_def PacketPassInterface_Done_def
    PacketPassInterface_job_done_def PacketPassInterface_Sender_RequestCancel_def
    PacketPassInterface_job_requestcancel_def Let_def
  obtain i where i: "ppi_setup ?i0 1500 True = Some i" by (simp add: defs)
  have "\<exists>i' tr. iface_run ppi_ops ?es i = Some (i', tr) \<and> ppi_state i' = STATE_OPERATION_PENDING"
    using i by (auto simp: defs)
  then obtain i' tr where r: "iface_run ppi_ops ?es i = Some (i', tr)"
    and s: "ppi_state i' = STATE_OPERATION_PENDING" by blast
  show ?thesis using PacketPassInterface_cycles [OF i r] i r s by auto
qed



end
