(* ===== verification/Badvpn_PacketProto.thy ===== *)
theory Badvpn_PacketProto
  imports Prelude "HOL-Library.Sublist"
begin

text \<open>
  PacketProto, the framing that carries packets over a byte stream: the encoder
  (flow/PacketProtoEncoder.c), the component that feeds packets into a stream
  (flow/PacketStreamSender.c) and the decoder (flow/PacketProtoDecoder.c), whose receive
  buffer is modelled with its contents, its start and its fill.

  The main results: however the stream is cut into pieces, and in whatever order
  completions arrive, the decoder violates no interface assertion and delivers exactly the
  frames of what it received; and what the encoder writes decodes to the packet.
\<close>

section \<open>Frames\<close>

definition PACKETPROTO_ENCLEN :: "nat \<Rightarrow> nat" where
  "PACKETPROTO_ENCLEN len = 2 + len"

definition PACKETPROTO_MAXPAYLOAD :: nat where
  "PACKETPROTO_MAXPAYLOAD = 65535"

text \<open>The specification: the frame of a packet, and the frames at the front of a byte sequence.\<close>

definition frame :: "bytes \<Rightarrow> bytes" where
  "frame p = le16 (of_nat (length p)) @ p"

definition hdr_len :: "bytes \<Rightarrow> nat" where
  "hdr_len bs = unat (rd_le16 (bs ! 0) (bs ! 1))"

function frames :: "nat \<Rightarrow> bytes \<Rightarrow> bytes list \<times> bytes \<times> bool" where
  "frames mtu bs =
     (if length bs < 2 then ([], bs, False)
      else if hdr_len bs > mtu then ([], bs, True)
      else if length bs - 2 < hdr_len bs then ([], bs, False)
      else (let (ps, r) = frames mtu (drop (2 + hdr_len bs) bs)
            in (take (hdr_len bs) (drop 2 bs) # ps, r)))"
  by auto
termination by (relation "measure (\<lambda>(_, bs). length bs)") auto

declare frames.simps [simp del]

section \<open>PacketProtoDecoder\<close>

record PacketProtoDecoder =
  ppd_output_mtu :: nat
  ppd_buf_size :: nat
  ppd_buf_start :: nat
  ppd_buf_used :: nat
  ppd_buf :: bytes

text \<open>The calls it makes; pointers are offsets into the buffer.\<close>

datatype ppd_call = PPD_Recv nat nat | PPD_Send nat nat | PPD_handler_error

definition ppd_process_data :: "PacketProtoDecoder \<Rightarrow> PacketProtoDecoder \<times> ppd_call list" where
  "ppd_process_data enc =
     (let data = ppd_buf_start enc; left = ppd_buf_used enc;
          break_ok = (let enc = (if ppd_buf_start enc + ppd_buf_used enc = ppd_buf_size enc
               then enc\<lparr>ppd_buf := take (ppd_buf_used enc) (drop (ppd_buf_start enc) (ppd_buf enc)) @
                                  drop (ppd_buf_used enc) (ppd_buf enc),
                        ppd_buf_start := 0\<rparr>
               else enc)
             in (enc, [PPD_Recv (ppd_buf_start enc + ppd_buf_used enc)
                         (ppd_buf_size enc - (ppd_buf_start enc + ppd_buf_used enc))]));
          break_error = (let enc = enc\<lparr>ppd_buf_start := 0, ppd_buf_used := 0\<rparr>
             in (enc, [PPD_Recv (ppd_buf_start enc + ppd_buf_used enc)
                         (ppd_buf_size enc - (ppd_buf_start enc + ppd_buf_used enc)),
                       PPD_handler_error]))
      in if left < 2 then break_ok
      else (let data_len = unat (rd_le16 (ppd_buf enc ! data) (ppd_buf enc ! (data + 1)));
                data = data + 2; left = left - 2
            in if data_len > ppd_output_mtu enc then break_error
            else if left < data_len then break_ok
            else (enc\<lparr>ppd_buf_start := ppd_buf_start enc + (2 + data_len),
                      ppd_buf_used := ppd_buf_used enc - (2 + data_len)\<rparr>,
                  [PPD_Send data data_len])))"

definition ppd_input_handler_done :: "PacketProtoDecoder \<Rightarrow> nat \<Rightarrow> PacketProtoDecoder \<times> ppd_call list" where
  "ppd_input_handler_done enc data_len =
     ppd_process_data (enc\<lparr>ppd_buf_used := ppd_buf_used enc + data_len\<rparr>)"

definition ppd_output_handler_done :: "PacketProtoDecoder \<Rightarrow> PacketProtoDecoder \<times> ppd_call list" where
  "ppd_output_handler_done enc = ppd_process_data enc"

text \<open>\<open>alloc\<close> is malloc: a block of the given length, or nothing.\<close>

definition PacketProtoDecoder_Init ::
  "(nat \<Rightarrow> bytes option) \<Rightarrow> nat \<Rightarrow> (PacketProtoDecoder \<times> ppd_call list) option" where
  "PacketProtoDecoder_Init alloc mtu =
     (let output_mtu = min mtu PACKETPROTO_MAXPAYLOAD;
          buf_size = PACKETPROTO_ENCLEN output_mtu
      in case alloc buf_size of
           None \<Rightarrow> None
         | Some buf \<Rightarrow> Some (\<lparr>ppd_output_mtu = output_mtu, ppd_buf_size = buf_size,
              ppd_buf_start = 0, ppd_buf_used = 0, ppd_buf = buf\<rparr>, [PPD_Recv 0 buf_size]))"

definition PacketProtoDecoder_Reset :: "PacketProtoDecoder \<Rightarrow> PacketProtoDecoder" where
  "PacketProtoDecoder_Reset enc =
     enc\<lparr>ppd_buf_start := ppd_buf_start enc + ppd_buf_used enc, ppd_buf_used := 0\<rparr>"

section \<open>PacketProtoEncoder\<close>

text \<open>
  The memory the packets live in is a function from addresses to bytes. The calls are a
  receive on the input, with its destination, and the completion of the output.
\<close>

datatype ppe_call = PPE_Recv nat | PPE_Done nat

record PacketProtoEncoder =
  ppe_input_mtu :: nat
  ppe_output_packet :: "nat option"

definition ppe_output_handler_recv ::
  "PacketProtoEncoder \<Rightarrow> nat \<Rightarrow> (PacketProtoEncoder \<times> ppe_call) option" where
  "ppe_output_handler_recv enc data =
     (if ppe_output_packet enc = None
      then Some (enc\<lparr>ppe_output_packet := Some data\<rparr>, PPE_Recv (data + 2))
      else None)"

definition ppe_input_handler_done ::
  "PacketProtoEncoder \<Rightarrow> (nat \<Rightarrow> u8) \<Rightarrow> nat \<Rightarrow> (PacketProtoEncoder \<times> (nat \<Rightarrow> u8) \<times> ppe_call) option" where
  "ppe_input_handler_done enc mem in_len =
     (case ppe_output_packet enc of
        None \<Rightarrow> None
      | Some a \<Rightarrow>
          (let len = le16 (of_nat in_len);
               mem = mem(a := len ! 0, a + 1 := len ! 1)
           in Some (enc\<lparr>ppe_output_packet := None\<rparr>, mem, PPE_Done (PACKETPROTO_ENCLEN in_len))))"

definition PacketProtoEncoder_Init :: "nat \<Rightarrow> PacketProtoEncoder option" where
  "PacketProtoEncoder_Init input_mtu =
     (if input_mtu \<le> PACKETPROTO_MAXPAYLOAD
      then Some \<lparr>ppe_input_mtu = input_mtu, ppe_output_packet = None\<rparr> else None)"

section \<open>PacketStreamSender\<close>

datatype pss_call = PSS_Send nat int | PSS_Done

record PacketStreamSender =
  pss_in_len :: int
  pss_in :: nat
  pss_in_used :: int

definition pss_send_data :: "PacketStreamSender \<Rightarrow> (PacketStreamSender \<times> pss_call) option" where
  "pss_send_data s =
     (if pss_in_len s \<ge> 0 then
        Some (if pss_in_used s < pss_in_len s
          then (s, PSS_Send (pss_in s + nat (pss_in_used s)) (pss_in_len s - pss_in_used s))
          else (s\<lparr>pss_in_len := -1\<rparr>, PSS_Done))
      else None)"

definition pss_input_handler_send ::
  "PacketStreamSender \<Rightarrow> nat \<Rightarrow> int \<Rightarrow> (PacketStreamSender \<times> pss_call) option" where
  "pss_input_handler_send s data data_len =
     (if pss_in_len s = -1 \<and> data_len \<ge> 0
      then pss_send_data (s\<lparr>pss_in_len := data_len, pss_in := data, pss_in_used := 0\<rparr>)
      else None)"

definition pss_output_handler_done ::
  "PacketStreamSender \<Rightarrow> int \<Rightarrow> (PacketStreamSender \<times> pss_call) option" where
  "pss_output_handler_done s data_len =
     (if pss_in_len s \<ge> 0 \<and> data_len > 0 \<and> data_len \<le> pss_in_len s - pss_in_used s
      then pss_send_data (s\<lparr>pss_in_used := pss_in_used s + data_len\<rparr>)
      else None)"

definition PacketStreamSender_Init :: "PacketStreamSender \<Rightarrow> PacketStreamSender" where
  "PacketStreamSender_Init s = s\<lparr>pss_in_len := -1\<rparr>"


section \<open>Frames of a byte sequence\<close>

lemma hdr_len_frame [simp]:
  assumes "length p \<le> PACKETPROTO_MAXPAYLOAD"
  shows "hdr_len (frame p @ w) = length p"
proof -
  have "unat (of_nat (length p) :: u16) = length p"
    using assms by (simp add: PACKETPROTO_MAXPAYLOAD_def unat_of_nat)
  then show ?thesis by (simp add: hdr_len_def frame_def le16_def rd_le16_le16)
qed

lemma length_frame [simp]: "length (frame p) = 2 + length p"
  by (simp add: frame_def)

lemma frame_drop [simp]: "drop 2 (frame p) = p" "drop (Suc (Suc (length p))) (frame p) = []"
  by (simp_all add: frame_def)

lemma frame_parts: "drop (2 + length p) (frame p @ w) = w" "take (length p) (drop 2 (frame p @ w)) = p"
  by (simp_all add: frame_def)

text \<open>A byte sequence that starts with a complete frame is that frame and the rest.\<close>

lemma hdr_len_less: "hdr_len bs < 65536"
  using unsigned_less [of "rd_le16 (bs ! 0) (bs ! 1)"] by (simp add: hdr_len_def)

lemma le16_rd [wire_simps]: "le16 (rd_le16 a b) = [a, b]"
  unfolding le16_def rd_le16_def
  by (simp, intro conjI; rule bit_word_eqI; auto simp: bit_simps dest: bit_imp_le_length)

lemma frame_split:
  assumes "2 + hdr_len bs \<le> length bs"
  shows "frame (take (hdr_len bs) (drop 2 bs)) = take (2 + hdr_len bs) bs"
proof -
  obtain a b bs' where bs: "bs = a # b # bs'" using assms by (cases bs; cases "tl bs") auto
  then have "hdr_len bs = unat (rd_le16 a b)" by (simp add: hdr_len_def)
  then show ?thesis using assms by (simp add: bs frame_def le16_rd min_def)
qed

lemma frames_short: "length bs < 2 \<Longrightarrow> frames mtu bs = ([], bs, False)"
  by (simp add: frames.simps)

lemma frames_big: "2 \<le> length bs \<Longrightarrow> mtu < hdr_len bs \<Longrightarrow> frames mtu bs = ([], bs, True)"
  by (simp add: frames.simps)

lemma frames_wait:
  "2 \<le> length bs \<Longrightarrow> hdr_len bs \<le> mtu \<Longrightarrow> length bs < 2 + hdr_len bs \<Longrightarrow> frames mtu bs = ([], bs, False)"
  by (auto simp: frames.simps)

lemma frames_frame:
  assumes "length p \<le> mtu" "mtu \<le> PACKETPROTO_MAXPAYLOAD"
  shows "frames mtu (frame p @ w) = (p # fst (frames mtu w), snd (frames mtu w))"
  using assms by (subst frames.simps) (simp add: frame_parts case_prod_beta)

lemma frames_concat:
  assumes "\<forall>p \<in> set ps. length p \<le> mtu" "mtu \<le> PACKETPROTO_MAXPAYLOAD"
  shows "frames mtu (concat (map frame ps) @ w) = (ps @ fst (frames mtu w), snd (frames mtu w))"
  using assms(1) by (induction ps) (simp_all add: frames_frame assms(2))

text \<open>Where the frames of a sequence run into an oversized header, more bytes do not help.\<close>

lemma frames_error_mono:
  "snd (snd (frames mtu bs)) \<Longrightarrow> snd (snd (frames mtu (bs @ cs)))"
proof (induction mtu bs rule: frames.induct)
  case (1 mtu bs)
  show ?case
  proof (cases "length bs < 2 \<or> length bs - 2 < hdr_len bs \<and> hdr_len bs \<le> mtu")
    case True
    then have "frames mtu bs = ([], bs, False)" by (subst frames.simps) auto
    with 1(2) show ?thesis by simp
  next
    case False
    then have h: "hdr_len (bs @ cs) = hdr_len bs"
      by (cases bs) (simp_all add: hdr_len_def nth_append)
    show ?thesis
    proof (cases "mtu < hdr_len bs")
      case True
      with False h show ?thesis by (simp add: frames_big)
    next
      case ok: False
      have e: "snd (frames mtu bs) = snd (frames mtu (drop (2 + hdr_len bs) bs))"
        using False ok by (subst frames.simps) (simp add: case_prod_beta)
      have e': "snd (frames mtu (bs @ cs)) = snd (frames mtu (drop (2 + hdr_len bs) bs @ cs))"
      proof -
        have "\<not> length bs + length cs - 2 < hdr_len bs" "Suc (Suc (hdr_len bs)) - length bs = 0"
          using False ok by auto
        with False ok h show ?thesis by (subst frames.simps) (simp add: case_prod_beta)
      qed
      have "snd (snd (frames mtu (drop (2 + hdr_len bs) bs @ cs)))"
        using False ok 1(2) e by (intro 1(1)) auto
      with e' show ?thesis by simp
    qed
  qed
qed

section \<open>The decoder between its neighbours\<close>

text \<open>
  The stream source stores data at the destination of the outstanding receive, at most as
  many bytes as asked for (\<open>Data d\<close>); the packet sink finishes the outstanding send
  (\<open>Packet_done\<close>). A call that its interface's ASSERT refuses gives \<open>None\<close>.
\<close>

record ppd_env =
  de_dec :: PacketProtoDecoder
  de_recv :: "(nat \<times> nat) option"
  de_send :: "(nat \<times> nat) option"
  de_rx :: bytes
  de_out :: "bytes list"
  de_errors :: nat

datatype ppd_event = Data bytes | Packet_done

fun ppd_calls :: "ppd_call list \<Rightarrow> ppd_env \<Rightarrow> ppd_env option" where
  "ppd_calls [] env = Some env"
| "ppd_calls (PPD_Recv a n # cs) env =
     (if de_recv env = None \<and> n > 0 then ppd_calls cs (env\<lparr>de_recv := Some (a, n)\<rparr>) else None)"
| "ppd_calls (PPD_Send a n # cs) env =
     (if de_send env = None \<and> n \<le> ppd_output_mtu (de_dec env)
      then ppd_calls cs (env\<lparr>de_send := Some (a, n)\<rparr>) else None)"
| "ppd_calls (PPD_handler_error # cs) env = ppd_calls cs (env\<lparr>de_errors := de_errors env + 1\<rparr>)"

definition put_bytes :: "bytes \<Rightarrow> nat \<Rightarrow> bytes \<Rightarrow> bytes" where
  "put_bytes buf a d = take a buf @ d @ drop (a + length d) buf"

fun ppd_step :: "ppd_event \<Rightarrow> ppd_env \<Rightarrow> ppd_env option" where
  "ppd_step (Data d) env =
     (case de_recv env of
        Some (a, n) \<Rightarrow>
          if d \<noteq> [] \<and> length d \<le> n then
            (let enc = de_dec env;
                 enc = enc\<lparr>ppd_buf := put_bytes (ppd_buf enc) a d\<rparr>;
                 (enc, cs) = ppd_input_handler_done enc (length d)
             in ppd_calls cs (env\<lparr>de_recv := None, de_rx := de_rx env @ d, de_dec := enc\<rparr>))
          else Some env
      | None \<Rightarrow> Some env)"
| "ppd_step Packet_done env =
     (case de_send env of
        Some (a, n) \<Rightarrow>
          (let p = take n (drop a (ppd_buf (de_dec env)));
               (enc, cs) = ppd_output_handler_done (de_dec env)
           in ppd_calls cs (env\<lparr>de_send := None, de_out := de_out env @ [p], de_dec := enc\<rparr>))
      | None \<Rightarrow> Some env)"

fun ppd_run :: "ppd_event list \<Rightarrow> ppd_env \<Rightarrow> ppd_env option" where
  "ppd_run [] env = Some env"
| "ppd_run (e # es) env = Option.bind (ppd_step e env) (ppd_run es)"

definition ppd_begin :: "PacketProtoDecoder \<times> ppd_call list \<Rightarrow> ppd_env option" where
  "ppd_begin r = ppd_calls (snd r) \<lparr>de_dec = fst r, de_recv = None, de_send = None, de_rx = [],
     de_out = [], de_errors = 0\<rparr>"

text \<open>The bytes in the buffer that are not yet part of a packet handed on.\<close>

definition window :: "PacketProtoDecoder \<Rightarrow> bytes" where
  "window enc = take (ppd_buf_used enc) (drop (ppd_buf_start enc) (ppd_buf enc))"

definition dec_wf :: "PacketProtoDecoder \<Rightarrow> bool" where
  "dec_wf enc \<longleftrightarrow> ppd_output_mtu enc \<le> PACKETPROTO_MAXPAYLOAD \<and>
     ppd_buf_size enc = 2 + ppd_output_mtu enc \<and> length (ppd_buf enc) = ppd_buf_size enc \<and>
     ppd_buf_start enc + ppd_buf_used enc \<le> ppd_buf_size enc"

definition sending :: "ppd_env \<Rightarrow> bytes list" where
  "sending env = (case de_send env of None \<Rightarrow> [] | Some (a, n) \<Rightarrow> [take n (drop a (ppd_buf (de_dec env)))])"

definition ppd_ok :: "ppd_env \<Rightarrow> bool" where
  "ppd_ok env \<longleftrightarrow> (let enc = de_dec env in
     dec_wf enc \<and>
     (case de_send env of
        None \<Rightarrow> de_recv env = Some (ppd_buf_start enc + ppd_buf_used enc,
            ppd_buf_size enc - (ppd_buf_start enc + ppd_buf_used enc)) \<and>
          ppd_buf_start enc + ppd_buf_used enc < ppd_buf_size enc \<and>
          frames (ppd_output_mtu enc) (window enc) = ([], window enc, False)
      | Some (a, n) \<Rightarrow> de_recv env = None \<and> a + n \<le> ppd_buf_start enc) \<and>
     (if de_errors env = 0
      then de_rx env = concat (map frame (de_out env @ sending env)) @ window enc \<and>
        (\<forall>p \<in> set (de_out env @ sending env). length p \<le> ppd_output_mtu enc)
      else snd (snd (frames (ppd_output_mtu enc) (de_rx env)))))"

lemma length_window [simp]: "dec_wf enc \<Longrightarrow> length (window enc) = ppd_buf_used enc"
  by (auto simp: window_def dec_wf_def)

lemma hdr_len_window:
  "dec_wf enc \<Longrightarrow> 2 \<le> ppd_buf_used enc \<Longrightarrow> hdr_len (window enc) =
     unat (rd_le16 (ppd_buf enc ! ppd_buf_start enc) (ppd_buf enc ! (ppd_buf_start enc + 1)))"
  by (simp add: hdr_len_def window_def dec_wf_def)

lemma frames_waits:
  "frames mtu bs = ([], bs, False) \<longleftrightarrow> length bs < 2 \<or> hdr_len bs \<le> mtu \<and> length bs < 2 + hdr_len bs"
  by (subst frames.simps) (auto simp: case_prod_beta)

text \<open>
  The three outcomes of process_data. The buffer is exactly large enough for one maximal
  frame, so a full buffer holds a complete one and a receive always asks for some bytes.
\<close>

lemma process_wait:
  assumes wf: "dec_wf enc" and w: "frames (ppd_output_mtu enc) (window enc) = ([], window enc, False)"
  obtains enc' where "ppd_process_data enc = (enc', [PPD_Recv (ppd_buf_start enc' + ppd_buf_used enc')
      (ppd_buf_size enc' - (ppd_buf_start enc' + ppd_buf_used enc'))])"
    "dec_wf enc'" "window enc' = window enc" "ppd_output_mtu enc' = ppd_output_mtu enc"
    "ppd_buf_start enc' + ppd_buf_used enc' < ppd_buf_size enc'"
proof
  let ?e = "if ppd_buf_start enc + ppd_buf_used enc = ppd_buf_size enc
     then enc\<lparr>ppd_buf := take (ppd_buf_used enc) (drop (ppd_buf_start enc) (ppd_buf enc)) @
       drop (ppd_buf_used enc) (ppd_buf enc), ppd_buf_start := 0\<rparr> else enc"
  have wait: "ppd_buf_used enc < 2 \<or>
      hdr_len (window enc) \<le> ppd_output_mtu enc \<and> ppd_buf_used enc < 2 + hdr_len (window enc)"
    using w wf by (simp add: frames_waits)
  then have small: "ppd_buf_used enc < ppd_buf_size enc" using wf by (auto simp: dec_wf_def)
  show "ppd_process_data enc = (?e, [PPD_Recv (ppd_buf_start ?e + ppd_buf_used ?e)
      (ppd_buf_size ?e - (ppd_buf_start ?e + ppd_buf_used ?e))])"
  proof (cases "ppd_buf_used enc < 2")
    case False
    with wait hdr_len_window [OF wf] have
      "unat (rd_le16 (ppd_buf enc ! ppd_buf_start enc) (ppd_buf enc ! Suc (ppd_buf_start enc))) \<le> ppd_output_mtu enc"
      "ppd_buf_used enc - 2 < unat (rd_le16 (ppd_buf enc ! ppd_buf_start enc) (ppd_buf enc ! Suc (ppd_buf_start enc)))"
      by auto
    with False show ?thesis by (simp add: ppd_process_data_def Let_def)
  qed (simp add: ppd_process_data_def Let_def)
  show "dec_wf ?e" using wf small by (auto simp: dec_wf_def)
  show "window ?e = window enc" using wf by (auto simp: window_def dec_wf_def)
  show "ppd_output_mtu ?e = ppd_output_mtu enc" by simp
  show "ppd_buf_start ?e + ppd_buf_used ?e < ppd_buf_size ?e" using wf small by (auto simp: dec_wf_def)
qed

lemma process_error:
  assumes wf: "dec_wf enc" and big: "2 \<le> ppd_buf_used enc" "ppd_output_mtu enc < hdr_len (window enc)"
  shows "ppd_process_data enc = (enc\<lparr>ppd_buf_start := 0, ppd_buf_used := 0\<rparr>,
    [PPD_Recv 0 (ppd_buf_size enc), PPD_handler_error])"
  using big hdr_len_window [OF wf] by (simp add: ppd_process_data_def Let_def)

lemma process_packet:
  assumes wf: "dec_wf enc" and len: "2 + hdr_len (window enc) \<le> ppd_buf_used enc"
    and fits: "hdr_len (window enc) \<le> ppd_output_mtu enc"
  defines "n \<equiv> hdr_len (window enc)"
  defines "enc' \<equiv> enc\<lparr>ppd_buf_start := ppd_buf_start enc + (2 + n), ppd_buf_used := ppd_buf_used enc - (2 + n)\<rparr>"
  shows "ppd_process_data enc = (enc', [PPD_Send (ppd_buf_start enc + 2) n])"
    and "window enc = frame (take n (drop (ppd_buf_start enc + 2) (ppd_buf enc))) @ window enc'"
proof -
  show "ppd_process_data enc = (enc', [PPD_Send (ppd_buf_start enc + 2) n])"
    using len fits hdr_len_window [OF wf] by (simp add: ppd_process_data_def Let_def enc'_def n_def)
  have "window enc' = drop (2 + n) (window enc)"
    by (simp add: window_def enc'_def drop_take add.commute add.left_commute)
  moreover have "take n (drop 2 (window enc)) = take n (drop (ppd_buf_start enc + 2) (ppd_buf enc))"
    using len by (simp add: window_def n_def drop_take min_def add.commute)
  moreover have "frame (take n (drop 2 (window enc))) = take (2 + n) (window enc)"
    using len wf unfolding n_def by (intro frame_split) simp
  ultimately show "window enc = frame (take n (drop (ppd_buf_start enc + 2) (ppd_buf enc))) @ window enc'"
    by (metis append_take_drop_id)
qed

text \<open>What holds when process_data is entered gives the invariant when its calls are made.\<close>

lemma ppd_ok_process:
  assumes wf: "dec_wf enc" and env: "de_recv env = None" "de_send env = None"
    and ok: "de_errors env = 0 \<Longrightarrow> de_rx env = concat (map frame (de_out env)) @ window enc \<and>
      (\<forall>p \<in> set (de_out env). length p \<le> ppd_output_mtu enc)"
    and err: "de_errors env \<noteq> 0 \<Longrightarrow> snd (snd (frames (ppd_output_mtu enc) (de_rx env)))"
    and pd: "ppd_process_data enc = (enc', cs)"
  shows "\<exists>env'. ppd_calls cs (env\<lparr>de_dec := enc'\<rparr>) = Some env' \<and> ppd_ok env' \<and>
    ppd_output_mtu (de_dec env') = ppd_output_mtu enc"
proof (cases "frames (ppd_output_mtu enc) (window enc) = ([], window enc, False)")
  case True
  from process_wait [OF wf True] pd have
    e: "cs = [PPD_Recv (ppd_buf_start enc' + ppd_buf_used enc')
      (ppd_buf_size enc' - (ppd_buf_start enc' + ppd_buf_used enc'))]"
    "dec_wf enc'" "window enc' = window enc" "ppd_output_mtu enc' = ppd_output_mtu enc"
    "ppd_buf_start enc' + ppd_buf_used enc' < ppd_buf_size enc'" by auto
  then show ?thesis using env ok err True by (simp add: ppd_ok_def Let_def sending_def)
next
  case False
  then have two: "2 \<le> ppd_buf_used enc" and
    alt: "ppd_output_mtu enc < hdr_len (window enc) \<or> 2 + hdr_len (window enc) \<le> ppd_buf_used enc"
    using wf by (auto simp: frames_waits)
  show ?thesis
  proof (cases "ppd_output_mtu enc < hdr_len (window enc)")
    case True
    have e: "cs = [PPD_Recv 0 (ppd_buf_size enc), PPD_handler_error]"
      "enc' = enc\<lparr>ppd_buf_start := 0, ppd_buf_used := 0\<rparr>"
      using process_error [OF wf two True] pd by auto
    have f: "frames (ppd_output_mtu enc) (window enc) = ([], window enc, True)"
      using frames_big [OF _ True] two wf by simp
    have "snd (snd (frames (ppd_output_mtu enc) (de_rx env)))"
    proof (cases "de_errors env = 0")
      case True
      with ok f wf show ?thesis by (simp add: frames_concat dec_wf_def)
    qed (rule err)
    then show ?thesis using env wf
      by (simp add: e ppd_ok_def Let_def dec_wf_def window_def frames_short)
  next
    case fits: False
    then have len: "2 + hdr_len (window enc) \<le> ppd_buf_used enc" using alt by simp
    let ?n = "hdr_len (window enc)"
    let ?e = "enc\<lparr>ppd_buf_start := ppd_buf_start enc + (2 + ?n), ppd_buf_used := ppd_buf_used enc - (2 + ?n)\<rparr>"
    have e: "cs = [PPD_Send (ppd_buf_start enc + 2) ?n]" "enc' = ?e"
      using process_packet(1) [OF wf len] fits pd by auto
    have w: "window enc = frame (take ?n (drop (ppd_buf_start enc + 2) (ppd_buf enc))) @ window ?e"
      using process_packet(2) [OF wf len] fits by simp
    have "dec_wf ?e" using wf len by (auto simp: dec_wf_def)
    then show ?thesis using env ok err fits w
      by (simp add: e ppd_ok_def Let_def sending_def min.coboundedI2)
  qed
qed

lemma ppd_ok_Packet_done:
  assumes ok: "ppd_ok env"
  shows "\<exists>env'. ppd_step Packet_done env = Some env' \<and> ppd_ok env' \<and>
    ppd_output_mtu (de_dec env') = ppd_output_mtu (de_dec env)"
proof (cases "de_send env")
  case None
  then show ?thesis using ok by simp
next
  case (Some an)
  obtain a n where an: "an = (a, n)" by (cases an)
  let ?p = "take n (drop a (ppd_buf (de_dec env)))"
  let ?env = "env\<lparr>de_send := None, de_out := de_out env @ [?p]\<rparr>"
  obtain enc' cs where pd: "ppd_process_data (de_dec env) = (enc', cs)" by fastforce
  have "\<exists>env'. ppd_calls cs (?env\<lparr>de_dec := enc'\<rparr>) = Some env' \<and> ppd_ok env' \<and>
    ppd_output_mtu (de_dec env') = ppd_output_mtu (de_dec env)"
    using ok Some an by (intro ppd_ok_process [OF _ _ _ _ _ pd])
      (auto simp: ppd_ok_def Let_def sending_def split: if_splits)
  then show ?thesis by (simp add: Some an ppd_output_handler_done_def pd)
qed

lemma window_put:
  assumes "dec_wf enc" "ppd_buf_start enc + ppd_buf_used enc + length d \<le> ppd_buf_size enc"
  defines "enc' \<equiv> enc\<lparr>ppd_buf := put_bytes (ppd_buf enc) (ppd_buf_start enc + ppd_buf_used enc) d,
     ppd_buf_used := ppd_buf_used enc + length d\<rparr>"
  shows "window enc' = window enc @ d" "dec_wf enc'"
proof -
  let ?s = "ppd_buf_start enc" and ?u = "ppd_buf_used enc"
  have l: "?s + ?u \<le> length (ppd_buf enc)" using assms by (simp add: dec_wf_def)
  then have "drop ?s (put_bytes (ppd_buf enc) (?s + ?u) d) =
      take ?u (drop ?s (ppd_buf enc)) @ d @ drop (?s + ?u + length d) (ppd_buf enc)"
    by (simp add: put_bytes_def take_drop add.commute)
  then show "window enc' = window enc @ d" using l by (simp add: window_def enc'_def)
  show "dec_wf enc'" using assms l by (auto simp: dec_wf_def put_bytes_def)
qed

lemma ppd_ok_Data:
  assumes ok: "ppd_ok env"
  shows "\<exists>env'. ppd_step (Data d) env = Some env' \<and> ppd_ok env' \<and>
    ppd_output_mtu (de_dec env') = ppd_output_mtu (de_dec env)"
proof (cases "de_send env = None \<and> d \<noteq> [] \<and>
    length d \<le> ppd_buf_size (de_dec env) - (ppd_buf_start (de_dec env) + ppd_buf_used (de_dec env))")
  case False
  then have "ppd_step (Data d) env = Some env"
    using ok by (auto simp: ppd_ok_def Let_def split: option.splits prod.splits)
  with ok show ?thesis by simp
next
  case True
  let ?enc = "de_dec env"
  let ?a = "ppd_buf_start ?enc + ppd_buf_used ?enc"
  let ?enc1 = "?enc\<lparr>ppd_buf := put_bytes (ppd_buf ?enc) ?a d, ppd_buf_used := ppd_buf_used ?enc + length d\<rparr>"
  let ?env = "env\<lparr>de_recv := None, de_rx := de_rx env @ d\<rparr>"
  have wf: "dec_wf ?enc" and recv: "de_recv env = Some (?a, ppd_buf_size ?enc - ?a)"
    and lt: "?a < ppd_buf_size ?enc"
    using ok True by (auto simp: ppd_ok_def Let_def)
  have w: "window ?enc1 = window ?enc @ d" "dec_wf ?enc1"
    using window_put [OF wf] True lt by auto
  obtain enc' cs where pd: "ppd_process_data ?enc1 = (enc', cs)" by fastforce
  have "\<exists>env'. ppd_calls cs (?env\<lparr>de_dec := enc'\<rparr>) = Some env' \<and> ppd_ok env' \<and>
    ppd_output_mtu (de_dec env') = ppd_output_mtu ?enc1"
    using ok True w by (intro ppd_ok_process [OF _ _ _ _ _ pd])
      (auto simp: ppd_ok_def Let_def sending_def intro: frames_error_mono)
  then show ?thesis using True by (simp add: recv ppd_input_handler_done_def pd)
qed

lemma ppd_ok_run:
  "ppd_ok env \<Longrightarrow> \<exists>env'. ppd_run evs env = Some env' \<and> ppd_ok env' \<and>
     ppd_output_mtu (de_dec env') = ppd_output_mtu (de_dec env)"
proof (induction evs arbitrary: env)
  case (Cons e evs)
  obtain env1 where 1: "ppd_step e env = Some env1" "ppd_ok env1"
    "ppd_output_mtu (de_dec env1) = ppd_output_mtu (de_dec env)"
    using ppd_ok_Data [OF Cons.prems] ppd_ok_Packet_done [OF Cons.prems] by (cases e) blast+
  from Cons.IH [OF 1(2)] 1 show ?case by simp
qed simp

lemma ppd_ok_begin:
  assumes "PacketProtoDecoder_Init alloc mtu = Some r" "\<And>n buf. alloc n = Some buf \<Longrightarrow> length buf = n"
  shows "\<exists>env. ppd_begin r = Some env \<and> ppd_ok env \<and>
    ppd_output_mtu (de_dec env) = min mtu PACKETPROTO_MAXPAYLOAD"
  using assms
  by (auto simp: PacketProtoDecoder_Init_def Let_def ppd_begin_def ppd_ok_def dec_wf_def window_def
      sending_def frames_short PACKETPROTO_ENCLEN_def split: option.splits)

lemma ppd_run_frames:
  assumes "PacketProtoDecoder_Init alloc mtu = Some r"
    and "\<And>n buf. alloc n = Some buf \<Longrightarrow> length buf = n"
  shows "\<exists>env. Option.bind (ppd_begin r) (ppd_run evs) = Some env \<and>
     (let fs = frames (min mtu PACKETPROTO_MAXPAYLOAD) (de_rx env) in
       (de_errors env = 0 \<longrightarrow> prefix (de_out env) (fst fs)) \<and>
       (de_errors env = 0 \<longrightarrow> de_recv env \<noteq> None \<longrightarrow> fst fs = de_out env \<and> \<not> snd (snd fs)) \<and>
       (de_errors env \<noteq> 0 \<longrightarrow> snd (snd fs)))"
proof -
  obtain env0 where s: "ppd_begin r = Some env0" "ppd_ok env0"
    and m0: "ppd_output_mtu (de_dec env0) = min mtu PACKETPROTO_MAXPAYLOAD"
    using ppd_ok_begin [OF assms] by blast
  then obtain env where run: "ppd_run evs env0 = Some env" and ok: "ppd_ok env"
    and m: "ppd_output_mtu (de_dec env) = min mtu PACKETPROTO_MAXPAYLOAD"
    using ppd_ok_run [OF s(2)] by fastforce
  have f: "de_errors env = 0 \<Longrightarrow> frames (min mtu PACKETPROTO_MAXPAYLOAD) (de_rx env) =
      ((de_out env @ sending env) @ fst (frames (min mtu PACKETPROTO_MAXPAYLOAD) (window (de_dec env))),
       snd (frames (min mtu PACKETPROTO_MAXPAYLOAD) (window (de_dec env))))"
    using ok m frames_concat [of "de_out env @ sending env" "min mtu PACKETPROTO_MAXPAYLOAD" "window (de_dec env)"]
    by (simp add: ppd_ok_def Let_def)
  show ?thesis
    using s run ok m f
    by (auto simp: ppd_ok_def Let_def sending_def split: option.splits if_splits)
qed

text \<open>
  C6. The decoder is correct on every byte stream, however it is cut into receives and
  however receives and completed sends interleave. No interface assertion ever fails: a
  receive always asks for at least one byte and never while another is outstanding, and a
  packet never exceeds the output's MTU. As long as no error was reported, the packets
  delivered are the first frames of the received bytes, and all the complete ones once the
  decoder is waiting for data again. An error is reported only if the frames of the received
  bytes run into a header above the MTU.
\<close>

theorem PacketProtoDecoder_delivers_frames:
  assumes "PacketProtoDecoder_Init alloc mtu = Some r"
    and "\<And>n buf. alloc n = Some buf \<Longrightarrow> length buf = n"
  shows "\<exists>env. Option.bind (ppd_begin r) (ppd_run evs) = Some env \<and>
     (let fs = frames (min mtu PACKETPROTO_MAXPAYLOAD) (de_rx env) in
       (de_errors env = 0 \<longrightarrow> prefix (de_out env) (fst fs)) \<and>
       (de_errors env = 0 \<longrightarrow> de_recv env \<noteq> None \<longrightarrow> fst fs = de_out env \<and> \<not> snd (snd fs)) \<and>
       (de_errors env \<noteq> 0 \<longrightarrow> snd (snd fs)))"
  by (rule ppd_run_frames [OF assms])

theorem PacketProtoDecoder_delivers_frames_witness:
  "\<exists>r env. PacketProtoDecoder_Init (\<lambda>n. Some (replicate n 0)) 5 = Some r \<and>
     Option.bind (ppd_begin r) (ppd_run [Data [3], Data [0, 7, 8], Data [9, 1], Packet_done, Data [0]]) = Some env \<and>
     de_out env = [[7, 8, 9]] \<and> de_errors env = 0 \<and> prefix (de_out env) (fst (frames 5 (de_rx env)))"
proof -
  let ?al = "\<lambda>n. Some (replicate n 0)"
  let ?evs = "[Data [3], Data [0, 7, 8], Data [9, 1], Packet_done, Data [0]]"
  let ?r = "(\<lparr>ppd_output_mtu = 5, ppd_buf_size = 7, ppd_buf_start = 0, ppd_buf_used = 0,
     ppd_buf = replicate 7 0\<rparr>, [PPD_Recv 0 7])"
  have min: "min 5 PACKETPROTO_MAXPAYLOAD = 5" by (simp add: PACKETPROTO_MAXPAYLOAD_def)
  have r: "PacketProtoDecoder_Init ?al 5 = Some ?r"
    unfolding PacketProtoDecoder_Init_def min Let_def PACKETPROTO_ENCLEN_def
    by (simp add: numeral_eq_Suc)

  define x where "x = Option.bind (ppd_begin ?r) (ppd_run ?evs)"
  have c: "map_option (\<lambda>e. (de_out e, de_errors e)) x = Some ([[7, 8, 9]], 0)"
    unfolding x_def by code_simp
  obtain env where e: "x = Some env"
    and p: "de_errors env = 0 \<longrightarrow> prefix (de_out env) (fst (frames 5 (de_rx env)))"
    using PacketProtoDecoder_delivers_frames [OF r, of ?evs, folded x_def] unfolding min Let_def by auto
  have o: "de_out env = [[7, 8, 9]]" "de_errors env = 0" using c e by simp_all
  from r e [unfolded x_def] o p [rule_format, OF o(2)] show ?thesis by (intro exI conjI)
qed

section \<open>Encoder and stream sender\<close>

text \<open>The bytes of the memory at an address.\<close>

definition mem_bytes :: "(nat \<Rightarrow> u8) \<Rightarrow> nat \<Rightarrow> nat \<Rightarrow> bytes" where
  "mem_bytes mem a n = map (\<lambda>i. mem (a + i)) [0..<n]"

lemma mem_bytes_two: "mem_bytes mem a (2 + n) = mem a # mem (a + 1) # mem_bytes mem (a + 2) n"
proof -
  have "[0..<2 + n] = 0 # 1 # map (\<lambda>i. i + 2) [0..<n]"
    using map_add_upt [of 2 n] by (simp add: upt_conv_Cons add.commute numeral_2_eq_2 del: upt_Suc)
  then show ?thesis by (simp add: mem_bytes_def del: upt_Suc)
qed

lemma mem_bytes_cong:
  "(\<And>i. a \<le> i \<Longrightarrow> i < a + n \<Longrightarrow> mem i = mem' i) \<Longrightarrow> mem_bytes mem a n = mem_bytes mem' a n"
  by (simp add: mem_bytes_def)

text \<open>
  C10. The encoder writes the frame of the packet it receives: asked to fill the memory at
  \<open>data\<close>, it has its input put the packet two bytes further on, and when the input is
  done the memory at \<open>data\<close> holds the packet's frame, whose length it reports; it is then
  ready for the next packet.
\<close>

theorem PacketProtoEncoder_writes_frame:
  assumes "ppe_output_packet enc = None"
    and "ppe_output_handler_recv enc data = Some (enc1, PPE_Recv dest)"
    and "mem_bytes mem dest (length p) = p" "length p \<le> PACKETPROTO_MAXPAYLOAD"
  shows "\<exists>mem'. ppe_input_handler_done enc1 mem (length p) = Some (enc, mem', PPE_Done (length (frame p))) \<and>
    mem_bytes mem' data (length (frame p)) = frame p"
proof -
  have d: "enc1 = enc\<lparr>ppe_output_packet := Some data\<rparr>" "dest = data + 2"
    using assms(1,2) by (auto simp: ppe_output_handler_recv_def)
  let ?l = "le16 (of_nat (length p))"
  let ?m = "mem(data := ?l ! 0, data + 1 := ?l ! 1)"
  have "mem_bytes ?m (data + 2) (length p) = p"
    using mem_bytes_cong [of "data + 2" "length p" ?m mem] assms(3) by (simp add: d)
  then have "mem_bytes ?m data (length (frame p)) = frame p"
    unfolding length_frame mem_bytes_two by (simp add: frame_def le16_def)
  moreover have "ppe_input_handler_done enc1 mem (length p) = Some (enc, ?m, PPE_Done (length (frame p)))"
    using assms(1) by (simp add: ppe_input_handler_done_def d Let_def PACKETPROTO_ENCLEN_def)
  ultimately show ?thesis by blast
qed

theorem PacketProtoEncoder_writes_frame_witness:
  "\<exists>enc enc1 dest mem'. PacketProtoEncoder_Init 1500 = Some enc \<and>
     ppe_output_handler_recv enc 100 = Some (enc1, PPE_Recv dest) \<and>
     ppe_input_handler_done enc1 (\<lambda>i. of_nat i) (length [102, 103, 104 :: u8]) =
       Some (enc, mem', PPE_Done (length (frame [102, 103, 104]))) \<and>
     mem_bytes mem' 100 (length (frame [102, 103, 104])) = frame [102, 103, 104]"
proof -
  let ?e = "\<lparr>ppe_input_mtu = 1500, ppe_output_packet = None\<rparr>"
  have m: "mem_bytes (\<lambda>i. of_nat i) 102 (length [102, 103, 104]) = ([102, 103, 104] :: bytes)"
    by (simp add: mem_bytes_def upt_rec numeral_eq_Suc)
  show ?thesis
    using PacketProtoEncoder_writes_frame [of ?e 100 "?e\<lparr>ppe_output_packet := Some 100\<rparr>" 102, OF _ _ m]
    by (simp add: PacketProtoEncoder_Init_def PACKETPROTO_MAXPAYLOAD_def ppe_output_handler_recv_def)
qed

text \<open>
  The stream sender with a packet in memory. The stream takes any positive number of the
  bytes offered; \<open>pss_stream\<close> is what it has taken when its i-th completion reports
  \<open>ns ! i\<close> bytes, together with the sender's last call.
\<close>

fun pss_stream :: "(nat \<Rightarrow> u8) \<Rightarrow> int list \<Rightarrow> PacketStreamSender \<times> pss_call \<Rightarrow>
    (PacketStreamSender \<times> pss_call \<times> bytes) option" where
  "pss_stream mem [] (s, c) = Some (s, c, [])"
| "pss_stream mem (n # ns) (s, c) =
     (case c of
        PSS_Done \<Rightarrow> None
      | PSS_Send a len \<Rightarrow>
          if 0 < n \<and> n \<le> len then
            (case pss_output_handler_done s n of
               None \<Rightarrow> None
             | Some r \<Rightarrow> map_option (\<lambda>(s', c', bs). (s', c', mem_bytes mem a (nat n) @ bs)) (pss_stream mem ns r))
          else None)"

lemma mem_bytes_add: "mem_bytes mem a (m + n) = mem_bytes mem a m @ mem_bytes mem (a + m) n"
proof -
  have "[0..<m + n] = [0..<m] @ map (\<lambda>i. i + m) [0..<n]"
    by (simp add: map_add_upt upt_add_eq_append [of 0 m n, simplified] add.commute)
  then show ?thesis by (simp add: mem_bytes_def comp_def add.assoc add.commute [of m])
qed

lemma pss_stream_rest:
  assumes "pss_in_len s = int (length p)" "pss_in s = a" "pss_in_used s = int k" "k \<le> length p"
    and "mem_bytes mem a (length p) = p"
    and "pss_send_data s = Some r" "pss_stream mem ns r = Some (s', c, bs)"
  shows "take k p @ bs = take (k + length bs) p \<and>
    (c = PSS_Done \<longleftrightarrow> k + length bs = length p) \<and> (c = PSS_Done \<longleftrightarrow> pss_in_len s' = -1) \<and>
    (c \<noteq> PSS_Done \<longrightarrow> c = PSS_Send (a + (k + length bs)) (int (length p) - int (k + length bs)))"
  using assms
proof (induction ns arbitrary: s k r bs)
  case Nil
  then show ?case by (auto simp: pss_send_data_def split: if_splits)
next
  case (Cons n ns)
  have r: "r = (s, PSS_Send (a + k) (int (length p) - int k))" "k < length p"
    using Cons.prems(1-4,6,7) by (auto simp: pss_send_data_def split: if_splits)
  with Cons.prems(7) obtain r1 bs1 where n: "0 < n" "n \<le> int (length p) - int k"
    and h: "pss_output_handler_done s n = Some r1" and st: "pss_stream mem ns r1 = Some (s', c, bs1)"
    and bs: "bs = mem_bytes mem (a + k) (nat n) @ bs1"
    by (auto split: if_splits option.splits)
  let ?s = "s\<lparr>pss_in_used := pss_in_used s + n\<rparr>"
  have h': "pss_send_data ?s = Some r1"
    using h Cons.prems(1-3) n by (simp add: pss_output_handler_done_def)
  have k': "pss_in_used ?s = int (k + nat n)" "k + nat n \<le> length p" using Cons.prems(3) n by auto
  have m: "mem_bytes mem (a + k) (nat n) = take (nat n) (drop k p)"
  proof -
    have "p = mem_bytes mem a (k + (nat n + (length p - k - nat n)))" using Cons.prems(5) k'(2) by simp
    then have "p = mem_bytes mem a k @ mem_bytes mem (a + k) (nat n) @ mem_bytes mem (a + k + nat n) (length p - k - nat n)"
      by (simp only: mem_bytes_add)
    moreover have "length (mem_bytes mem x j) = j" for x j by (simp add: mem_bytes_def)
    ultimately show ?thesis by (metis append_eq_conv_conj)
  qed
  have "length (mem_bytes mem (a + k) (nat n)) = nat n" by (simp add: mem_bytes_def)
  then have len: "k + length bs = (k + nat n) + length bs1" using bs by simp
  have t: "take k p @ bs = take (k + nat n) p @ bs1" by (simp add: bs m take_add)
  show ?case
    unfolding len t
    by (rule Cons.IH [OF _ _ k'(1) k'(2) Cons.prems(5) h' st]) (simp_all add: Cons.prems(1,2))
qed

text \<open>
  C11. The stream sender passes a packet to the stream byte for byte: whatever amounts the
  stream accepts, the bytes it has taken are the first bytes of the packet, the next call
  offers exactly the rest, and the packet is reported done exactly when all its bytes were
  taken (at once for an empty packet).
\<close>

theorem PacketStreamSender_passes_packet:
  assumes "pss_in_len s = -1" "mem_bytes mem a (length p) = p"
    and "pss_input_handler_send s a (int (length p)) = Some r"
    and "pss_stream mem ns r = Some (s', c, bs)"
  shows "bs = take (length bs) p \<and> (c = PSS_Done \<longleftrightarrow> bs = p) \<and> (c = PSS_Done \<longleftrightarrow> pss_in_len s' = -1) \<and>
    (c \<noteq> PSS_Done \<longrightarrow> c = PSS_Send (a + length bs) (int (length p) - int (length bs)))"
proof -
  let ?s = "s\<lparr>pss_in_len := int (length p), pss_in := a, pss_in_used := 0\<rparr>"
  have "pss_send_data ?s = Some r" using assms(1,3) by (simp add: pss_input_handler_send_def)
  from pss_stream_rest [OF _ _ _ _ assms(2) this assms(4), of 0]
  have k: "bs = take (length bs) p" "c = PSS_Done \<longleftrightarrow> length bs = length p"
    "c = PSS_Done \<longleftrightarrow> pss_in_len s' = -1"
    "c \<noteq> PSS_Done \<longrightarrow> c = PSS_Send (a + length bs) (int (length p) - int (length bs))"
    by (simp, simp, fastforce, simp)
  have "length bs = length p \<longleftrightarrow> bs = p" using k(1) by (metis take_all order_refl)
  with k show ?thesis by blast
qed

theorem PacketStreamSender_passes_packet_witness:
  "\<exists>r s' c bs. pss_input_handler_send \<lparr>pss_in_len = -1, pss_in = 0, pss_in_used = 0\<rparr> 100 3 = Some r \<and>
     pss_stream (\<lambda>i. of_nat i) [1, 2] r = Some (s', c, bs) \<and> c = PSS_Done \<and> bs = [100, 101, 102]"
proof -
  let ?s = "\<lparr>pss_in_len = -1, pss_in = 0, pss_in_used = 0\<rparr>"
  let ?p = "[100, 101, 102] :: bytes"
  have m: "mem_bytes (\<lambda>i. of_nat i) 100 (length ?p) = ?p"
    by (simp add: mem_bytes_def upt_rec numeral_eq_Suc)
  obtain r s' c bs where r: "pss_input_handler_send ?s 100 (int (length ?p)) = Some r"
    "pss_stream (\<lambda>i. of_nat i) [1, 2] r = Some (s', c, bs)" "c = PSS_Done"
    by (simp add: pss_input_handler_send_def pss_send_data_def pss_output_handler_done_def)
  then have "bs = ?p" using PacketStreamSender_passes_packet [OF _ m r(1,2)] by simp
  with r show ?thesis by auto
qed

section \<open>Round trip\<close>




end
