(* ===== verification/Badvpn_Compare.thy ===== *)
theory Badvpn_Compare
  imports Prelude
begin

text \<open>
  misc/compare.h of badvpn and the contract between a comparator and an ordered tree, as the
  comments of structure/BAVL.h and structure/CAvl.h state it.
\<close>

definition B_COMPARE :: "'a::ord \<Rightarrow> 'a \<Rightarrow> int" where
  "B_COMPARE a b = (if a > b then 1 else 0) - (if a < b then 1 else 0)"

section \<open>The contract of a comparator\<close>

text \<open>
  What structure/BAVL.h asks of a comparator: it returns -1, 0 or 1 and defines a total
  order, on the values that satisfy \<open>ok\<close>.
\<close>

locale comparator_contract =
  fixes cmp :: "'a \<Rightarrow> 'a \<Rightarrow> int" and ok :: "'a \<Rightarrow> bool"
  assumes range: "cmp a b = - 1 \<or> cmp a b = 0 \<or> cmp a b = 1"
    and eq_iff: "ok a \<Longrightarrow> ok b \<Longrightarrow> cmp a b = 0 \<longleftrightarrow> a = b"
    and swap: "ok a \<Longrightarrow> ok b \<Longrightarrow> cmp b a = - cmp a b"
    and less_trans: "ok a \<Longrightarrow> ok b \<Longrightarrow> ok c \<Longrightarrow> cmp a b = - 1 \<Longrightarrow> cmp b c = - 1 \<Longrightarrow> cmp a c = - 1"

lemma B_COMPARE_simps [simp]:
  fixes a b :: "'a::linorder"
  shows "B_COMPARE a b < 0 \<longleftrightarrow> a < b" "B_COMPARE a b = 0 \<longleftrightarrow> a = b" "\<not> B_COMPARE a b < 0 \<longleftrightarrow> b \<le> a" "B_COMPARE a b = - 1 \<longleftrightarrow> a < b" "B_COMPARE a b = 1 \<longleftrightarrow> b < a"
  by (auto simp: B_COMPARE_def)

lemma B_COMPARE_range: "B_COMPARE a b = - 1 \<or> B_COMPARE a b = 0 \<or> B_COMPARE a b = 1"
  by (auto simp: B_COMPARE_def)

lemma B_COMPARE_swap: "B_COMPARE b a = - B_COMPARE a b"
  by (auto simp: B_COMPARE_def)

text \<open>Comparing by a first and then by a second comparator.\<close>

definition cmp_then :: "int \<Rightarrow> int \<Rightarrow> int" where
  "cmp_then r s = (if r \<noteq> 0 then r else s)"

lemma comparator_lex:
  assumes "comparator_contract c ok1" "comparator_contract d ok2"
    and "\<And>x. ok x \<Longrightarrow> ok1 (f x) \<and> ok2 (g x)" "\<And>x y. ok x \<Longrightarrow> ok y \<Longrightarrow> f x = f y \<Longrightarrow> g x = g y \<Longrightarrow> x = y"
  shows "comparator_contract (\<lambda>x y. cmp_then (c (f x) (f y)) (d (g x) (g y))) ok"
proof -
  note c = comparator_contract.range [OF assms(1)] comparator_contract.eq_iff [OF assms(1)]
    comparator_contract.swap [OF assms(1)] comparator_contract.less_trans [OF assms(1)]
  note d = comparator_contract.range [OF assms(2)] comparator_contract.eq_iff [OF assms(2)]
    comparator_contract.swap [OF assms(2)] comparator_contract.less_trans [OF assms(2)]
  show ?thesis
  proof
    fix x y z
    show "cmp_then (c (f x) (f y)) (d (g x) (g y)) = - 1 \<or> cmp_then (c (f x) (f y)) (d (g x) (g y)) = 0 \<or>
        cmp_then (c (f x) (f y)) (d (g x) (g y)) = 1"
      using c(1) [of "f x" "f y"] d(1) [of "g x" "g y"] by (auto simp: cmp_then_def)
    assume x: "ok x" and y: "ok y"
    then show "cmp_then (c (f x) (f y)) (d (g x) (g y)) = 0 \<longleftrightarrow> x = y"
      using assms(3) [of x] assms(3) [of y] assms(4) [of x y] by (auto simp: cmp_then_def c(2) d(2))
    show "cmp_then (c (f y) (f x)) (d (g y) (g x)) = - cmp_then (c (f x) (f y)) (d (g x) (g y))"
      using c(3) [of "f x" "f y"] d(3) [of "g x" "g y"] assms(3) [of x] assms(3) [of y] x y by (simp add: cmp_then_def)
    assume z: "ok z" and l: "cmp_then (c (f x) (f y)) (d (g x) (g y)) = - 1"
      "cmp_then (c (f y) (f z)) (d (g y) (g z)) = - 1"
    note o = assms(3) [OF x] assms(3) [OF y] assms(3) [OF z]
    show "cmp_then (c (f x) (f z)) (d (g x) (g z)) = - 1"
    proof (cases "c (f x) (f y) = 0 \<and> c (f y) (f z) = 0")
      case True
      then show ?thesis using l o d(4) [of "g x" "g y" "g z"] c(2) by (simp add: cmp_then_def)
    next
      case False
      then have "c (f x) (f z) = - 1"
        using l o c(4) [of "f x" "f y" "f z"] c(2) [of "f x" "f y"] c(2) [of "f y" "f z"]
        by (auto simp: cmp_then_def split: if_splits)
      then show ?thesis by (simp add: cmp_then_def)
    qed
  qed
qed

lemma B_COMPARE_contract: "comparator_contract (B_COMPARE :: 'a :: linorder \<Rightarrow> 'a \<Rightarrow> int) (\<lambda>x. True)"
  by unfold_locales (auto simp: B_COMPARE_def split: if_splits)

interpretation compare_u16: comparator_contract "B_COMPARE :: u16 \<Rightarrow> u16 \<Rightarrow> int" "\<lambda>x. True"
  by (rule B_COMPARE_contract)

interpretation compare_u32: comparator_contract "B_COMPARE :: u32 \<Rightarrow> u32 \<Rightarrow> int" "\<lambda>x. True"
  by (rule B_COMPARE_contract)

end
