(* ===== verification/Badvpn_FairQueue.thy ===== *)
theory Badvpn_FairQueue
  imports Badvpn_Compare
begin

text \<open>
  flow/PacketPassFairQueue.c: several packet flows share one output. Each flow carries a
  64-bit virtual time that grows by the size of the packets it sends; the queued flow with
  the smallest time is sent next.

  Flows are addresses into a store of flow records. The search tree of queued flows (an
  SAvl over \<open>compare_flows\<close>) is represented by its in-order sequence; an insertion places
  a flow by the times the flows have at that moment, and nothing moves it afterwards, so
  that the code's in-place change of the times of queued flows is visible. A function whose
  ASSERT fails returns \<open>None\<close>; calls of other components are recorded in order.
\<close>

definition FAIRQUEUE_MAX_TIME :: u64 where
  "FAIRQUEUE_MAX_TIME = -1"

record PacketPassFairQueueFlow =
  ff_handler_busy :: bool
  ff_time :: u64
  ff_is_queued :: bool
  ff_data :: addr
  ff_data_len :: int

record PacketPassFairQueue =
  fq_flow :: "addr \<Rightarrow> PacketPassFairQueueFlow"
  fq_output_mtu :: int
  fq_use_cancel :: bool
  fq_packet_weight :: int
  fq_sending_flow :: "addr option"
  fq_sending_len :: int
  fq_previous_flow :: "addr option"
  fq_queued_tree :: "addr list"
  fq_flows_list :: "addr list"
  fq_freeing :: bool
  fq_schedule_job :: bool

datatype fq_call = FQ_Send addr int | FQ_Done addr | FQ_handler_busy addr | FQ_RequestCancel

abbreviation fq_time :: "PacketPassFairQueue \<Rightarrow> addr \<Rightarrow> u64" where
  "fq_time m f \<equiv> ff_time (fq_flow m f)"

definition fq_upd :: "addr \<Rightarrow> (PacketPassFairQueueFlow \<Rightarrow> PacketPassFairQueueFlow) \<Rightarrow>
    PacketPassFairQueue \<Rightarrow> PacketPassFairQueue" where
  "fq_upd f g m = m\<lparr>fq_flow := (fq_flow m)(f := g (fq_flow m f))\<rparr>"

definition compare_flows :: "PacketPassFairQueue \<Rightarrow> addr \<Rightarrow> addr \<Rightarrow> int" where
  "compare_flows m f1 f2 =
     (let cmp = B_COMPARE (fq_time m f1) (fq_time m f2) in
      if cmp \<noteq> 0 then cmp else B_COMPARE f1 f2)"

fun fq_tree_insert :: "PacketPassFairQueue \<Rightarrow> addr \<Rightarrow> addr list \<Rightarrow> addr list option" where
  "fq_tree_insert m f [] = Some [f]"
| "fq_tree_insert m f (x # xs) =
     (let c = compare_flows m f x in
      if c < 0 then Some (f # x # xs)
      else if c = 0 then None
      else map_option (Cons x) (fq_tree_insert m f xs))"

definition get_current_time :: "PacketPassFairQueue \<Rightarrow> u64" where
  "get_current_time m =
     (case fq_sending_flow m of
        Some f \<Rightarrow> fq_time m f
      | None \<Rightarrow>
          (let (have', time) = (case fq_queued_tree m of
                 [] \<Rightarrow> (False, 0)
               | first_flow # _ \<Rightarrow> (True, fq_time m first_flow));
               (have', time) = (case fq_previous_flow m of
                 None \<Rightarrow> (have', time)
               | Some p \<Rightarrow> if \<not> have' \<or> fq_time m p < time then (True, fq_time m p) else (have', time))
           in if have' then time else 0))"

text \<open>The loop over the list of flows in increment_sent_flow.\<close>

fun fq_subtract_loop :: "u64 \<Rightarrow> addr \<Rightarrow> addr list \<Rightarrow> PacketPassFairQueue \<Rightarrow> PacketPassFairQueue option" where
  "fq_subtract_loop subtract flow [] m = Some m"
| "fq_subtract_loop subtract flow (someflow # fs) m =
     (if subtract > fq_time m someflow \<and> someflow \<noteq> flow
      then (if ff_is_queued (fq_flow m someflow) then None
            else fq_subtract_loop subtract flow fs (fq_upd someflow (\<lambda>r. r\<lparr>ff_time := 0\<rparr>) m))
      else fq_subtract_loop subtract flow fs
             (fq_upd someflow (\<lambda>r. r\<lparr>ff_time := ff_time r - subtract\<rparr>) m))"

definition increment_sent_flow :: "addr \<Rightarrow> u64 \<Rightarrow> PacketPassFairQueue \<Rightarrow> PacketPassFairQueue option" where
  "increment_sent_flow flow amount m =
     (if amount \<le> FAIRQUEUE_MAX_TIME \<and> \<not> ff_is_queued (fq_flow m flow) \<and> fq_sending_flow m = None then
        Option.bind
          (if amount > FAIRQUEUE_MAX_TIME - fq_time m flow then
             (case fq_queued_tree m of
                [] \<Rightarrow> fq_subtract_loop (fq_time m flow) flow (fq_flows_list m) m
              | first_flow # _ \<Rightarrow>
                  if ff_is_queued (fq_flow m first_flow)
                  then fq_subtract_loop (fq_time m first_flow) flow (fq_flows_list m) m
                  else None)
           else Some m)
          (\<lambda>m. Some (fq_upd flow (\<lambda>r. r\<lparr>ff_time := ff_time r + amount\<rparr>) m))
      else None)"

definition fq_schedule :: "PacketPassFairQueue \<Rightarrow> (PacketPassFairQueue \<times> fq_call list) option" where
  "fq_schedule m =
     (if fq_sending_flow m = None \<and> fq_previous_flow m = None \<and> \<not> fq_freeing m then
        (case fq_queued_tree m of
           [] \<Rightarrow> None
         | qflow # rest \<Rightarrow>
             if ff_is_queued (fq_flow m qflow) then
               (let m = m\<lparr>fq_queued_tree := rest\<rparr>;
                    m = fq_upd qflow (\<lambda>r. r\<lparr>ff_is_queued := False\<rparr>) m;
                    data = ff_data (fq_flow m qflow); data_len = ff_data_len (fq_flow m qflow)
                in Some (m\<lparr>fq_sending_flow := Some qflow, fq_sending_len := data_len\<rparr>,
                         [FQ_Send data data_len]))
             else None)
      else None)"

definition fq_schedule_job_handler ::
  "PacketPassFairQueue \<Rightarrow> (PacketPassFairQueue \<times> fq_call list) option" where
  "fq_schedule_job_handler m =
     (if fq_sending_flow m = None \<and> \<not> fq_freeing m then
        (let m = m\<lparr>fq_previous_flow := None\<rparr> in
         if fq_queued_tree m \<noteq> [] then fq_schedule m else Some (m, []))
      else None)"

definition fq_input_handler_send ::
  "addr \<Rightarrow> addr \<Rightarrow> int \<Rightarrow> PacketPassFairQueue \<Rightarrow> (PacketPassFairQueue \<times> fq_call list) option" where
  "fq_input_handler_send flow data data_len m =
     (if fq_sending_flow m \<noteq> Some flow \<and> \<not> ff_is_queued (fq_flow m flow) \<and> \<not> fq_freeing m then
        (let m = (if fq_previous_flow m = Some flow then m\<lparr>fq_previous_flow := None\<rparr>
               else (let t = get_current_time m in fq_upd flow (\<lambda>r. r\<lparr>ff_time := max (ff_time r) t\<rparr>) m));
             m = fq_upd flow (\<lambda>r. r\<lparr>ff_data := data, ff_data_len := data_len\<rparr>) m
         in case fq_tree_insert m flow (fq_queued_tree m) of
              None \<Rightarrow> None
            | Some tree \<Rightarrow>
                (let m = m\<lparr>fq_queued_tree := tree\<rparr>;
                     m = fq_upd flow (\<lambda>r. r\<lparr>ff_is_queued := True\<rparr>) m
                 in if fq_sending_flow m = None \<and> \<not> fq_schedule_job m then fq_schedule m
                    else Some (m, [])))
      else None)"

definition fq_output_handler_done ::
  "PacketPassFairQueue \<Rightarrow> (PacketPassFairQueue \<times> fq_call list) option" where
  "fq_output_handler_done m =
     (case fq_sending_flow m of
        None \<Rightarrow> None
      | Some flow \<Rightarrow>
          if fq_previous_flow m = None \<and> \<not> fq_schedule_job m \<and> \<not> fq_freeing m \<and>
             \<not> ff_is_queued (fq_flow m flow) then
            (let m = m\<lparr>fq_sending_flow := None, fq_previous_flow := Some flow\<rparr> in
             Option.bind (increment_sent_flow flow
                 (word_of_int (fq_packet_weight m) + word_of_int (fq_sending_len m)) m)
               (\<lambda>m. (let m = m\<lparr>fq_schedule_job := True\<rparr> in
                  if ff_handler_busy (fq_flow m flow)
                  then Some (fq_upd flow (\<lambda>r. r\<lparr>ff_handler_busy := False\<rparr>) m,
                             [FQ_Done flow, FQ_handler_busy flow])
                  else Some (m, [FQ_Done flow]))))
          else None)"

text \<open>
  The interface passed to Init is known by its MTU and whether it supports cancellation;
  \<open>m\<close> is the uninitialised object.
\<close>

definition PacketPassFairQueue_Init ::
  "PacketPassFairQueue \<Rightarrow> int \<Rightarrow> bool \<Rightarrow> bool \<Rightarrow> int \<Rightarrow> PacketPassFairQueue option" where
  "PacketPassFairQueue_Init m output_mtu output_has_cancel use_cancel packet_weight =
     (if packet_weight > 0 \<and> (\<not> use_cancel \<or> output_has_cancel) \<and>
         output_mtu \<le> uint FAIRQUEUE_MAX_TIME \<and> packet_weight \<le> uint FAIRQUEUE_MAX_TIME - output_mtu
      then Some (m\<lparr>fq_output_mtu := output_mtu, fq_use_cancel := use_cancel,
                   fq_packet_weight := packet_weight, fq_sending_flow := None,
                   fq_previous_flow := None, fq_queued_tree := [], fq_flows_list := [],
                   fq_freeing := False, fq_schedule_job := False\<rparr>)
      else None)"

definition PacketPassFairQueue_PrepareFree :: "PacketPassFairQueue \<Rightarrow> PacketPassFairQueue" where
  "PacketPassFairQueue_PrepareFree m = m\<lparr>fq_freeing := True\<rparr>"

definition PacketPassFairQueue_GetMTU :: "PacketPassFairQueue \<Rightarrow> int" where
  "PacketPassFairQueue_GetMTU m = fq_output_mtu m"

definition PacketPassFairQueueFlow_Init :: "addr \<Rightarrow> PacketPassFairQueue \<Rightarrow> PacketPassFairQueue option" where
  "PacketPassFairQueueFlow_Init flow m =
     (if \<not> fq_freeing m then
        (let m = fq_upd flow (\<lambda>r. r\<lparr>ff_handler_busy := False, ff_time := 0\<rparr>) m;
             m = m\<lparr>fq_flows_list := fq_flows_list m @ [flow]\<rparr>
         in Some (fq_upd flow (\<lambda>r. r\<lparr>ff_is_queued := False\<rparr>) m))
      else None)"

definition PacketPassFairQueueFlow_Free :: "addr \<Rightarrow> PacketPassFairQueue \<Rightarrow> PacketPassFairQueue option" where
  "PacketPassFairQueueFlow_Free flow m =
     (if fq_freeing m \<or> fq_sending_flow m \<noteq> Some flow then
        (let m = (if fq_sending_flow m = Some flow then m\<lparr>fq_sending_flow := None\<rparr> else m);
             m = (if fq_previous_flow m = Some flow then m\<lparr>fq_previous_flow := None\<rparr> else m);
             m = (if ff_is_queued (fq_flow m flow)
                  then m\<lparr>fq_queued_tree := remove1 flow (fq_queued_tree m)\<rparr> else m)
         in Some (m\<lparr>fq_flows_list := remove1 flow (fq_flows_list m)\<rparr>))
      else None)"

definition PacketPassFairQueueFlow_IsBusy :: "addr \<Rightarrow> PacketPassFairQueue \<Rightarrow> bool option" where
  "PacketPassFairQueueFlow_IsBusy flow m =
     (if \<not> fq_freeing m then Some (fq_sending_flow m = Some flow) else None)"

definition PacketPassFairQueueFlow_RequestCancel ::
  "addr \<Rightarrow> PacketPassFairQueue \<Rightarrow> (PacketPassFairQueue \<times> fq_call list) option" where
  "PacketPassFairQueueFlow_RequestCancel flow m =
     (if fq_sending_flow m = Some flow \<and> fq_use_cancel m \<and> \<not> fq_freeing m \<and> \<not> fq_schedule_job m
      then Some (m, [FQ_RequestCancel]) else None)"

definition PacketPassFairQueueFlow_SetBusyHandler ::
  "addr \<Rightarrow> bool \<Rightarrow> PacketPassFairQueue \<Rightarrow> PacketPassFairQueue option" where
  "PacketPassFairQueueFlow_SetBusyHandler flow handler m =
     (if fq_sending_flow m = Some flow \<and> \<not> fq_freeing m
      then Some (fq_upd flow (\<lambda>r. r\<lparr>ff_handler_busy := handler\<rparr>) m) else None)"


section \<open>The invariant\<close>

lemma compare_flows_less:
  "compare_flows m a b < 0 \<longleftrightarrow> fq_time m a < fq_time m b \<or> fq_time m a = fq_time m b \<and> a < b"
  "compare_flows m a b = 0 \<longleftrightarrow> a = b"
  by (auto simp: compare_flows_def Let_def)

text \<open>The comparator of the flows is a total order at every moment.\<close>

interpretation flow_order: comparator_contract "compare_flows m" "\<lambda>f. True" for m
proof -
  have "compare_flows m = (\<lambda>f1 f2. cmp_then (B_COMPARE (fq_time m f1) (fq_time m f2)) (B_COMPARE f1 f2))"
    by (simp add: fun_eq_iff compare_flows_def cmp_then_def Let_def)
  then show "comparator_contract (compare_flows m) (\<lambda>f. True)"
    using comparator_lex [OF B_COMPARE_contract B_COMPARE_contract, of "\<lambda>f. True" "fq_time m" "\<lambda>f. f"] by simp
qed

definition tree_sorted :: "PacketPassFairQueue \<Rightarrow> addr list \<Rightarrow> bool" where
  "tree_sorted m xs \<longleftrightarrow> sorted_wrt (\<lambda>a b. compare_flows m a b < 0) xs"

definition fq_inv :: "PacketPassFairQueue \<Rightarrow> bool" where
  "fq_inv m \<longleftrightarrow> distinct (fq_flows_list m) \<and> set (fq_queued_tree m) \<subseteq> set (fq_flows_list m) \<and>
     (\<forall>f \<in> set (fq_flows_list m). ff_is_queued (fq_flow m f) \<longleftrightarrow> f \<in> set (fq_queued_tree m)) \<and>
     tree_sorted m (fq_queued_tree m) \<and> \<not> fq_freeing m \<and>
     0 < fq_packet_weight m \<and> fq_packet_weight m + fq_output_mtu m < 2 ^ 64 \<and>
     (\<forall>f \<in> set (fq_queued_tree m). 0 \<le> ff_data_len (fq_flow m f) \<and> ff_data_len (fq_flow m f) \<le> fq_output_mtu m) \<and>
     (case fq_sending_flow m of
        Some f \<Rightarrow> f \<in> set (fq_flows_list m) \<and> f \<notin> set (fq_queued_tree m) \<and> fq_previous_flow m = None \<and>
          \<not> fq_schedule_job m \<and> 0 \<le> fq_sending_len m \<and> fq_sending_len m \<le> fq_output_mtu m \<and>
          (\<forall>q \<in> set (fq_queued_tree m). fq_time m f \<le> fq_time m q)
      | None \<Rightarrow> (fq_schedule_job m \<or> fq_queued_tree m = [] \<and> fq_previous_flow m = None) \<and>
          (case fq_previous_flow m of None \<Rightarrow> True
           | Some p \<Rightarrow> p \<in> set (fq_flows_list m) \<and> p \<notin> set (fq_queued_tree m)))"

lemma fq_upd_sel [simp]:
  "fq_flow (fq_upd f g m) = (fq_flow m)(f := g (fq_flow m f))"
  "fq_output_mtu (fq_upd f g m) = fq_output_mtu m" "fq_use_cancel (fq_upd f g m) = fq_use_cancel m"
  "fq_packet_weight (fq_upd f g m) = fq_packet_weight m"
  "fq_sending_flow (fq_upd f g m) = fq_sending_flow m" "fq_sending_len (fq_upd f g m) = fq_sending_len m"
  "fq_previous_flow (fq_upd f g m) = fq_previous_flow m"
  "fq_queued_tree (fq_upd f g m) = fq_queued_tree m" "fq_flows_list (fq_upd f g m) = fq_flows_list m"
  "fq_freeing (fq_upd f g m) = fq_freeing m" "fq_schedule_job (fq_upd f g m) = fq_schedule_job m"
  by (simp_all add: fq_upd_def)

lemma tree_sorted_cong:
  "(\<And>f. f \<in> set xs \<Longrightarrow> fq_time m f = fq_time m' f) \<Longrightarrow> tree_sorted m xs = tree_sorted m' xs"
  by (induction xs) (auto simp: tree_sorted_def compare_flows_less)

lemma tree_insert_Some:
  assumes "tree_sorted m xs" "f \<notin> set xs"
  obtains ys where "fq_tree_insert m f xs = Some ys" "set ys = insert f (set xs)" "tree_sorted m ys"
proof -
  have "\<exists>ys. fq_tree_insert m f xs = Some ys \<and> set ys = insert f (set xs) \<and> tree_sorted m ys"
    using assms
  proof (induction xs)
    case (Cons x xs)
    then obtain ys where ys: "fq_tree_insert m f xs = Some ys" "set ys = insert f (set xs)" "tree_sorted m ys"
      by (auto simp: tree_sorted_def)
    show ?case
    proof (cases "compare_flows m f x < 0")
      case True
      then show ?thesis using Cons.prems(1) by (fastforce simp: tree_sorted_def compare_flows_less)
    next
      case False
      then have "compare_flows m f x \<noteq> 0" "compare_flows m x f < 0"
        using Cons.prems(2) by (auto simp: compare_flows_less)
      then show ?thesis using False ys Cons.prems(1) by (auto simp: tree_sorted_def)
    qed
  qed (simp add: tree_sorted_def)
  then show ?thesis using that by blast
qed

text \<open>
  The subtraction loop: queued flows and the finished flow lose exactly \<open>subtract\<close>, idle
  flows lose what they have; nothing else changes.
\<close>

definition sub_flow :: "u64 \<Rightarrow> addr \<Rightarrow> addr set \<Rightarrow> PacketPassFairQueue \<Rightarrow> addr \<Rightarrow> PacketPassFairQueueFlow" where
  "sub_flow s flow fs m f = (if f \<in> fs then
     (fq_flow m f)\<lparr>ff_time := if s > fq_time m f \<and> f \<noteq> flow then 0 else fq_time m f - s\<rparr> else fq_flow m f)"

lemma sub_flow_step:
  "distinct (f # fs) \<Longrightarrow> t = (if s > fq_time m f \<and> f \<noteq> flow then 0 else fq_time m f - s) \<Longrightarrow> sub_flow s flow (set fs) (fq_upd f (\<lambda>r. r\<lparr>ff_time := t\<rparr>) m) = sub_flow s flow (set (f # fs)) m"
proof (rule ext)
  fix g
  assume d: "distinct (f # fs)" and t: "t = (if s > fq_time m f \<and> f \<noteq> flow then 0 else fq_time m f - s)"
  show "sub_flow s flow (set fs) (fq_upd f (\<lambda>r. r\<lparr>ff_time := t\<rparr>) m) g = sub_flow s flow (set (f # fs)) m g"
  proof (cases "g = f")
    case True
    with d t show ?thesis by (simp add: sub_flow_def)
  next
    case False
    then show ?thesis by (simp add: sub_flow_def)
  qed
qed

lemma subtract_loop:
  assumes "distinct fs" "\<And>f. f \<in> set fs \<Longrightarrow> ff_is_queued (fq_flow m f) \<Longrightarrow> s \<le> fq_time m f"
  shows "fq_subtract_loop s flow fs m = Some (m\<lparr>fq_flow := sub_flow s flow (set fs) m\<rparr>)"
  using assms
proof (induction fs arbitrary: m)
  case Nil
  then show ?case by (simp add: sub_flow_def)
next
  case (Cons f fs)
  define t where "t = (if s > fq_time m f \<and> f \<noteq> flow then 0 else fq_time m f - s)"
  let ?m = "fq_upd f (\<lambda>r. r\<lparr>ff_time := t\<rparr>) m"
  have nq: "s > fq_time m f \<and> f \<noteq> flow \<Longrightarrow> \<not> ff_is_queued (fq_flow m f)"
    using Cons.prems(2) [of f] by (meson leD list.set_intros(1))
  have u: "fq_upd f (\<lambda>r. r\<lparr>ff_time := ff_time r - s\<rparr>) m = fq_upd f (\<lambda>r. r\<lparr>ff_time := fq_time m f - s\<rparr>) m"
    by (simp add: fq_upd_def)
  have "fq_subtract_loop s flow (f # fs) m = fq_subtract_loop s flow fs ?m"
  proof (cases "s > fq_time m f \<and> f \<noteq> flow")
    case True
    then have t: "t = 0" by (simp add: t_def)
    show ?thesis unfolding t fq_subtract_loop.simps if_P [OF True] if_not_P [OF nq [OF True]] by (rule refl)
  next
    case False
    then have t: "t = fq_time m f - s" unfolding t_def by (rule if_not_P)
    show ?thesis unfolding t fq_subtract_loop.simps if_not_P [OF False] u by (rule refl)
  qed
  also have "\<dots> = Some (?m\<lparr>fq_flow := sub_flow s flow (set fs) ?m\<rparr>)"
  proof (rule Cons.IH)
    fix g assume g: "g \<in> set fs" "ff_is_queued (fq_flow ?m g)"
    then have "g \<noteq> f" using Cons.prems(1) by auto
    with g show "s \<le> fq_time ?m g" using Cons.prems(2) [of g] by simp
  qed (use Cons.prems(1) in simp)
  also have "?m\<lparr>fq_flow := sub_flow s flow (set fs) ?m\<rparr> = m\<lparr>fq_flow := sub_flow s flow (set (f # fs)) m\<rparr>"
  proof -
    have "sub_flow s flow (set fs) ?m = sub_flow s flow (set (f # fs)) m"
      by (rule sub_flow_step [OF Cons.prems(1) t_def])
    then show ?thesis by (simp add: fq_upd_def)
  qed
  finally show ?case .
qed

text \<open>Word arithmetic of the overflow case: the intermediate underflow cancels.\<close>

lemma unat_shift:
  fixes t s a :: u64
  assumes "unat s \<le> unat t + unat a" "unat t + unat a - unat s < 2 ^ 64"
  shows "unat (t - s + a) = unat t + unat a - unat s"
proof -
  have "t - s + a = word_of_nat (unat t + unat a - unat s)"
    using assms(1) by (simp add: of_nat_diff)
  then show ?thesis using assms(2) by (simp add: unat_of_nat)
qed

lemma unat_u64: "unat (x :: u64) < 2 ^ 64"
proof -
  have "unat x < 2 ^ LENGTH(64)" by (rule unsigned_less)
  then show ?thesis by simp
qed

lemma unat_max_sub: "unat (FAIRQUEUE_MAX_TIME - t) = 2 ^ 64 - 1 - unat t"
proof -
  have "unat FAIRQUEUE_MAX_TIME = 2 ^ 64 - 1"
    by (simp add: FAIRQUEUE_MAX_TIME_def unsigned_minus_1_eq_mask mask_eq_exp_minus_1)
  moreover have "t \<le> FAIRQUEUE_MAX_TIME" by (simp add: FAIRQUEUE_MAX_TIME_def)
  ultimately show ?thesis by (simp add: unat_sub)
qed

lemma increment_exact:
  assumes dist: "distinct (fq_flows_list m)" and sub: "set (fq_queued_tree m) \<subseteq> set (fq_flows_list m)"
    and q: "\<forall>f \<in> set (fq_flows_list m). ff_is_queued (fq_flow m f) \<longleftrightarrow> f \<in> set (fq_queued_tree m)"
    and sorted: "tree_sorted m (fq_queued_tree m)"
    and flow: "flow \<in> set (fq_flows_list m)" "flow \<notin> set (fq_queued_tree m)" "fq_sending_flow m = None"
    and least: "\<forall>x \<in> set (fq_queued_tree m). fq_time m flow \<le> fq_time m x"
  shows "\<exists>s time'. increment_sent_flow flow amount m =
      Some (m\<lparr>fq_flow := (\<lambda>f. (fq_flow m f)\<lparr>ff_time := time' f\<rparr>)\<rparr>) \<and>
    unat (time' flow) + s = unat (fq_time m flow) + unat amount \<and>
    (\<forall>f \<in> set (fq_queued_tree m). unat (time' f) + s = unat (fq_time m f)) \<and>
    (\<forall>f \<in> set (fq_flows_list m) - {flow}. unat (time' f) = unat (fq_time m f) - s)"
proof (cases "amount > FAIRQUEUE_MAX_TIME - fq_time m flow")
  case False
  have "unat amount \<le> 2 ^ 64 - 1 - unat (fq_time m flow)"
    using False unat_max_sub by (simp add: word_less_nat_alt)
  then have "unat (fq_time m flow) + unat amount < 2 ^ 64"
    using unat_u64 [of "fq_time m flow"] by simp
  then have sum: "unat (fq_time m flow + amount) = unat (fq_time m flow) + unat amount"
    using unat_shift [of 0 "fq_time m flow" amount] by simp
  have inc: "increment_sent_flow flow amount m =
      Some (m\<lparr>fq_flow := (\<lambda>f. (fq_flow m f)\<lparr>ff_time := ((fq_time m)(flow := fq_time m flow + amount)) f\<rparr>)\<rparr>)"
    using False q flow by (auto simp: increment_sent_flow_def FAIRQUEUE_MAX_TIME_def fq_upd_def fun_eq_iff)
  show ?thesis
    by (intro exI [of _ 0] exI [of _ "(fq_time m)(flow := fq_time m flow + amount)"])
      (use inc sum flow in auto)
next
  case True
  define s where "s = (case fq_queued_tree m of [] \<Rightarrow> fq_time m flow | x # _ \<Rightarrow> fq_time m x)"
  have s_le: "\<forall>x \<in> set (fq_queued_tree m). s \<le> fq_time m x"
    using sorted by (cases "fq_queued_tree m") (auto simp: s_def tree_sorted_def compare_flows_less)
  have s_ge: "fq_time m flow \<le> s" using least by (cases "fq_queued_tree m") (auto simp: s_def)
  let ?m = "m\<lparr>fq_flow := sub_flow s flow (set (fq_flows_list m)) m\<rparr>"
  have loop: "fq_subtract_loop s flow (fq_flows_list m) m = Some ?m"
    by (rule subtract_loop [OF dist]) (use q s_le in auto)
  define time' where "time' f = (if f \<in> set (fq_flows_list m)
      then (if f = flow then fq_time m f - s + amount
            else if s > fq_time m f then 0 else fq_time m f - s) else fq_time m f)" for f
  have inc: "increment_sent_flow flow amount m = Some (fq_upd flow (\<lambda>r. r\<lparr>ff_time := ff_time r + amount\<rparr>) ?m)"
    using True q flow loop sub
    by (cases "fq_queued_tree m") (auto simp: increment_sent_flow_def FAIRQUEUE_MAX_TIME_def s_def)
  also have "fq_upd flow (\<lambda>r. r\<lparr>ff_time := ff_time r + amount\<rparr>) ?m =
      m\<lparr>fq_flow := (\<lambda>f. (fq_flow m f)\<lparr>ff_time := time' f\<rparr>)\<rparr>"
    using flow(1) by (auto simp: fq_upd_def sub_flow_def time'_def fun_eq_iff)
  finally have eq: "increment_sent_flow flow amount m = Some (m\<lparr>fq_flow := (\<lambda>f. (fq_flow m f)\<lparr>ff_time := time' f\<rparr>)\<rparr>)" .
  have over: "2 ^ 64 \<le> unat (fq_time m flow) + unat amount"
    using True unat_max_sub [of "fq_time m flow"] by (simp add: word_less_nat_alt)
  have "unat (time' flow) = unat (fq_time m flow) + unat amount - unat s"
    using flow(1) over s_ge unat_u64 [of s] unat_u64 [of amount]
    by (simp add: time'_def, intro unat_shift) (simp_all add: word_le_nat_alt)
  moreover have "unat s \<le> unat (fq_time m flow) + unat amount" using over unat_u64 [of s] by simp
  moreover have "\<forall>f \<in> set (fq_queued_tree m). unat (time' f) + unat s = unat (fq_time m f)"
    using s_le sub flow(2) by (auto simp: time'_def unat_sub word_le_nat_alt word_less_nat_alt not_le)
  moreover have "\<forall>f \<in> set (fq_flows_list m) - {flow}. unat (time' f) = unat (fq_time m f) - unat s"
    by (auto simp: time'_def unat_sub word_less_nat_alt not_less word_le_nat_alt)
  ultimately show ?thesis using eq by (intro exI [of _ "unat s"] exI [of _ time']) auto
qed

section \<open>The queue with its flows and its output\<close>

text \<open>
  A history of the queue. A flow is created or freed (not while its packet is being sent),
  hands over a packet (\<open>FSend\<close>, not while its previous packet is outstanding, as its
  PacketPassInterface ensures), the output finishes (\<open>FOutput_done\<close>), or the event loop
  runs the schedule job. Events that cannot happen are skipped; \<open>None\<close> is a failed ASSERT.
  The ghost lists record, for the current life of each flow, the packets it handed over,
  the packets sent for it and the completions reported to it.
\<close>

datatype fq_event = FNew addr | FFree addr | FSend addr addr int | FOutput_done | FRun_job

record fq_env =
  fe_m :: PacketPassFairQueue
  fe_accepted :: "(addr \<times> addr \<times> int) list"
  fe_sent :: "(addr \<times> addr \<times> int) list"
  fe_finished :: "addr list"

fun fq_calls :: "fq_call list \<Rightarrow> fq_env \<Rightarrow> fq_env" where
  "fq_calls [] env = env"
| "fq_calls (FQ_Send d n # cs) env =
     fq_calls cs (case fq_sending_flow (fe_m env) of
       Some f \<Rightarrow> env\<lparr>fe_sent := fe_sent env @ [(f, d, n)]\<rparr> | None \<Rightarrow> env)"
| "fq_calls (FQ_Done f # cs) env = fq_calls cs (env\<lparr>fe_finished := fe_finished env @ [f]\<rparr>)"
| "fq_calls (_ # cs) env = fq_calls cs env"

fun fq_step :: "fq_event \<Rightarrow> fq_env \<Rightarrow> fq_env option" where
  "fq_step (FNew f) env =
     (if f \<in> set (fq_flows_list (fe_m env)) then Some env
      else map_option (\<lambda>m. \<lparr>fe_m = m, fe_accepted = filter (\<lambda>x. fst x \<noteq> f) (fe_accepted env),
          fe_sent = filter (\<lambda>x. fst x \<noteq> f) (fe_sent env),
          fe_finished = filter (\<lambda>g. g \<noteq> f) (fe_finished env)\<rparr>)
        (PacketPassFairQueueFlow_Init f (fe_m env)))"
| "fq_step (FFree f) env =
     (if f \<notin> set (fq_flows_list (fe_m env)) \<or> fq_sending_flow (fe_m env) = Some f then Some env
      else map_option (\<lambda>m. env\<lparr>fe_m := m\<rparr>) (PacketPassFairQueueFlow_Free f (fe_m env)))"
| "fq_step (FSend f d n) env =
     (if f \<in> set (fq_flows_list (fe_m env)) \<and> fq_sending_flow (fe_m env) \<noteq> Some f \<and>
         \<not> ff_is_queued (fq_flow (fe_m env) f) \<and> 0 \<le> n \<and> n \<le> fq_output_mtu (fe_m env)
      then map_option (\<lambda>(m, cs). fq_calls cs (env\<lparr>fe_accepted := fe_accepted env @ [(f, d, n)], fe_m := m\<rparr>))
        (fq_input_handler_send f d n (fe_m env))
      else Some env)"
| "fq_step FOutput_done env =
     (if fq_sending_flow (fe_m env) = None then Some env
      else map_option (\<lambda>(m, cs). fq_calls cs (env\<lparr>fe_m := m\<rparr>)) (fq_output_handler_done (fe_m env)))"
| "fq_step FRun_job env =
     (if fq_schedule_job (fe_m env)
      then map_option (\<lambda>(m, cs). fq_calls cs (env\<lparr>fe_m := m\<rparr>))
        (fq_schedule_job_handler ((fe_m env)\<lparr>fq_schedule_job := False\<rparr>))
      else Some env)"

fun fq_run :: "fq_event list \<Rightarrow> fq_env \<Rightarrow> fq_env option" where
  "fq_run [] env = Some env"
| "fq_run (e # es) env = Option.bind (fq_step e env) (fq_run es)"

definition fq_begin :: "PacketPassFairQueue \<Rightarrow> fq_env" where
  "fq_begin m = \<lparr>fe_m = m, fe_accepted = [], fe_sent = [], fe_finished = []\<rparr>"

text \<open>What is outstanding of a flow: its queued packet, and whether its packet is being sent.\<close>

definition fq_pending :: "PacketPassFairQueue \<Rightarrow> addr \<Rightarrow> (addr \<times> addr \<times> int) list" where
  "fq_pending m f = (if f \<in> set (fq_queued_tree m)
     then [(f, ff_data (fq_flow m f), ff_data_len (fq_flow m f))] else [])"

definition fq_ghost :: "fq_env \<Rightarrow> bool" where
  "fq_ghost env \<longleftrightarrow> (\<forall>f \<in> set (fq_flows_list (fe_m env)).
     filter (\<lambda>x. fst x = f) (fe_accepted env) =
       filter (\<lambda>x. fst x = f) (fe_sent env) @ fq_pending (fe_m env) f \<and>
     length (filter (\<lambda>x. fst x = f) (fe_sent env)) =
       length (filter (\<lambda>g. g = f) (fe_finished env)) + (if fq_sending_flow (fe_m env) = Some f then 1 else 0))"

lemma schedule_ok:
  assumes q: "fq_queued_tree m = f # rest"
    and inv: "distinct (fq_flows_list m)" "set (fq_queued_tree m) \<subseteq> set (fq_flows_list m)"
      "\<forall>f \<in> set (fq_flows_list m). ff_is_queued (fq_flow m f) \<longleftrightarrow> f \<in> set (fq_queued_tree m)"
      "tree_sorted m (fq_queued_tree m)" "\<not> fq_freeing m"
      "0 < fq_packet_weight m" "fq_packet_weight m + fq_output_mtu m < 2 ^ 64"
      "\<forall>f \<in> set (fq_queued_tree m). 0 \<le> ff_data_len (fq_flow m f) \<and> ff_data_len (fq_flow m f) \<le> fq_output_mtu m"
    and idle: "fq_sending_flow m = None" "fq_previous_flow m = None" "\<not> fq_schedule_job m"
  obtains m' where "fq_schedule m = Some (m', [FQ_Send (ff_data (fq_flow m f)) (ff_data_len (fq_flow m f))])"
    "fq_inv m'" "fq_sending_flow m' = Some f" "fq_queued_tree m' = rest" "fq_flows_list m' = fq_flows_list m"
    "\<And>g. ff_data (fq_flow m' g) = ff_data (fq_flow m g) \<and> ff_data_len (fq_flow m' g) = ff_data_len (fq_flow m g)"
proof
  let ?m = "(fq_upd f (\<lambda>r. r\<lparr>ff_is_queued := False\<rparr>) (m\<lparr>fq_queued_tree := rest\<rparr>))
      \<lparr>fq_sending_flow := Some f, fq_sending_len := ff_data_len (fq_flow m f)\<rparr>"
  have f: "f \<in> set (fq_flows_list m)" "f \<notin> set rest" using q inv(2,4) by (auto simp: tree_sorted_def compare_flows_less)
  show "fq_schedule m = Some (?m, [FQ_Send (ff_data (fq_flow m f)) (ff_data_len (fq_flow m f))])"
    using q inv f idle by (simp add: fq_schedule_def Let_def)
  have "tree_sorted ?m rest"
    using q inv(4) by (subst tree_sorted_cong [of _ _ m]) (auto simp: tree_sorted_def)
  moreover have "\<forall>x \<in> set rest. fq_time ?m f \<le> fq_time ?m x"
    using q inv(4) by (auto simp: tree_sorted_def compare_flows_less)
  moreover have "\<forall>g \<in> set (fq_flows_list m). ff_is_queued (fq_flow ?m g) \<longleftrightarrow> g \<in> set rest"
    using inv(3) q f by auto
  ultimately show "fq_inv ?m" using q inv f idle by (auto simp: fq_inv_def)
  show "fq_sending_flow ?m = Some f" "fq_queued_tree ?m = rest" "fq_flows_list ?m = fq_flows_list m" by simp_all
  show "ff_data (fq_flow ?m g) = ff_data (fq_flow m g) \<and> ff_data_len (fq_flow ?m g) = ff_data_len (fq_flow m g)" for g
    by simp
qed

lemma filter_other:
  "g \<noteq> f \<Longrightarrow> filter (\<lambda>x. h x = g) (filter (\<lambda>x. h x \<noteq> f) xs) = filter (\<lambda>x. h x = g) xs"
  "filter (\<lambda>x. h x = f) (filter (\<lambda>x. h x \<noteq> f) xs) = []"
  by (induction xs) auto

lemma step_New:
  assumes inv: "fq_inv (fe_m env)" and gh: "fq_ghost env"
  shows "\<exists>env'. fq_step (FNew f) env = Some env' \<and> fq_inv (fe_m env') \<and> fq_ghost env'"
proof (cases "f \<in> set (fq_flows_list (fe_m env))")
  case False
  define m where "m = fe_m env"
  let ?m = "(fq_upd f (\<lambda>r. r\<lparr>ff_is_queued := False\<rparr>)
      ((fq_upd f (\<lambda>r. r\<lparr>ff_handler_busy := False, ff_time := 0\<rparr>) m)\<lparr>fq_flows_list := fq_flows_list m @ [f]\<rparr>))"
  have f: "f \<notin> set (fq_queued_tree m)" "fq_sending_flow m \<noteq> Some f" "fq_previous_flow m \<noteq> Some f"
    using False inv by (auto simp: fq_inv_def m_def split: option.splits)
  let ?env = "\<lparr>fe_m = ?m, fe_accepted = filter (\<lambda>x. fst x \<noteq> f) (fe_accepted env),
          fe_sent = filter (\<lambda>x. fst x \<noteq> f) (fe_sent env),
          fe_finished = filter (\<lambda>g. g \<noteq> f) (fe_finished env)\<rparr>"
  have st: "fq_step (FNew f) env = Some ?env"
    using False inv by (simp add: PacketPassFairQueueFlow_Init_def Let_def m_def [symmetric] fq_inv_def)
  have "tree_sorted ?m (fq_queued_tree m) = tree_sorted m (fq_queued_tree m)"
    by (rule tree_sorted_cong) (use f in auto)
  then have "fq_inv ?m"
    using inv f False unfolding m_def [symmetric] fq_inv_def by (auto split: option.splits)
  moreover have "fq_ghost ?env"
    unfolding fq_ghost_def
  proof
    fix g assume g: "g \<in> set (fq_flows_list (fe_m ?env))"
    show "filter (\<lambda>x. fst x = g) (fe_accepted ?env) = filter (\<lambda>x. fst x = g) (fe_sent ?env) @ fq_pending (fe_m ?env) g \<and>
       length (filter (\<lambda>x. fst x = g) (fe_sent ?env)) =
       length (filter (\<lambda>h. h = g) (fe_finished ?env)) + (if fq_sending_flow (fe_m ?env) = Some g then 1 else 0)"
    proof (cases "g = f")
      case True
      then show ?thesis using f by (simp add: filter_other [where h = fst] filter_other [where h = "\<lambda>x. x"] fq_pending_def del: filter_filter)
    next
      case ne: False
      then have "g \<in> set (fq_flows_list m)" using g by simp
      then show ?thesis using gh ne
        by (simp add: fq_ghost_def m_def filter_other [where h = fst] filter_other [where h = "\<lambda>x. x"] fq_pending_def del: filter_filter)
    qed
  qed
  ultimately show ?thesis using st by simp
qed (use assms in simp)

lemma tree_sorted_remove1: "tree_sorted m xs \<Longrightarrow> tree_sorted m (remove1 f xs)"
  unfolding tree_sorted_def by (induction xs) (auto dest: subsetD [OF set_remove1_subset])

lemma tree_sorted_distinct: "tree_sorted m xs \<Longrightarrow> distinct xs"
  unfolding tree_sorted_def by (induction xs) (auto simp: compare_flows_less)

lemma step_Free:
  assumes inv: "fq_inv (fe_m env)" and gh: "fq_ghost env"
  shows "\<exists>env'. fq_step (FFree f) env = Some env' \<and> fq_inv (fe_m env') \<and> fq_ghost env'"
proof (cases "f \<notin> set (fq_flows_list (fe_m env)) \<or> fq_sending_flow (fe_m env) = Some f")
  case False
  define m where "m = fe_m env"
  let ?m = "m\<lparr>fq_previous_flow := (if fq_previous_flow m = Some f then None else fq_previous_flow m),
     fq_queued_tree := remove1 f (fq_queued_tree m), fq_flows_list := remove1 f (fq_flows_list m)\<rparr>"
  have st: "fq_step (FFree f) env = Some (env\<lparr>fe_m := ?m\<rparr>)"
    using False inv by (auto simp: PacketPassFairQueueFlow_Free_def Let_def m_def [symmetric] fq_inv_def remove1_idem)
  have "distinct (fq_queued_tree m)"
    using inv by (auto simp: fq_inv_def m_def intro: tree_sorted_distinct)
  then have q: "set (remove1 f (fq_queued_tree m)) = set (fq_queued_tree m) - {f}"
    and l: "set (remove1 f (fq_flows_list m)) = set (fq_flows_list m) - {f}"
    using inv by (simp_all add: fq_inv_def m_def)
  have s: "tree_sorted ?m (remove1 f (fq_queued_tree m))"
    using inv by (subst tree_sorted_cong [of _ _ m]) (auto simp: fq_inv_def m_def tree_sorted_remove1)
  have "fq_inv ?m"
    using inv s False q l unfolding m_def [symmetric] fq_inv_def
    by (auto split: option.splits)
  moreover have "fq_ghost (env\<lparr>fe_m := ?m\<rparr>)"
    using gh q l by (simp add: fq_ghost_def m_def fq_pending_def)
  ultimately show ?thesis using st by simp
qed (use assms in auto)

lemma fq_invD:
  assumes "fq_inv m"
  shows "distinct (fq_flows_list m)" "set (fq_queued_tree m) \<subseteq> set (fq_flows_list m)"
    "\<forall>f \<in> set (fq_flows_list m). ff_is_queued (fq_flow m f) \<longleftrightarrow> f \<in> set (fq_queued_tree m)"
    "tree_sorted m (fq_queued_tree m)" "\<not> fq_freeing m"
    "0 < fq_packet_weight m" "fq_packet_weight m + fq_output_mtu m < 2 ^ 64"
    "\<forall>f \<in> set (fq_queued_tree m). 0 \<le> ff_data_len (fq_flow m f) \<and> ff_data_len (fq_flow m f) \<le> fq_output_mtu m"
  using assms by (auto simp: fq_inv_def)

lemma fq_inv_sending:
  assumes "fq_inv m" "fq_sending_flow m = Some f"
  shows "f \<in> set (fq_flows_list m)" "f \<notin> set (fq_queued_tree m)" "fq_previous_flow m = None"
    "\<not> fq_schedule_job m" "0 \<le> fq_sending_len m" "fq_sending_len m \<le> fq_output_mtu m"
    "\<forall>q \<in> set (fq_queued_tree m). fq_time m f \<le> fq_time m q"
  using assms by (auto simp: fq_inv_def)

text \<open>A packet size plus the weight fits into 64 bits.\<close>

lemma fq_amount:
  assumes "fq_inv m" "fq_sending_flow m = Some f"
  shows "unat (word_of_int (fq_packet_weight m) + word_of_int (fq_sending_len m) :: u64) =
    nat (fq_packet_weight m + fq_sending_len m)"
proof -
  let ?n = "fq_packet_weight m + fq_sending_len m"
  have n: "0 \<le> ?n" "?n < 2 ^ 64"
    using fq_invD(6,7) [OF assms(1)] fq_inv_sending(5,6) [OF assms] by linarith+
  have "0 \<le> k \<Longrightarrow> k < 2 ^ 64 \<Longrightarrow> uint (word_of_int k :: u64) = k" for k
    by (simp add: uint_word_of_int)
  from this [OF n] have "unat (word_of_int ?n :: u64) = nat ?n" by (metis nat_uint_eq)
  then show ?thesis by (simp only: wi_hom_add)
qed

lemma output_done_exact:
  assumes inv: "fq_inv m" and send: "fq_sending_flow m = Some flow"
  shows "\<exists>s time' busy cs. fq_output_handler_done m =
      Some (m\<lparr>fq_flow := (\<lambda>f. (fq_flow m f)\<lparr>ff_time := time' f, ff_handler_busy := busy f\<rparr>),
        fq_sending_flow := None, fq_previous_flow := Some flow, fq_schedule_job := True\<rparr>, FQ_Done flow # cs) \<and>
    cs \<in> {[], [FQ_handler_busy flow]} \<and>
    int (unat (time' flow)) + int s = int (unat (fq_time m flow)) + (fq_packet_weight m + fq_sending_len m) \<and>
    (\<forall>f \<in> set (fq_queued_tree m). unat (time' f) + s = unat (fq_time m f)) \<and>
    (\<forall>f \<in> set (fq_flows_list m) - {flow}. unat (time' f) = unat (fq_time m f) - s)"
proof -
  note i = fq_invD [OF inv] and j = fq_inv_sending [OF inv send]
  let ?a = "word_of_int (fq_packet_weight m) + word_of_int (fq_sending_len m) :: u64"
  let ?m = "m\<lparr>fq_sending_flow := None, fq_previous_flow := Some flow\<rparr>"
  have srt: "tree_sorted ?m (fq_queued_tree ?m)" using i(4) tree_sorted_cong [of "fq_queued_tree m" ?m m] by simp
  obtain s time' where inc: "increment_sent_flow flow ?a ?m =
      Some (?m\<lparr>fq_flow := (\<lambda>f. (fq_flow ?m f)\<lparr>ff_time := time' f\<rparr>)\<rparr>)"
    and t: "unat (time' flow) + s = unat (fq_time m flow) + unat ?a"
      "\<forall>f \<in> set (fq_queued_tree m). unat (time' f) + s = unat (fq_time m f)"
      "\<forall>f \<in> set (fq_flows_list m) - {flow}. unat (time' f) = unat (fq_time m f) - s"
    using increment_exact [of ?m flow ?a, OF _ _ _ srt] i(1-3) j by auto
  have t': "int (unat (time' flow)) + int s = int (unat (fq_time m flow)) + (fq_packet_weight m + fq_sending_len m)"
  proof -
    have "int (unat (time' flow) + s) = int (unat (fq_time m flow)) + int (nat (fq_packet_weight m + fq_sending_len m))"
      unfolding t(1) fq_amount [OF inv send] by simp
    then show ?thesis using i(6) j(5) by simp
  qed
  let ?busy = "\<lambda>f. ff_handler_busy (fq_flow m f) \<and> f \<noteq> flow"
  have "fq_output_handler_done m =
      Some (m\<lparr>fq_flow := (\<lambda>f. (fq_flow m f)\<lparr>ff_time := time' f, ff_handler_busy := ?busy f\<rparr>),
        fq_sending_flow := None, fq_previous_flow := Some flow, fq_schedule_job := True\<rparr>,
        FQ_Done flow # (if ff_handler_busy (fq_flow m flow) then [FQ_handler_busy flow] else []))"
  proof -
    let ?F = "\<lambda>f. (fq_flow m f)\<lparr>ff_time := time' f\<rparr>"
    have nq: "\<not> ff_is_queued (fq_flow m flow)" using i(3) j(1,2) by simp
    have F: "(if ff_handler_busy (fq_flow m flow) then ?F(flow := (?F flow)\<lparr>ff_handler_busy := False\<rparr>) else ?F) =
        (\<lambda>f. (fq_flow m f)\<lparr>ff_time := time' f, ff_handler_busy := ?busy f\<rparr>)"
      by (intro ext PacketPassFairQueueFlow.equality) auto
    show ?thesis
      unfolding F [symmetric]
      using inc i(5) j(3,4) nq send by (simp add: fq_output_handler_done_def Let_def fq_upd_def)
  qed
  then show ?thesis using t' t(2,3)
    by (intro exI [of _ s] exI [of _ time'] exI [of _ ?busy]
        exI [of _ "if ff_handler_busy (fq_flow m flow) then [FQ_handler_busy flow] else []"]) simp
qed

lemma tree_sorted_shift:
  assumes "\<And>f. f \<in> set xs \<Longrightarrow> unat (fq_time m' f) + s = unat (fq_time m f)"
  shows "tree_sorted m' xs = tree_sorted m xs"
proof -
  have "compare_flows m' a b < 0 \<longleftrightarrow> compare_flows m a b < 0" if "a \<in> set xs" "b \<in> set xs" for a b
  proof -
    have "fq_time m' a < fq_time m' b \<longleftrightarrow> fq_time m a < fq_time m b"
      using assms [OF that(1)] assms [OF that(2)] unfolding word_less_nat_alt by linarith
    moreover have "fq_time m' a = fq_time m' b \<longleftrightarrow> fq_time m a = fq_time m b"
      using assms [OF that(1)] assms [OF that(2)] unfolding word_unat_eq_iff by linarith
    ultimately show ?thesis by (simp add: compare_flows_less)
  qed
  then show ?thesis unfolding tree_sorted_def by (induction xs) auto
qed

lemma step_Output_done:
  assumes inv: "fq_inv (fe_m env)" and gh: "fq_ghost env"
  shows "\<exists>env'. fq_step FOutput_done env = Some env' \<and> fq_inv (fe_m env') \<and> fq_ghost env'"
proof (cases "fq_sending_flow (fe_m env)")
  case (Some flow)
  define m where "m = fe_m env"
  note inv' = inv [folded m_def] and send = Some [folded m_def]
  note i = fq_invD [OF inv'] and j = fq_inv_sending [OF inv' send]
  from output_done_exact [OF inv' send] obtain s time' busy cs where
    out: "fq_output_handler_done m =
      Some (m\<lparr>fq_flow := (\<lambda>f. (fq_flow m f)\<lparr>ff_time := time' f, ff_handler_busy := busy f\<rparr>),
        fq_sending_flow := None, fq_previous_flow := Some flow, fq_schedule_job := True\<rparr>, FQ_Done flow # cs)"
    (is "_ = Some (?m, _)")
    and cs: "cs \<in> {[], [FQ_handler_busy flow]}"
    and t: "\<forall>f \<in> set (fq_queued_tree m). unat (time' f) + s = unat (fq_time m f)" by blast
  have srt: "tree_sorted ?m (fq_queued_tree m)"
    using i(4) t by (subst tree_sorted_shift [of _ _ s m]) auto
  have "fq_inv ?m" using i srt j by (simp add: fq_inv_def)
  moreover have st: "fq_step FOutput_done env =
      Some (env\<lparr>fe_m := ?m, fe_finished := fe_finished env @ [flow]\<rparr>)"
    using out cs Some by (auto simp: m_def)
  moreover have "fq_ghost (env\<lparr>fe_m := ?m, fe_finished := fe_finished env @ [flow]\<rparr>)"
    using gh send by (auto simp: fq_ghost_def m_def fq_pending_def)
  ultimately show ?thesis by simp
qed (use assms in simp)

lemma ghost_schedule:
  assumes "fq_ghost (env\<lparr>fe_m := m\<rparr>)" "fq_sending_flow m = None" "fq_queued_tree m = f # rest" "f \<notin> set rest"
    and "fq_sending_flow m' = Some f" "fq_queued_tree m' = rest" "fq_flows_list m' = fq_flows_list m"
    and "\<And>g. ff_data (fq_flow m' g) = ff_data (fq_flow m g) \<and> ff_data_len (fq_flow m' g) = ff_data_len (fq_flow m g)"
  shows "fq_ghost (fq_calls [FQ_Send (ff_data (fq_flow m f)) (ff_data_len (fq_flow m f))] (env\<lparr>fe_m := m'\<rparr>))"
  using assms by (auto simp: fq_ghost_def fq_pending_def)

lemma step_Run_job:
  assumes inv: "fq_inv (fe_m env)" and gh: "fq_ghost env"
  shows "\<exists>env'. fq_step FRun_job env = Some env' \<and> fq_inv (fe_m env') \<and> fq_ghost env'"
proof (cases "fq_schedule_job (fe_m env)")
  case True
  define m where "m = (fe_m env)\<lparr>fq_schedule_job := False, fq_previous_flow := None\<rparr>"
  have idle: "fq_sending_flow (fe_m env) = None" using True inv by (auto simp: fq_inv_def split: option.splits)
  note i = fq_invD [OF inv]
  have srt: "tree_sorted m (fq_queued_tree m)"
    using i(4) tree_sorted_cong [of "fq_queued_tree m" m "fe_m env"] by (simp add: m_def)
  have gh': "fq_ghost (env\<lparr>fe_m := m\<rparr>)" using gh by (simp add: fq_ghost_def m_def fq_pending_def)
  show ?thesis
  proof (cases "fq_queued_tree m")
    case Nil
    then have "fq_inv m" using i idle srt by (simp add: fq_inv_def m_def)
    moreover have "fq_step FRun_job env = Some (env\<lparr>fe_m := m\<rparr>)"
      using Nil True idle i(5) by (simp add: fq_schedule_job_handler_def m_def)
    ultimately show ?thesis using gh' by simp
  next
    case (Cons f rest)
    obtain m' where s: "fq_schedule m = Some (m', [FQ_Send (ff_data (fq_flow m f)) (ff_data_len (fq_flow m f))])"
      "fq_inv m'" "fq_sending_flow m' = Some f" "fq_queued_tree m' = rest" "fq_flows_list m' = fq_flows_list m"
      "\<And>g. ff_data (fq_flow m' g) = ff_data (fq_flow m g) \<and> ff_data_len (fq_flow m' g) = ff_data_len (fq_flow m g)"
      by (rule schedule_ok [OF Cons]) (use i srt idle in \<open>simp_all add: m_def\<close>)
    have nf: "f \<notin> set rest" using tree_sorted_distinct [OF srt] Cons by simp
    have "fq_step FRun_job env =
        Some (fq_calls [FQ_Send (ff_data (fq_flow m f)) (ff_data_len (fq_flow m f))] (env\<lparr>fe_m := m'\<rparr>))"
      using s(1) Cons True idle i(5) by (simp add: fq_schedule_job_handler_def m_def)
    moreover have "fq_ghost (fq_calls [FQ_Send (ff_data (fq_flow m f)) (ff_data_len (fq_flow m f))] (env\<lparr>fe_m := m'\<rparr>))"
      by (rule ghost_schedule [OF gh' _ Cons nf s(3-6)]) (simp add: m_def idle)
    ultimately show ?thesis using s(2,3) by simp
  qed
qed (use assms in simp)

lemma current_time_sending: "fq_sending_flow m = Some f \<Longrightarrow> get_current_time m = fq_time m f"
  by (simp add: get_current_time_def)

lemma step_Send:
  assumes inv: "fq_inv (fe_m env)" and gh: "fq_ghost env"
  shows "\<exists>env'. fq_step (FSend f d n) env = Some env' \<and> fq_inv (fe_m env') \<and> fq_ghost env'"
proof (cases "f \<in> set (fq_flows_list (fe_m env)) \<and> fq_sending_flow (fe_m env) \<noteq> Some f \<and>
         \<not> ff_is_queued (fq_flow (fe_m env) f) \<and> 0 \<le> n \<and> n \<le> fq_output_mtu (fe_m env)")
  case True
  define m where "m = fe_m env"
  note c = True [folded m_def]
  note i = fq_invD [OF inv [folded m_def]]
  define m1 where "m1 = (if fq_previous_flow m = Some f then m\<lparr>fq_previous_flow := None\<rparr>
     else (let t = get_current_time m in fq_upd f (\<lambda>r. r\<lparr>ff_time := max (ff_time r) t\<rparr>) m))"
  define m2 where "m2 = fq_upd f (\<lambda>r. r\<lparr>ff_data := d, ff_data_len := n\<rparr>) m1"
  have fq: "f \<notin> set (fq_queued_tree m)" using c i(3) by blast
  have same: "fq_queued_tree m2 = fq_queued_tree m" "fq_flows_list m2 = fq_flows_list m"
    "fq_sending_flow m2 = fq_sending_flow m" "fq_schedule_job m2 = fq_schedule_job m" "fq_freeing m2 = fq_freeing m"
    "fq_output_mtu m2 = fq_output_mtu m" "fq_packet_weight m2 = fq_packet_weight m" "fq_sending_len m2 = fq_sending_len m"
    and prev: "fq_previous_flow m2 = (if fq_previous_flow m = Some f then None else fq_previous_flow m)"
    and flow: "\<And>g. g \<noteq> f \<Longrightarrow> fq_flow m2 g = fq_flow m g" "ff_is_queued (fq_flow m2 f) = ff_is_queued (fq_flow m f)"
      "ff_data (fq_flow m2 f) = d" "ff_data_len (fq_flow m2 f) = n"
    by (simp_all add: m2_def m1_def Let_def)
  have srt: "tree_sorted m2 (fq_queued_tree m2)"
    using i(4) tree_sorted_cong [of "fq_queued_tree m" m2 m] flow(1) fq same(1) by (metis (full_types))
  obtain tree where tr: "fq_tree_insert m2 f (fq_queued_tree m2) = Some tree"
    "set tree = insert f (set (fq_queued_tree m))" "tree_sorted m2 tree"
    using tree_insert_Some [OF srt] fq same(1) by metis
  define m3 where "m3 = fq_upd f (\<lambda>r. r\<lparr>ff_is_queued := True\<rparr>) (m2\<lparr>fq_queued_tree := tree\<rparr>)"
  have same3: "fq_queued_tree m3 = tree" "fq_flows_list m3 = fq_flows_list m"
    "fq_sending_flow m3 = fq_sending_flow m" "fq_schedule_job m3 = fq_schedule_job m" "fq_freeing m3 = fq_freeing m"
    "fq_output_mtu m3 = fq_output_mtu m" "fq_packet_weight m3 = fq_packet_weight m" "fq_sending_len m3 = fq_sending_len m"
    "fq_previous_flow m3 = fq_previous_flow m2"
    and flow3: "\<And>g. g \<noteq> f \<Longrightarrow> fq_flow m3 g = fq_flow m g" "ff_is_queued (fq_flow m3 f)"
      "ff_data (fq_flow m3 f) = d" "ff_data_len (fq_flow m3 f) = n" "fq_time m3 f = fq_time m2 f"
    by (simp_all add: m3_def same flow)
  have srt3: "tree_sorted m3 tree"
    using tr(3) by (subst tree_sorted_cong [of _ _ m2]) (simp_all add: m3_def)
  have hs: "fq_input_handler_send f d n m =
      (if fq_sending_flow m = None \<and> \<not> fq_schedule_job m then fq_schedule m3 else Some (m3, []))"
  proof -
    have "fq_input_handler_send f d n m = (case fq_tree_insert m2 f (fq_queued_tree m2) of
        None \<Rightarrow> None
      | Some tree \<Rightarrow> (let m = fq_upd f (\<lambda>r. r\<lparr>ff_is_queued := True\<rparr>) (m2\<lparr>fq_queued_tree := tree\<rparr>)
           in if fq_sending_flow m = None \<and> \<not> fq_schedule_job m then fq_schedule m else Some (m, [])))"
      using c i(5) unfolding fq_input_handler_send_def m2_def m1_def by (simp only: Let_def if_True simp_thms)
    then show ?thesis using same3(3,4) by (simp add: tr(1) m3_def [symmetric] Let_def)
  qed
  have q3: "\<forall>g \<in> set (fq_flows_list m3). ff_is_queued (fq_flow m3 g) \<longleftrightarrow> g \<in> set tree"
    using i(3) tr(2) flow3(1,2) same3(2) by (metis insert_iff)
  have d3: "\<forall>g \<in> set tree. 0 \<le> ff_data_len (fq_flow m3 g) \<and> ff_data_len (fq_flow m3 g) \<le> fq_output_mtu m3"
    using i(8) c flow3(1,4) tr(2) same3(6) by (metis insert_iff)
  have sub3: "set tree \<subseteq> set (fq_flows_list m3)" using i(2) tr(2) c same3(2) by auto
  let ?env = "env\<lparr>fe_accepted := fe_accepted env @ [(f, d, n)]\<rparr>"
  have gh3: "fq_ghost (?env\<lparr>fe_m := m3\<rparr>)"
    unfolding fq_ghost_def
  proof
    fix g assume g: "g \<in> set (fq_flows_list (fe_m (?env\<lparr>fe_m := m3\<rparr>)))"
    then show "filter (\<lambda>x. fst x = g) (fe_accepted (?env\<lparr>fe_m := m3\<rparr>)) =
        filter (\<lambda>x. fst x = g) (fe_sent (?env\<lparr>fe_m := m3\<rparr>)) @ fq_pending (fe_m (?env\<lparr>fe_m := m3\<rparr>)) g \<and>
       length (filter (\<lambda>x. fst x = g) (fe_sent (?env\<lparr>fe_m := m3\<rparr>))) =
       length (filter (\<lambda>h. h = g) (fe_finished (?env\<lparr>fe_m := m3\<rparr>))) +
       (if fq_sending_flow (fe_m (?env\<lparr>fe_m := m3\<rparr>)) = Some g then 1 else 0)"
      using gh tr(2) fq flow3 same3 by (cases "g = f") (auto simp: fq_ghost_def m_def [symmetric] fq_pending_def)
  qed
  show ?thesis
  proof (cases "fq_sending_flow m = None \<and> \<not> fq_schedule_job m")
    case idle: True
    then have e: "fq_queued_tree m = []" "fq_previous_flow m = None"
      using inv by (auto simp: fq_inv_def m_def)
    then have tree: "tree = [f]" using tr(1) same(1) by simp
    obtain m' where s: "fq_schedule m3 = Some (m', [FQ_Send (ff_data (fq_flow m3 f)) (ff_data_len (fq_flow m3 f))])"
      "fq_inv m'" "fq_sending_flow m' = Some f" "fq_queued_tree m' = []" "fq_flows_list m' = fq_flows_list m3"
      "\<And>g. ff_data (fq_flow m' g) = ff_data (fq_flow m3 g) \<and> ff_data_len (fq_flow m' g) = ff_data_len (fq_flow m3 g)"
      by (rule schedule_ok [of m3 f "[]"]) (use i same3 tree e idle prev srt3 q3 d3 sub3 in \<open>simp_all\<close>)
    have "fq_step (FSend f d n) env =
        Some (fq_calls [FQ_Send (ff_data (fq_flow m3 f)) (ff_data_len (fq_flow m3 f))] (?env\<lparr>fe_m := m'\<rparr>))"
      using True hs idle s(1) by (simp add: m_def)
    moreover have "fq_ghost (fq_calls [FQ_Send (ff_data (fq_flow m3 f)) (ff_data_len (fq_flow m3 f))] (?env\<lparr>fe_m := m'\<rparr>))"
      by (rule ghost_schedule [OF gh3 _ _ _ s(3-6)]) (use same3 idle tree in simp_all)
    ultimately show ?thesis using s(2,3) by simp
  next
    case busy: False
    have least: "fq_time m3 f \<ge> fq_time m3 g" if "fq_sending_flow m = Some g" for g
    proof -
      have "fq_previous_flow m = None" "g \<noteq> f"
        using that c inv by (auto simp: fq_inv_def m_def)
      then show ?thesis using flow3(1,5) by (simp add: m2_def m1_def current_time_sending [OF that] Let_def)
    qed
    have "fq_inv m3"
    proof (cases "fq_sending_flow m")
      case None
      then show ?thesis using inv busy i same3 srt3 q3 d3 sub3 prev tr(2)
        by (auto simp: fq_inv_def m_def split: option.splits)
    next
      case (Some g)
      have g: "g \<noteq> f" using Some c by auto
      note j = fq_inv_sending [OF inv [folded m_def] Some]
      have "\<forall>q \<in> set tree. fq_time m3 g \<le> fq_time m3 q"
        using j(2,7) tr(2) flow3(1) g least [OF Some] by (metis insert_iff)
      then show ?thesis using i same3 srt3 q3 d3 sub3 prev tr(2) j Some g
        by (simp add: fq_inv_def)
    qed
    moreover have "fq_step (FSend f d n) env = Some (?env\<lparr>fe_m := m3\<rparr>)"
      using True hs [unfolded if_not_P [OF busy]] by (simp add: m_def)
    ultimately show ?thesis using gh3 by simp
  qed
qed (use assms in \<open>simp only: fq_step.simps if_False simp_thms\<close>, blast)

lemma fq_run_ok:
  "fq_inv (fe_m env) \<Longrightarrow> fq_ghost env \<Longrightarrow> \<exists>env'. fq_run es env = Some env' \<and> fq_inv (fe_m env') \<and> fq_ghost env'"
proof (induction es arbitrary: env)
  case (Cons e es)
  obtain env1 where "fq_step e env = Some env1" "fq_inv (fe_m env1)" "fq_ghost env1"
    using step_New [OF Cons.prems] step_Free [OF Cons.prems] step_Send [OF Cons.prems]
      step_Output_done [OF Cons.prems] step_Run_job [OF Cons.prems]
    by (cases e) blast+
  with Cons.IH show ?case by simp
qed simp

lemma fq_begin_ok:
  assumes "PacketPassFairQueue_Init m0 mtu hc uc weight = Some m" "0 \<le> mtu"
  shows "fq_inv (fe_m (fq_begin m))" "fq_ghost (fq_begin m)"
  using assms by (auto simp: PacketPassFairQueue_Init_def fq_begin_def fq_inv_def fq_ghost_def tree_sorted_def
      FAIRQUEUE_MAX_TIME_def unsigned_minus_1_eq_mask mask_eq_exp_minus_1 split: if_splits)

text \<open>
  C4. The fair queue never fails an ASSERT, whatever flows come and go and however packets,
  completions and the schedule job interleave; and at every moment, for every flow: the
  packets the flow handed over are those sent for it, in order, followed by the one still
  queued; the completions reported to it match the packets sent, up to the one being sent.
  While any packet is queued, the output is busy or the schedule job is set, and a packet
  being sent belongs to a flow whose virtual time is not above that of any queued flow.
\<close>

theorem PacketPassFairQueue_serves_flows:
  assumes "PacketPassFairQueue_Init m0 mtu has_cancel use_cancel weight = Some m" "0 \<le> mtu"
  shows "\<exists>env. fq_run es (fq_begin m) = Some env \<and>
    (\<forall>f \<in> set (fq_flows_list (fe_m env)).
       filter (\<lambda>x. fst x = f) (fe_accepted env) =
         filter (\<lambda>x. fst x = f) (fe_sent env) @ fq_pending (fe_m env) f \<and>
       length (filter (\<lambda>x. fst x = f) (fe_sent env)) =
         length (filter (\<lambda>g. g = f) (fe_finished env)) + (if fq_sending_flow (fe_m env) = Some f then 1 else 0)) \<and>
    (fq_queued_tree (fe_m env) \<noteq> [] \<longrightarrow> fq_sending_flow (fe_m env) \<noteq> None \<or> fq_schedule_job (fe_m env)) \<and>
    (\<forall>f q. fq_sending_flow (fe_m env) = Some f \<longrightarrow> q \<in> set (fq_queued_tree (fe_m env)) \<longrightarrow>
       fq_time (fe_m env) f \<le> fq_time (fe_m env) q)"
proof -
  obtain env where run: "fq_run es (fq_begin m) = Some env" and inv: "fq_inv (fe_m env)" and gh: "fq_ghost env"
    using fq_run_ok fq_begin_ok [OF assms] by blast
  have w: "fq_queued_tree (fe_m env) \<noteq> [] \<longrightarrow> fq_sending_flow (fe_m env) \<noteq> None \<or> fq_schedule_job (fe_m env)"
    using inv by (auto simp: fq_inv_def split: option.splits)
  show ?thesis
    by (intro exI [of _ env] conjI run w) (use gh fq_inv_sending(7) [OF inv] in \<open>auto simp: fq_ghost_def\<close>)
qed

text \<open>
  C5. Virtual times are exact although they are 64-bit words. When the packet of a flow is
  finished, in any reachable state, there is an amount \<open>s\<close> such that the finished flow's
  time becomes its old time plus weight and packet length minus \<open>s\<close>, every queued flow's
  time is reduced by \<open>s\<close>, as integers and without wrap-around, and idle flows' times are
  reduced by \<open>s\<close> but not below zero. So the order of the queued flows and their distances
  to the finished flow are those of unbounded virtual time.
\<close>

theorem PacketPassFairQueue_time_exact:
  assumes "PacketPassFairQueue_Init m0 mtu has_cancel use_cancel weight = Some m00" "0 \<le> mtu"
    and "fq_run es (fq_begin m00) = Some env" "m = fe_m env"
    and "fq_sending_flow m = Some flow" "fq_output_handler_done m = Some (m', cs)"
  shows "\<exists>s. int (unat (fq_time m' flow)) + int s =
      int (unat (fq_time m flow)) + (fq_packet_weight m + fq_sending_len m) \<and>
    (\<forall>f \<in> set (fq_queued_tree m). unat (fq_time m' f) + s = unat (fq_time m f)) \<and>
    (\<forall>f \<in> set (fq_flows_list m) - {flow}. unat (fq_time m' f) = unat (fq_time m f) - s)"
proof -
  have "fq_inv m"
    using fq_run_ok [OF fq_begin_ok [OF assms(1,2)], of es] assms(3,4) by auto
  from output_done_exact [OF this assms(5)] assms(6) show ?thesis by auto
qed

definition fq_example :: PacketPassFairQueue where
  "fq_example = \<lparr>fq_flow = (\<lambda>_. \<lparr>ff_handler_busy = False, ff_time = 0, ff_is_queued = False, ff_data = 0, ff_data_len = 0\<rparr>),
     fq_output_mtu = 1500, fq_use_cancel = False, fq_packet_weight = 1, fq_sending_flow = None,
     fq_sending_len = 0, fq_previous_flow = None, fq_queued_tree = [], fq_flows_list = [],
     fq_freeing = False, fq_schedule_job = False\<rparr>"

lemma fq_example_Init: "PacketPassFairQueue_Init fq_example 1500 False False 1 = Some fq_example"
  by (simp add: PacketPassFairQueue_Init_def fq_example_def FAIRQUEUE_MAX_TIME_def
      unsigned_minus_1_eq_mask mask_eq_exp_minus_1)

lemmas fq_eval = fq_begin_def fq_example_def PacketPassFairQueueFlow_Init_def fq_input_handler_send_def
  fq_schedule_def fq_output_handler_done_def fq_schedule_job_handler_def increment_sent_flow_def
  FAIRQUEUE_MAX_TIME_def get_current_time_def compare_flows_def B_COMPARE_def fq_upd_def Let_def

text \<open>Two flows that are queued with equal times when the schedule job runs.\<close>

theorem PacketPassFairQueue_serves_flows_witness:
  "\<exists>env. fq_run [FNew 1, FNew 2, FSend 1 100 60, FOutput_done, FSend 1 101 60, FSend 2 200 10, FRun_job]
       (fq_begin fq_example) = Some env \<and>
     filter (\<lambda>x. fst x = 1) (fe_accepted env) =
       filter (\<lambda>x. fst x = 1) (fe_sent env) @ fq_pending (fe_m env) 1 \<and>
     fe_sent env = [(1, 100, 60), (1, 101, 60)]"
proof -
  let ?es = "[FNew 1, FNew 2, FSend 1 100 60, FOutput_done, FSend 1 101 60, FSend 2 200 10, FRun_job]"
  define x where "x = fq_run ?es (fq_begin fq_example)"
  have c: "map_option (\<lambda>e. (fe_sent e, fq_flows_list (fe_m e))) x = Some ([(1, 100, 60), (1, 101, 60)], [1, 2])"
    unfolding x_def by (simp add: fq_eval)
  from PacketPassFairQueue_serves_flows [OF fq_example_Init, of ?es, folded x_def]
  obtain env where e: "x = Some env" and p: "\<forall>f \<in> set (fq_flows_list (fe_m env)).
       filter (\<lambda>x. fst x = f) (fe_accepted env) =
         filter (\<lambda>x. fst x = f) (fe_sent env) @ fq_pending (fe_m env) f"
    by auto
  from c e have s: "fe_sent env = [(1, 100, 60), (1, 101, 60)]" "1 \<in> set (fq_flows_list (fe_m env))" by auto
  with e [unfolded x_def] p show ?thesis by (intro exI [of _ env] conjI) auto
qed

theorem PacketPassFairQueue_time_exact_witness:
  "\<exists>env m' cs s. fq_run [FNew 1, FNew 2, FSend 1 100 60, FSend 2 200 10] (fq_begin fq_example) = Some env \<and>
     fq_output_handler_done (fe_m env) = Some (m', cs) \<and>
     int (unat (fq_time m' 1)) + int s = int (unat (fq_time (fe_m env) 1)) +
       (fq_packet_weight (fe_m env) + fq_sending_len (fe_m env))"
proof -
  let ?es = "[FNew 1, FNew 2, FSend 1 100 60, FSend 2 200 10]"
  define x where "x = fq_run ?es (fq_begin fq_example)"
  have "\<exists>env r. x = Some env \<and> fq_sending_flow (fe_m env) = Some 1 \<and> fq_output_handler_done (fe_m env) = Some r"
    unfolding x_def by (simp add: fq_eval)
  then obtain env m' cs where e: "x = Some env" and s: "fq_sending_flow (fe_m env) = Some 1"
    and h: "fq_output_handler_done (fe_m env) = Some (m', cs)" by auto
  from PacketPassFairQueue_time_exact [OF fq_example_Init _ e [unfolded x_def] refl s h]
  obtain k where "int (unat (fq_time m' 1)) + int k = int (unat (fq_time (fe_m env) 1)) +
       (fq_packet_weight (fe_m env) + fq_sending_len (fe_m env))" by auto
  with e [unfolded x_def] h show ?thesis by (intro exI conjI)
qed

end
