(* ===== verification/Badvpn_BSize.thy ===== *)
theory Badvpn_BSize
  imports Prelude
begin

text \<open>
  misc/bsize.h: sizes with an overflow mark, for a \<open>size_t\<close> of 32 bits as on the targets the
  application is built for.
\<close>

record bsize =
  is_overflow :: bool
  bsize_value :: u32

definition SIZE_MAX :: u32 where
  "SIZE_MAX = -1"

definition bsize_fromsize :: "u32 \<Rightarrow> bsize" where
  "bsize_fromsize v = \<lparr>is_overflow = False, bsize_value = v\<rparr>"

definition bsize_fromint :: "32 word \<Rightarrow> bsize" where
  "bsize_fromint v = \<lparr>is_overflow = sint v < 0 \<or> v > SIZE_MAX, bsize_value = v\<rparr>"

definition bsize_overflow :: bsize where
  "bsize_overflow = \<lparr>is_overflow = True, bsize_value = 0\<rparr>"

definition bsize_tosize :: "bsize \<Rightarrow> u32 option" where
  "bsize_tosize s = (if is_overflow s then None else Some (bsize_value s))"

definition bsize_toint :: "bsize \<Rightarrow> int option" where
  "bsize_toint s = (if is_overflow s \<or> bsize_value s > 0x7fffffff then None else Some (sint (bsize_value s)))"

definition bsize_add :: "bsize \<Rightarrow> bsize \<Rightarrow> bsize" where
  "bsize_add s1 s2 =
     \<lparr>is_overflow = is_overflow s1 \<or> is_overflow s2 \<or> bsize_value s2 > SIZE_MAX - bsize_value s1,
      bsize_value = bsize_value s1 + bsize_value s2\<rparr>"

definition bsize_max :: "bsize \<Rightarrow> bsize \<Rightarrow> bsize" where
  "bsize_max s1 s2 =
     \<lparr>is_overflow = is_overflow s1 \<or> is_overflow s2,
      bsize_value = of_bool (bsize_value s1 > bsize_value s2) * bsize_value s1 +
        of_bool (bsize_value s1 \<le> bsize_value s2) * bsize_value s2\<rparr>"

definition bsize_mul :: "bsize \<Rightarrow> bsize \<Rightarrow> bsize" where
  "bsize_mul s1 s2 =
     \<lparr>is_overflow = is_overflow s1 \<or> is_overflow s2 \<or>
        (bsize_value s1 \<noteq> 0 \<and> bsize_value s2 > SIZE_MAX div bsize_value s1),
      bsize_value = bsize_value s1 * bsize_value s2\<rparr>"

section \<open>Overflow is exact\<close>

text \<open>The natural number a size stands for; overflow is sticky.\<close>

definition bsize_nat :: "bsize \<Rightarrow> nat option" where
  "bsize_nat s = (if is_overflow s then None else Some (unat (bsize_value s)))"

fun bsize_lift :: "(nat \<Rightarrow> nat \<Rightarrow> nat) \<Rightarrow> nat option \<Rightarrow> nat option \<Rightarrow> nat option" where
  "bsize_lift f (Some m) (Some n) = (if f m n < 2 ^ 32 then Some (f m n) else None)"
| "bsize_lift f _ _ = None"

lemma unat_less_u32: "unat (v :: u32) < 2 ^ 32"
  using unsigned_less [of v] by simp

lemma unat_SIZE_MAX: "unat SIZE_MAX = 2 ^ 32 - 1"
  by (simp add: SIZE_MAX_def unsigned_minus_1_eq_mask mask_eq_exp_minus_1)

lemma bsize_add_over:
  fixes x y :: u32
  shows "(y > SIZE_MAX - x) = (2 ^ 32 \<le> unat x + unat y)" "unat x + unat y < 2 ^ 32 \<Longrightarrow> unat (x + y) = unat x + unat y"
proof -
  have "x \<le> SIZE_MAX" unfolding SIZE_MAX_def by (rule word_order.extremum)
  then have "unat (SIZE_MAX - x) = 2 ^ 32 - 1 - unat x" by (simp only: unat_sub unat_SIZE_MAX)
  then show "(y > SIZE_MAX - x) = (2 ^ 32 \<le> unat x + unat y)"
    using unat_less_u32 [of x] unat_less_u32 [of y] by (simp add: word_less_nat_alt) linarith
  show "unat x + unat y < 2 ^ 32 \<Longrightarrow> unat (x + y) = unat x + unat y"
    by (simp add: unat_word_ariths)
qed

lemma bsize_mul_over:
  fixes x y :: u32
  shows "(x \<noteq> 0 \<and> y > SIZE_MAX div x) = (2 ^ 32 \<le> unat x * unat y)"
    "unat x * unat y < 2 ^ 32 \<Longrightarrow> unat (x * y) = unat x * unat y"
proof -
  show "(x \<noteq> 0 \<and> y > SIZE_MAX div x) = (2 ^ 32 \<le> unat x * unat y)"
  proof (cases "x = 0")
    case False
    then have x: "0 < unat x" by (simp add: unat_gt_0)
    have "(y > SIZE_MAX div x) = ((2 ^ 32 - 1) div unat x < unat y)"
      by (simp only: word_less_nat_alt unat_div unat_SIZE_MAX)
    also have "\<dots> = (2 ^ 32 - 1 < unat y * unat x)" using x by (rule div_less_iff_less_mult)
    also have "\<dots> = (2 ^ 32 \<le> unat x * unat y)" by (simp add: mult.commute Suc_le_eq [symmetric])
    finally show ?thesis using False by simp
  qed simp
  show "unat x * unat y < 2 ^ 32 \<Longrightarrow> unat (x * y) = unat x * unat y"
    by (simp add: unat_word_ariths)
qed

lemma sint_small: "unat (w :: u32) < 2 ^ 31 \<Longrightarrow> sint w = int (unat w)"
proof -
  assume "unat w < 2 ^ 31"
  then have "int (unat w) < int (2 ^ 31)" by (simp only: of_nat_less_iff)
  then have "uint w < 2 ^ 31" by simp
  then have "signed_take_bit 31 (uint w) = uint w"
    by (intro signed_take_bit_int_eq_self) (simp_all add: order_trans [of _ 0])
  then show ?thesis by (simp add: sint_uint)
qed

lemma bsize_nat_add: "bsize_nat (bsize_add s1 s2) = bsize_lift (+) (bsize_nat s1) (bsize_nat s2)"
  by (auto simp: bsize_nat_def bsize_add_def bsize_add_over not_le)

lemma bsize_nat_mul: "bsize_nat (bsize_mul s1 s2) = bsize_lift (*) (bsize_nat s1) (bsize_nat s2)"
  by (simp only: bsize_nat_def bsize_mul_def bsize_mul_over bsize.simps) (auto simp: bsize_mul_over not_le)

lemma bsize_nat_max: "bsize_nat (bsize_max s1 s2) = bsize_lift max (bsize_nat s1) (bsize_nat s2)"
  using unat_less_u32 [of "bsize_value s1"] unat_less_u32 [of "bsize_value s2"]
  by (auto simp: bsize_nat_def bsize_max_def word_less_nat_alt word_le_nat_alt max_def)

lemma bsize_nat_fromsize: "bsize_nat (bsize_fromsize v) = Some (unat v)"
  by (simp add: bsize_nat_def bsize_fromsize_def)

text \<open>
  C29. Size arithmetic is exact or marked: the sum and the product of two sizes are the
  natural sum and product when those fit 32 bits, and are marked as overflown otherwise; the
  maximum is the maximum; and a size is converted to int exactly when it is below \<open>2 ^ 31\<close>.
\<close>

theorem bsize_exact:
  "bsize_nat (bsize_add s1 s2) = bsize_lift (+) (bsize_nat s1) (bsize_nat s2) \<and>
   bsize_nat (bsize_mul s1 s2) = bsize_lift (*) (bsize_nat s1) (bsize_nat s2) \<and>
   bsize_nat (bsize_max s1 s2) = bsize_lift max (bsize_nat s1) (bsize_nat s2) \<and>
   bsize_toint s = (case bsize_nat s of None \<Rightarrow> None | Some n \<Rightarrow> if n < 2 ^ 31 then Some (int n) else None)"
proof (intro conjI bsize_nat_add bsize_nat_mul bsize_nat_max)
  show "bsize_toint s = (case bsize_nat s of None \<Rightarrow> None | Some n \<Rightarrow> if n < 2 ^ 31 then Some (int n) else None)"
    by (auto simp: bsize_toint_def bsize_nat_def word_less_nat_alt sint_small)
qed

end
