(* ===== verification/Badvpn_BAVL.thy ===== *)
theory Badvpn_BAVL
  imports Badvpn_Compare "HOL-Library.Tree"
begin

text \<open>
  structure/BAVL.h of badvpn: intrusive AVL trees whose nodes have a parent pointer, two
  links and a balance factor. The nodes live in a store; the value of a node, which the C code
  finds at an offset from it, is given by \<open>val\<close>, and \<open>cmp\<close> is the tree's comparator. A
  dereferenced null pointer and a failed assertion give \<open>None\<close>, and so does a loop that does
  not end, since the loops are partial functions.
\<close>

section \<open>Nodes\<close>

record BAVLNode =
  bn_parent :: "addr option"
  bn_link0 :: "addr option"
  bn_link1 :: "addr option"
  bn_balance :: int

record BAVL =
  bv_root :: "addr option"
  bv_node :: "addr \<Rightarrow> BAVLNode"

definition par :: "BAVL \<Rightarrow> addr \<Rightarrow> addr option" where "par o' a = bn_parent (bv_node o' a)"

definition lnk :: "BAVL \<Rightarrow> addr \<Rightarrow> bool \<Rightarrow> addr option" where
  "lnk o' a side = (if side then bn_link1 (bv_node o' a) else bn_link0 (bv_node o' a))"

definition blc :: "BAVL \<Rightarrow> addr \<Rightarrow> int" where "blc o' a = bn_balance (bv_node o' a)"

definition set_root :: "addr option \<Rightarrow> BAVL \<Rightarrow> BAVL" where "set_root x o' = o'\<lparr>bv_root := x\<rparr>"

definition set_par :: "addr \<Rightarrow> addr option \<Rightarrow> BAVL \<Rightarrow> BAVL" where
  "set_par a x o' = o'\<lparr>bv_node := (bv_node o')(a := (bv_node o' a)\<lparr>bn_parent := x\<rparr>)\<rparr>"

definition set_lnk :: "addr \<Rightarrow> bool \<Rightarrow> addr option \<Rightarrow> BAVL \<Rightarrow> BAVL" where
  "set_lnk a side x o' = o'\<lparr>bv_node := (bv_node o')(a := (if side then (bv_node o' a)\<lparr>bn_link1 := x\<rparr> else (bv_node o' a)\<lparr>bn_link0 := x\<rparr>))\<rparr>"

definition set_blc :: "addr \<Rightarrow> int \<Rightarrow> BAVL \<Rightarrow> BAVL" where
  "set_blc a x o' = o'\<lparr>bv_node := (bv_node o')(a := (bv_node o' a)\<lparr>bn_balance := x\<rparr>)\<rparr>"

text \<open>Setting the parent of a node that may be null, as the code does behind a test.\<close>

definition set_par_opt :: "addr option \<Rightarrow> addr option \<Rightarrow> BAVL \<Rightarrow> BAVL" where
  "set_par_opt n x o' = (case n of None \<Rightarrow> o' | Some a \<Rightarrow> set_par a x o')"

lemma node_simps [simp]:
  "par (set_root x o') b = par o' b" "lnk (set_root x o') b s = lnk o' b s" "blc (set_root x o') b = blc o' b" "bv_root (set_root x o') = x"
  "par (set_par a x o') b = (if b = a then x else par o' b)" "lnk (set_par a x o') b s = lnk o' b s" "blc (set_par a x o') b = blc o' b"
  "bv_root (set_par a x o') = bv_root o'"
  "par (set_lnk a s x o') b = par o' b" "lnk (set_lnk a s x o') b s' = (if b = a \<and> s' = s then x else lnk o' b s')"
  "blc (set_lnk a s x o') b = blc o' b" "bv_root (set_lnk a s x o') = bv_root o'"
  "par (set_blc a y o') b = par o' b" "lnk (set_blc a y o') b s = lnk o' b s" "blc (set_blc a y o') b = (if b = a then y else blc o' b)"
  "bv_root (set_blc a y o') = bv_root o'"
  by (auto simp: par_def lnk_def blc_def set_root_def set_par_def set_lnk_def set_blc_def)

lemma set_par_opt_simps [simp]:
  "par (set_par_opt n x o') b = (if n = Some b then x else par o' b)" "lnk (set_par_opt n x o') b s = lnk o' b s"
  "blc (set_par_opt n x o') b = blc o' b" "bv_root (set_par_opt n x o') = bv_root o'"
  by (cases n; simp add: set_par_opt_def)+

section \<open>Operations\<close>

definition BAVL_rotate :: "BAVL \<Rightarrow> addr \<Rightarrow> bool \<Rightarrow> BAVL option" where
  "BAVL_rotate tree r dir =
     (case lnk tree r (\<not> dir) of
        None \<Rightarrow> None
      | Some nr \<Rightarrow>
          (let tree = set_lnk r (\<not> dir) (lnk tree nr dir) tree;
               tree = set_par_opt (lnk tree r (\<not> dir)) (Some r) tree;
               tree = set_lnk nr dir (Some r) tree;
               tree = set_par nr (par tree r) tree;
               tree = (case par tree nr of
                         Some p \<Rightarrow> set_lnk p (lnk tree p True = Some r) (Some nr) tree
                       | None \<Rightarrow> set_root (Some nr) tree)
           in Some (set_par r (Some nr) tree)))"

partial_function (option) BAVL_subtree_max :: "BAVL \<Rightarrow> addr \<Rightarrow> addr option" where
  "BAVL_subtree_max o' n = (case lnk o' n True of None \<Rightarrow> Some n | Some c \<Rightarrow> BAVL_subtree_max o' c)"

definition BAVL_replace_subtree :: "BAVL \<Rightarrow> addr \<Rightarrow> addr option \<Rightarrow> BAVL" where
  "BAVL_replace_subtree tree dest n =
     (let tree = (case par tree dest of
                    Some p \<Rightarrow> set_lnk p (lnk tree p True = Some dest) n tree
                  | None \<Rightarrow> set_root n tree)
      in set_par_opt n (par tree dest) tree)"

text \<open>The two branches of \<open>_BAVL_swap_nodes\<close>.\<close>

definition BAVL_swap_connected :: "BAVL \<Rightarrow> addr \<Rightarrow> addr \<Rightarrow> BAVL" where
  "BAVL_swap_connected tree n1 n2 =
     (let side = (lnk tree n1 True = Some n2);
          c = lnk tree n1 (\<not> side);
          tree = set_lnk n1 False (lnk tree n2 False) tree;
          tree = set_par_opt (lnk tree n1 False) (Some n1) tree;
          tree = set_lnk n1 True (lnk tree n2 True) tree;
          tree = set_par_opt (lnk tree n1 True) (Some n1) tree;
          tree = set_par n2 (par tree n1) tree;
          tree = (case par tree n2 of
                    Some p \<Rightarrow> set_lnk p (lnk tree p True = Some n1) (Some n2) tree
                  | None \<Rightarrow> set_root (Some n2) tree);
          tree = set_lnk n2 side (Some n1) tree;
          tree = set_par n1 (Some n2) tree;
          tree = set_lnk n2 (\<not> side) c tree
      in set_par_opt c (Some n2) tree)"

definition BAVL_swap_apart :: "BAVL \<Rightarrow> addr \<Rightarrow> addr \<Rightarrow> BAVL" where
  "BAVL_swap_apart tree n1 n2 =
     (let temp = par tree n1;
          tree = set_par n1 (par tree n2) tree;
          tree = (case par tree n1 of
                    Some p \<Rightarrow> set_lnk p (lnk tree p True = Some n2) (Some n1) tree
                  | None \<Rightarrow> set_root (Some n1) tree);
          tree = set_par n2 temp tree;
          tree = (case temp of
                    Some p \<Rightarrow> set_lnk p (lnk tree p True = Some n1) (Some n2) tree
                  | None \<Rightarrow> set_root (Some n2) tree);
          temp = lnk tree n1 False;
          tree = set_lnk n1 False (lnk tree n2 False) tree;
          tree = set_par_opt (lnk tree n1 False) (Some n1) tree;
          tree = set_lnk n2 False temp tree;
          tree = set_par_opt temp (Some n2) tree;
          temp = lnk tree n1 True;
          tree = set_lnk n1 True (lnk tree n2 True) tree;
          tree = set_par_opt (lnk tree n1 True) (Some n1) tree;
          tree = set_lnk n2 True temp tree
      in set_par_opt temp (Some n2) tree)"

definition BAVL_swap_nodes :: "BAVL \<Rightarrow> addr \<Rightarrow> addr \<Rightarrow> BAVL" where
  "BAVL_swap_nodes tree n1 n2 =
     (let (n1, n2, tree) =
            (if par tree n2 = Some n1 \<or> par tree n1 = Some n2
             then (let (n1, n2) = (if par tree n1 = Some n2 then (n2, n1) else (n1, n2))
                   in (n1, n2, BAVL_swap_connected tree n1 n2))
             else (n1, n2, BAVL_swap_apart tree n1 n2));
          b = blc tree n1;
          tree = set_blc n1 (blc tree n2) tree
      in set_blc n2 b tree)"

definition OPTNEG :: "int \<Rightarrow> bool \<Rightarrow> int" where
  "OPTNEG a neg = (if neg then - a else a)"

text \<open>The transformations in the middle of \<open>_BAVL_rebalance\<close>: new tree, node and delta.\<close>

definition BAVL_transform :: "BAVL \<Rightarrow> addr \<Rightarrow> int \<Rightarrow> (BAVL \<times> addr \<times> int) option" where
  "BAVL_transform o' node delta =
     (if blc o' node = 2 \<or> blc o' node = - 2 then
        (let bside = (blc o' node = 2); bsidef = (if blc o' node = 2 then 1 else - 1) in
         case lnk o' node bside of
           None \<Rightarrow> None
         | Some child \<Rightarrow>
             if blc o' child * bsidef = 1 then
               (case BAVL_rotate o' node (\<not> bside) of
                  None \<Rightarrow> None
                | Some o' \<Rightarrow> Some (set_blc child 0 (set_blc node 0 o'), child, delta - 1))
             else if blc o' child * bsidef = 0 then
               (case BAVL_rotate o' node (\<not> bside) of
                  None \<Rightarrow> None
                | Some o' \<Rightarrow> Some (set_blc child (- 1 * bsidef) (set_blc node (1 * bsidef) o'), child, delta))
             else if blc o' child * bsidef = - 1 then
               (case lnk o' child (\<not> bside) of
                  None \<Rightarrow> None
                | Some gchild \<Rightarrow>
                    (case BAVL_rotate o' child bside of
                       None \<Rightarrow> None
                     | Some o' \<Rightarrow>
                         (case BAVL_rotate o' node (\<not> bside) of
                            None \<Rightarrow> None
                          | Some o' \<Rightarrow>
                              (let o' = set_blc node (- max 0 (blc o' gchild * bsidef) * bsidef) o';
                                   o' = set_blc child (max 0 (- blc o' gchild * bsidef) * bsidef) o';
                                   o' = set_blc gchild 0 o'
                               in Some (o', gchild, delta - 1)))))
             else None)
      else Some (o', node, delta))"

partial_function (option) BAVL_rebalance :: "BAVL \<Rightarrow> addr \<Rightarrow> bool \<Rightarrow> int \<Rightarrow> BAVL option" where
  "BAVL_rebalance o' node side deltac =
     (if \<not> (- 1 \<le> deltac \<and> deltac \<le> 1 \<and> - 1 \<le> blc o' node \<and> blc o' node \<le> 1) then None
      else if deltac = 0 then Some o'
      else (let delta = max deltac (OPTNEG (blc o' node) side) - max 0 (OPTNEG (blc o' node) side);
                o' = set_blc node (blc o' node - OPTNEG deltac side) o' in
            if \<not> (- 1 \<le> delta \<and> delta \<le> 1) then None
            else (case BAVL_transform o' node delta of
                    None \<Rightarrow> None
                  | Some (o', node, delta) \<Rightarrow>
                      if \<not> (- 1 \<le> delta \<and> delta \<le> 1) then None
                      else (case par o' node of
                              None \<Rightarrow> Some o'
                            | Some p \<Rightarrow> BAVL_rebalance o' p (lnk o' p True = Some node) delta))))"

definition BAVL_Init :: "BAVL \<Rightarrow> BAVL" where
  "BAVL_Init o' = set_root None o'"

text \<open>The search for the place of a new node: an equal node, or a free link.\<close>

partial_function (option) BAVL_descend ::
    "('v \<Rightarrow> 'v \<Rightarrow> int) \<Rightarrow> (addr \<Rightarrow> 'v) \<Rightarrow> BAVL \<Rightarrow> 'v \<Rightarrow> addr \<Rightarrow> (addr + addr \<times> bool) option" where
  "BAVL_descend cmp val o' v c =
     (let comp = cmp v (val c) in
      if \<not> (comp = - 1 \<or> comp = 0 \<or> comp = 1) then None
      else if comp = 0 then Some (Inl c)
      else (case lnk o' c (comp = 1) of
              None \<Rightarrow> Some (Inr (c, comp = 1))
            | Some c' \<Rightarrow> BAVL_descend cmp val o' v c'))"

text \<open>The result says whether the node was inserted; \<open>ref\<close> is the node it met.\<close>

definition BAVL_Insert ::
    "('v \<Rightarrow> 'v \<Rightarrow> int) \<Rightarrow> (addr \<Rightarrow> 'v) \<Rightarrow> BAVL \<Rightarrow> addr \<Rightarrow> (BAVL \<times> bool \<times> addr option) option" where
  "BAVL_Insert cmp val o' node =
     (case bv_root o' of
        None \<Rightarrow>
          (let o' = set_root (Some node) o';
               o' = set_par node None o';
               o' = set_lnk node False None o';
               o' = set_lnk node True None o';
               o' = set_blc node 0 o'
           in Some (o', True, None))
      | Some root \<Rightarrow>
          (case BAVL_descend cmp val o' (val node) root of
             None \<Rightarrow> None
           | Some (Inl c) \<Rightarrow> Some (o', False, Some c)
           | Some (Inr (c, side)) \<Rightarrow>
               (let o' = set_lnk c side (Some node) o';
                    o' = set_par node (Some c) o';
                    o' = set_lnk node False None o';
                    o' = set_lnk node True None o';
                    o' = set_blc node 0 o'
                in case BAVL_rebalance o' c side 1 of
                     None \<Rightarrow> None
                   | Some o' \<Rightarrow> Some (o', True, Some c))))"

text \<open>The end of \<open>BAVL_Remove\<close>, where the node has at most one child.\<close>

definition BAVL_excise :: "BAVL \<Rightarrow> addr \<Rightarrow> BAVL option" where
  "BAVL_excise o' node =
     (if lnk o' node False \<noteq> None \<and> lnk o' node True \<noteq> None then None
      else (let child = (if lnk o' node False \<noteq> None then lnk o' node False else lnk o' node True) in
            case par o' node of
              Some parent \<Rightarrow>
                (let side = (lnk o' parent True = Some node);
                     o' = BAVL_replace_subtree o' node child
                 in BAVL_rebalance o' parent side (- 1))
            | None \<Rightarrow> Some (BAVL_replace_subtree o' node child)))"

definition BAVL_Remove :: "BAVL \<Rightarrow> addr \<Rightarrow> BAVL option" where
  "BAVL_Remove o' node =
     (case (case lnk o' node False of
              Some l \<Rightarrow>
                if lnk o' node True \<noteq> None
                then (case BAVL_subtree_max o' l of
                        None \<Rightarrow> None
                      | Some m \<Rightarrow> Some (BAVL_swap_nodes o' node m))
                else Some o'
            | None \<Rightarrow> Some o') of
        None \<Rightarrow> None
      | Some o' \<Rightarrow> BAVL_excise o' node)"

definition BAVL_IsEmpty :: "BAVL \<Rightarrow> bool" where
  "BAVL_IsEmpty o' = (bv_root o' = None)"

definition BAVL_LookupExact :: "('v \<Rightarrow> 'v \<Rightarrow> int) \<Rightarrow> (addr \<Rightarrow> 'v) \<Rightarrow> BAVL \<Rightarrow> 'v \<Rightarrow> addr option option" where
  "BAVL_LookupExact cmp val o' v =
     (case bv_root o' of
        None \<Rightarrow> Some None
      | Some root \<Rightarrow>
          (case BAVL_descend cmp val o' v root of
             None \<Rightarrow> None
           | Some (Inl c) \<Rightarrow> Some (Some c)
           | Some (Inr (c, side)) \<Rightarrow> Some None))"

definition BAVL_Lookup :: "('v \<Rightarrow> 'v \<Rightarrow> int) \<Rightarrow> (addr \<Rightarrow> 'v) \<Rightarrow> BAVL \<Rightarrow> 'v \<Rightarrow> addr option option" where
  "BAVL_Lookup cmp val o' v =
     (case bv_root o' of
        None \<Rightarrow> Some None
      | Some root \<Rightarrow>
          (case BAVL_descend cmp val o' v root of
             None \<Rightarrow> None
           | Some (Inl c) \<Rightarrow> Some (Some c)
           | Some (Inr (c, side)) \<Rightarrow> Some (Some c)))"

text \<open>Down one side as far as it goes, and up as long as a node is the child of that side.\<close>

partial_function (option) BAVL_down :: "BAVL \<Rightarrow> bool \<Rightarrow> addr \<Rightarrow> addr option" where
  "BAVL_down o' side n = (case lnk o' n side of None \<Rightarrow> Some n | Some c \<Rightarrow> BAVL_down o' side c)"

partial_function (option) BAVL_up :: "BAVL \<Rightarrow> bool \<Rightarrow> addr \<Rightarrow> addr option" where
  "BAVL_up o' side n =
     (case par o' n of
        None \<Rightarrow> Some n
      | Some p \<Rightarrow> if lnk o' p side = Some n then BAVL_up o' side p else Some n)"

definition BAVL_GetFirst :: "BAVL \<Rightarrow> addr option option" where
  "BAVL_GetFirst o' =
     (case bv_root o' of None \<Rightarrow> Some None | Some n \<Rightarrow> map_option Some (BAVL_down o' False n))"

definition BAVL_GetLast :: "BAVL \<Rightarrow> addr option option" where
  "BAVL_GetLast o' =
     (case bv_root o' of None \<Rightarrow> Some None | Some n \<Rightarrow> map_option Some (BAVL_down o' True n))"

definition BAVL_GetNext :: "BAVL \<Rightarrow> addr \<Rightarrow> addr option option" where
  "BAVL_GetNext o' n =
     (case lnk o' n True of
        Some c \<Rightarrow> map_option Some (BAVL_down o' False c)
      | None \<Rightarrow> map_option (\<lambda>n. par o' n) (BAVL_up o' True n))"

definition BAVL_GetPrev :: "BAVL \<Rightarrow> addr \<Rightarrow> addr option option" where
  "BAVL_GetPrev o' n =
     (case lnk o' n False of
        Some c \<Rightarrow> map_option Some (BAVL_down o' True c)
      | None \<Rightarrow> map_option (\<lambda>n. par o' n) (BAVL_up o' False n))"


section \<open>Trees and places in them\<close>

text \<open>
  The shape of a tree of nodes is a tree of addresses. A place in it is a list of frames,
  the innermost first: the side on which the place is, the node there and its other subtree.
\<close>

type_synonym shape = "addr tree"
type_synonym place = "(bool \<times> addr \<times> shape) list"

fun top_of :: "shape \<Rightarrow> addr option" where
  "top_of Leaf = None"
| "top_of (Node l a r) = Some a"

fun rep :: "BAVL \<Rightarrow> addr option \<Rightarrow> shape \<Rightarrow> bool" where
  "rep o' p Leaf \<longleftrightarrow> True"
| "rep o' p (Node l a r) \<longleftrightarrow> par o' a = p \<and> lnk o' a False = top_of l \<and> lnk o' a True = top_of r \<and> rep o' (Some a) l \<and> rep o' (Some a) r"

text \<open>A node with the subtree \<open>t\<close> on side \<open>s\<close> and \<open>u\<close> on the other.\<close>

definition nd :: "bool \<Rightarrow> shape \<Rightarrow> addr \<Rightarrow> shape \<Rightarrow> shape" where
  "nd s t a u = (if s then Node u a t else Node t a u)"

lemma nd_simps [simp]:
  "top_of (nd s t a u) = Some a" "set_tree (nd s t a u) = insert a (set_tree t \<union> set_tree u)"
  "rep o' p (nd s t a u) \<longleftrightarrow> par o' a = p \<and> lnk o' a s = top_of t \<and> lnk o' a (\<not> s) = top_of u \<and> rep o' (Some a) t \<and> rep o' (Some a) u"
  "height (nd s t a u) = Suc (max (height t) (height u))" "nd s t a u \<noteq> Leaf"
  by (auto simp: nd_def)

lemma nd_flip: "nd (\<not> s) t a u = nd s u a t"
  by (simp add: nd_def)

fun plug :: "shape \<Rightarrow> place \<Rightarrow> shape" where
  "plug t [] = t"
| "plug t ((s, a, u) # fs) = plug (nd s t a u) fs"

fun place_nodes :: "place \<Rightarrow> addr set" where
  "place_nodes [] = {}"
| "place_nodes ((s, a, u) # fs) = insert a (set_tree u \<union> place_nodes fs)"

fun place_par :: "place \<Rightarrow> addr option" where
  "place_par [] = None"
| "place_par ((s, a, u) # fs) = Some a"

fun rep_place :: "BAVL \<Rightarrow> place \<Rightarrow> addr option \<Rightarrow> bool" where
  "rep_place o' [] x \<longleftrightarrow> bv_root o' = x"
| "rep_place o' ((s, a, u) # fs) x \<longleftrightarrow> lnk o' a s = x \<and> lnk o' a (\<not> s) = top_of u \<and> rep o' (Some a) u \<and>
     par o' a = place_par fs \<and> rep_place o' fs (Some a)"

text \<open>No node occurs twice.\<close>

fun distinct_tree :: "shape \<Rightarrow> bool" where
  "distinct_tree Leaf \<longleftrightarrow> True"
| "distinct_tree (Node l a r) \<longleftrightarrow> a \<notin> set_tree l \<and> a \<notin> set_tree r \<and> set_tree l \<inter> set_tree r = {} \<and> distinct_tree l \<and> distinct_tree r"

fun distinct_place :: "place \<Rightarrow> bool" where
  "distinct_place [] \<longleftrightarrow> True"
| "distinct_place ((s, a, u) # fs) \<longleftrightarrow> a \<notin> set_tree u \<and> a \<notin> place_nodes fs \<and> set_tree u \<inter> place_nodes fs = {} \<and>
     distinct_tree u \<and> distinct_place fs"

lemma distinct_nd [simp]:
  "distinct_tree (nd s t a u) \<longleftrightarrow> a \<notin> set_tree t \<and> a \<notin> set_tree u \<and> set_tree t \<inter> set_tree u = {} \<and> distinct_tree t \<and> distinct_tree u"
  by (auto simp: nd_def)

lemma distinct_tree_inorder: "distinct_tree t \<longleftrightarrow> distinct (inorder t)"
  by (induction t) auto

lemma set_plug [simp]: "set_tree (plug t fs) = set_tree t \<union> place_nodes fs"
  by (induction fs arbitrary: t) auto

lemma distinct_plug [simp]: "distinct_tree (plug t fs) \<longleftrightarrow> distinct_tree t \<and> distinct_place fs \<and> set_tree t \<inter> place_nodes fs = {}"
  by (induction fs arbitrary: t) auto

definition bavl_shape :: "BAVL \<Rightarrow> shape \<Rightarrow> bool" where
  "bavl_shape o' t \<longleftrightarrow> bv_root o' = top_of t \<and> rep o' None t \<and> distinct_tree t"

definition at_place :: "BAVL \<Rightarrow> place \<Rightarrow> shape \<Rightarrow> bool" where
  "at_place o' fs t \<longleftrightarrow> rep o' (place_par fs) t \<and> rep_place o' fs (top_of t) \<and> distinct_tree t \<and> distinct_place fs \<and>
     set_tree t \<inter> place_nodes fs = {}"

lemma at_place_Cons: "at_place o' ((s, a, u) # fs) t \<longleftrightarrow> at_place o' fs (nd s t a u)"
  by (auto simp: at_place_def)

lemma bavl_shape_plug: "bavl_shape o' (plug t fs) \<longleftrightarrow> at_place o' fs t"
proof (induction fs arbitrary: t)
  case (Cons f fs)
  obtain s a u where f: "f = (s, a, u)" by (cases f)
  show ?case unfolding f plug.simps Cons.IH at_place_Cons ..
qed (auto simp: bavl_shape_def at_place_def)

text \<open>What a predicate on a part of the store does not see.\<close>

lemma rep_cong:
  "(\<And>a. a \<in> set_tree t \<Longrightarrow> par o1 a = par o' a \<and> lnk o1 a False = lnk o' a False \<and> lnk o1 a True = lnk o' a True) \<Longrightarrow> rep o1 p t = rep o' p t"
  by (induction t arbitrary: p) auto

lemma rep_place_cong:
  "(\<And>a. a \<in> place_nodes fs \<Longrightarrow> par o1 a = par o' a \<and> (\<forall>s. lnk o1 a s = lnk o' a s)) \<Longrightarrow> bv_root o1 = bv_root o' \<Longrightarrow>
    rep_place o1 fs x = rep_place o' fs x"
proof (induction fs arbitrary: x)
  case (Cons f fs)
  obtain s a u where f: "f = (s, a, u)" by (cases f)
  have "rep o1 (Some a) u = rep o' (Some a) u" by (rule rep_cong) (use Cons.prems f in auto)
  then show ?case using Cons f by auto
qed simp

text \<open>Setting the link at a place.\<close>

definition set_hole :: "place \<Rightarrow> addr option \<Rightarrow> BAVL \<Rightarrow> BAVL" where
  "set_hole fs x o' = (case fs of [] \<Rightarrow> set_root x o' | (s, a, u) # fs' \<Rightarrow> set_lnk a s x o')"

lemma set_hole_simps [simp]:
  "par (set_hole fs x o') b = par o' b" "blc (set_hole fs x o') b = blc o' b"
  "b \<notin> place_nodes fs \<Longrightarrow> lnk (set_hole fs x o') b s = lnk o' b s"
  by (cases fs; auto simp: set_hole_def)+

lemma rep_set_hole: "set_tree t \<inter> place_nodes fs = {} \<Longrightarrow> rep (set_hole fs x o') p t = rep o' p t"
  by (rule rep_cong) (auto simp: disjoint_iff)

lemma rep_place_set_hole:
  assumes "rep_place o' fs y" "distinct_place fs"
  shows "rep_place (set_hole fs x o') fs x"
proof (cases fs)
  case Nil
  then show ?thesis by (simp add: set_hole_def)
next
  case (Cons f fs')
  obtain s a u where f: "f = (s, a, u)" by (cases f)
  have r: "rep (set_lnk a s x o') (Some a) u = rep o' (Some a) u"
    by (rule rep_cong) (use assms(2) in \<open>auto simp: Cons f\<close>)
  have p: "rep_place (set_lnk a s x o') fs' (Some a) = rep_place o' fs' (Some a)"
    by (rule rep_place_cong) (use assms(2) in \<open>auto simp: Cons f\<close>)
  show ?thesis using assms r p by (auto simp: Cons f set_hole_def)
qed

text \<open>The code sets the link of a parent on the side where it finds the node.\<close>

lemma set_hole_code:
  assumes "rep_place o' fs (Some a)" "par o' a = place_par fs" "a \<notin> place_nodes fs"
    "\<And>p. p \<in> place_nodes fs \<Longrightarrow> lnk o1 p True = lnk o' p True" "q = par o' a"
  shows "(case q of Some p \<Rightarrow> set_lnk p (lnk o1 p True = Some a) x o1 | None \<Rightarrow> set_root x o1) = set_hole fs x o1"
proof (cases fs)
  case Nil
  then show ?thesis using assms by (simp add: set_hole_def)
next
  case (Cons f fs')
  obtain s p u where f: "f = (s, p, u)" by (cases f)
  have t: "top_of u \<noteq> Some a" using assms(3) by (cases u) (auto simp: Cons f)
  have "lnk o' p s = Some a" "lnk o' p (\<not> s) = top_of u" using assms(1) by (auto simp: Cons f)
  then have "(lnk o1 p True = Some a) = s" using assms(4) [of p] t by (cases s) (auto simp: Cons f)
  then show ?thesis using assms(2,5) by (simp add: set_hole_def Cons f)
qed


section \<open>Rotations\<close>

lemma rep_move:
  assumes "rep o' p t" "distinct_tree t"
    "\<And>a s. a \<in> set_tree t \<Longrightarrow> lnk o1 a s = lnk o' a s"
    "\<And>a. a \<in> set_tree t \<Longrightarrow> par o1 a = (if top_of t = Some a then q else par o' a)"
  shows "rep o1 q t"
proof (cases t)
  case (Node l a r)
  have "rep o1 (Some a) l = rep o' (Some a) l" "rep o1 (Some a) r = rep o' (Some a) r"
    by (rule rep_cong; use assms(2-4) in \<open>auto simp: Node\<close>)+
  then show ?thesis using assms(1,3,4) by (auto simp: Node)
qed simp

lemma top_in: "top_of t = Some a \<Longrightarrow> a \<in> set_tree t"
  by (cases t) auto

lemma rotate_ok:
  assumes "at_place o' fs (nd dir L r (nd dir M n R))"
  shows "\<exists>o1. BAVL_rotate o' r dir = Some o1 \<and> at_place o1 fs (nd dir (nd dir L r M) n R) \<and> (\<forall>a. blc o1 a = blc o' a)"
proof -
  have rp: "rep o' (place_par fs) (nd dir L r (nd dir M n R))" "rep_place o' fs (Some r)" "distinct_place fs"
    using assms by (auto simp: at_place_def)
  have d: "r \<noteq> n" "r \<notin> set_tree L" "r \<notin> set_tree M" "r \<notin> set_tree R" "n \<notin> set_tree L" "n \<notin> set_tree M" "n \<notin> set_tree R"
    "set_tree L \<inter> set_tree M = {}" "set_tree L \<inter> set_tree R = {}" "set_tree M \<inter> set_tree R = {}"
    "distinct_tree L" "distinct_tree M" "distinct_tree R"
    "r \<notin> place_nodes fs" "n \<notin> place_nodes fs" "set_tree L \<inter> place_nodes fs = {}" "set_tree M \<inter> place_nodes fs = {}"
    "set_tree R \<inter> place_nodes fs = {}"
    using assms by (auto simp: at_place_def)
  have f: "par o' r = place_par fs" "lnk o' r dir = top_of L" "lnk o' r (\<not> dir) = Some n" "par o' n = Some r" "lnk o' n dir = top_of M"
    "lnk o' n (\<not> dir) = top_of R" "rep o' (Some r) L" "rep o' (Some n) M" "rep o' (Some n) R"
    using rp(1) by auto
  define o0 where "o0 = set_par n (place_par fs) (set_lnk n dir (Some r) (set_par_opt (top_of M) (Some r) (set_lnk r (\<not> dir) (top_of M) o')))"
  define o1 where "o1 = set_par r (Some n) (set_hole fs (Some n) o0)"
  have tM: "top_of M \<noteq> Some r" "top_of M \<noteq> Some n" using d(3,6) top_in by blast+
  have o0: "lnk o0 p s = lnk o' p s" "par o0 p = (if top_of M = Some p then Some r else par o' p)" if "p \<noteq> r" "p \<noteq> n" for p s
    using that by (auto simp: o0_def)
  have h: "(case place_par fs of Some p \<Rightarrow> set_lnk p (lnk o0 p True = Some r) (Some n) o0 | None \<Rightarrow> set_root (Some n) o0) = set_hole fs (Some n) o0"
    by (rule set_hole_code [OF rp(2) f(1) d(14)]) (use o0(1) d(14,15) f(1) in \<open>auto, metis\<close>)
  have e: "lnk (set_lnk r (\<not> dir) (top_of M) o') r (\<not> dir) = top_of M"
    "par (set_lnk n dir (Some r) (set_par_opt (top_of M) (Some r) (set_lnk r (\<not> dir) (top_of M) o'))) r = place_par fs"
    "par o0 n = place_par fs"
    using tM f(1) by (auto simp: o0_def)
  have code: "BAVL_rotate o' r dir = Some o1"
    unfolding BAVL_rotate_def f(3) option.case Let_def f(5) e(1,2) o0_def [symmetric] e(3) h o1_def ..
  have links: "lnk o1 p s = lnk o' p s" if "p \<noteq> r" "p \<noteq> n" "p \<notin> place_nodes fs" for p s
    using that o0(1) by (simp add: o1_def)
  have pars: "par o1 p = (if top_of M = Some p then Some r else par o' p)" if "p \<noteq> r" "p \<noteq> n" for p
    using that o0(2) by (simp add: o1_def)
  have inL: "p \<noteq> r \<and> p \<noteq> n \<and> p \<notin> place_nodes fs \<and> top_of M \<noteq> Some p" if "p \<in> set_tree L" for p
    using that d top_in [of M p] by auto
  have inR: "p \<noteq> r \<and> p \<noteq> n \<and> p \<notin> place_nodes fs \<and> top_of M \<noteq> Some p" if "p \<in> set_tree R" for p
    using that d top_in [of M p] by auto
  have inM: "p \<noteq> r \<and> p \<noteq> n \<and> p \<notin> place_nodes fs" if "p \<in> set_tree M" for p
    using that d by auto
  have rL: "rep o1 (Some r) L" using rep_cong [of L o1 o' "Some r"] f(7) inL links pars by simp
  have rR: "rep o1 (Some n) R" using rep_cong [of R o1 o' "Some n"] f(9) inR links pars by simp
  have rM: "rep o1 (Some r) M" by (rule rep_move [OF f(8) d(12)]) (use inM links pars in simp_all)
  have own: "par o1 r = Some n" "lnk o1 r dir = top_of L" "lnk o1 r (\<not> dir) = top_of M" "par o1 n = place_par fs" "lnk o1 n dir = Some r"
    "lnk o1 n (\<not> dir) = top_of R"
    using d(1,14,15) tM f by (auto simp: o1_def o0_def)
  have pl: "rep_place o1 fs (Some n)"
  proof -
    have "rep_place o0 fs (Some r) = rep_place o' fs (Some r)"
    proof (rule rep_place_cong)
      fix a assume "a \<in> place_nodes fs"
      then have "a \<noteq> r" "a \<noteq> n" "top_of M \<noteq> Some a" using d top_in [of M a] by auto
      then show "par o0 a = par o' a \<and> (\<forall>s. lnk o0 a s = lnk o' a s)" using o0 by simp
    qed (simp add: o0_def)
    then have "rep_place (set_hole fs (Some n) o0) fs (Some n)" using rp(2,3) rep_place_set_hole by blast
    moreover have "rep_place o1 fs (Some n) = rep_place (set_hole fs (Some n) o0) fs (Some n)"
      by (rule rep_place_cong) (use d(14) in \<open>auto simp: o1_def\<close>)
    ultimately show ?thesis by simp
  qed
  have "at_place o1 fs (nd dir (nd dir L r M) n R)"
    using rL rR rM own pl d rp(3) by (auto simp: at_place_def)
  moreover have "blc o1 a = blc o' a" for a by (simp add: o1_def o0_def)
  ultimately show ?thesis using code by blast
qed


section \<open>Balance\<close>

fun bal :: "BAVL \<Rightarrow> shape \<Rightarrow> bool" where
  "bal o' Leaf \<longleftrightarrow> True"
| "bal o' (Node l a r) \<longleftrightarrow> blc o' a = int (height r) - int (height l) \<and> - 1 \<le> blc o' a \<and> blc o' a \<le> 1 \<and> bal o' l \<and> bal o' r"

lemma bal_nd: "bal o' (nd s t a u) \<longleftrightarrow> blc o' a = OPTNEG (int (height u) - int (height t)) s \<and>
    - 1 \<le> blc o' a \<and> blc o' a \<le> 1 \<and> bal o' t \<and> bal o' u"
  by (auto simp: nd_def OPTNEG_def)

text \<open>The balance factors at a place are right for a subtree of height \<open>n\<close>.\<close>

fun bal_place :: "BAVL \<Rightarrow> place \<Rightarrow> nat \<Rightarrow> bool" where
  "bal_place o' [] n \<longleftrightarrow> True"
| "bal_place o' ((s, a, u) # fs) n \<longleftrightarrow> bal o' u \<and> blc o' a = OPTNEG (int (height u) - int n) s \<and> - 1 \<le> blc o' a \<and> blc o' a \<le> 1 \<and>
     bal_place o' fs (Suc (max n (height u)))"

lemma bal_cong: "(\<And>a. a \<in> set_tree t \<Longrightarrow> blc o1 a = blc o' a) \<Longrightarrow> bal o1 t = bal o' t"
  by (induction t) auto

lemma bal_place_cong: "(\<And>a. a \<in> place_nodes fs \<Longrightarrow> blc o1 a = blc o' a) \<Longrightarrow> bal_place o1 fs n = bal_place o' fs n"
proof (induction fs arbitrary: n)
  case (Cons f fs)
  obtain s a u where f: "f = (s, a, u)" by (cases f)
  have "bal o1 u = bal o' u" by (rule bal_cong) (use Cons.prems f in auto)
  then show ?case using Cons f by auto
qed simp

lemma bal_plug: "bal o' t \<Longrightarrow> bal_place o' fs (height t) \<Longrightarrow> bal o' (plug t fs)"
proof (induction fs arbitrary: t)
  case (Cons f fs)
  obtain s a u where f: "f = (s, a, u)" by (cases f)
  show ?case using Cons.prems Cons.IH [of "nd s t a u"] by (auto simp: f bal_nd)
qed simp

lemma inorder_nd: "inorder (nd s t a u) = (if s then inorder u @ a # inorder t else inorder t @ a # inorder u)"
  by (simp add: nd_def)

lemma inorder_plug_cong: "inorder t = inorder t' \<Longrightarrow> inorder (plug t fs) = inorder (plug t' fs)"
proof (induction fs arbitrary: t t')
  case (Cons f fs)
  obtain s a u where f: "f = (s, a, u)" by (cases f)
  show ?case using Cons by (simp add: f inorder_nd)
qed simp

lemma at_place_set_blc [simp]: "at_place (set_blc a b o') fs t = at_place o' fs t"
proof -
  have "rep (set_blc a b o') p t = rep o' p t" for p by (rule rep_cong) simp
  moreover have "rep_place (set_blc a b o') fs x = rep_place o' fs x" for x by (rule rep_place_cong) simp_all
  ultimately show ?thesis by (simp add: at_place_def)
qed

lemma nd_exhaust: "height t \<noteq> 0 \<Longrightarrow> \<exists>x a y. t = nd s x a y"
  by (cases t; cases s) (auto simp: nd_def)

lemma rotate_nd:
  assumes "at_place o' fs (nd dir L r (nd dir M n R))"
  obtains o1 where "BAVL_rotate o' r dir = Some o1" "at_place o1 fs (nd dir (nd dir L r M) n R)" "\<And>a. blc o1 a = blc o' a"
  using rotate_ok [OF assms] by blast

lemma inorder_rotate: "inorder (nd d (nd d L r M) n R) = inorder (nd d L r (nd d M n R))"
  by (simp add: inorder_nd)

text \<open>
  The transformations: a node whose subtree on side \<open>s\<close> is two higher than the other becomes
  a balanced tree with the same nodes in the same order.
\<close>

lemma transform_ok:
  assumes "at_place o' fs (nd (\<not> s) L a C)" "bal o' L" "bal o' C" "height C = height L + 2" "blc o' a = OPTNEG 2 (\<not> s)"
  shows "\<exists>o1 a' T. BAVL_transform o' a delta = Some (o1, a', delta + int (height T) - int (height C) - 1) \<and> top_of T = Some a' \<and>
    at_place o1 fs T \<and> bal o1 T \<and> inorder T = inorder (nd (\<not> s) L a C) \<and> (height T = height C \<or> height T = height C + 1) \<and>
    (\<forall>b. b \<notin> set_tree (nd (\<not> s) L a C) \<longrightarrow> blc o1 b = blc o' b)"
proof -
  let ?f = "if s then 1 else - 1 :: int"
  obtain M c R where C: "C = nd (\<not> s) M c R" using assms(4) nd_exhaust [of C "\<not> s"] by fastforce
  have a: "blc o' a = 2 \<or> blc o' a = - 2" "(blc o' a = 2) = s"
    using assms(5) by (auto simp: OPTNEG_def)
  have l: "lnk o' a s = Some c" using assms(1) C by (simp add: at_place_def)
  have cb: "blc o' c * ?f = int (height R) - int (height M)" "bal o' M" "bal o' R" "- 1 \<le> blc o' c" "blc o' c \<le> 1"
    using assms(3) C by (auto simp: bal_nd OPTNEG_def)
  have hC: "max (height M) (height R) = height L + 1" using assms(4) C by simp
  have d: "a \<noteq> c" "a \<notin> set_tree L" "a \<notin> set_tree M" "a \<notin> set_tree R" "c \<notin> set_tree L" "c \<notin> set_tree M" "c \<notin> set_tree R"
    using assms(1) C by (auto simp: at_place_def)
  have bc: "bal o1 L = bal o' L \<and> bal o1 M = bal o' M \<and> bal o1 R = bal o' R"
    if "\<And>b. b \<noteq> a \<Longrightarrow> b \<noteq> c \<Longrightarrow> blc o1 b = blc o' b" for o1
    using d by (intro conjI bal_cong that) auto
  note start = BAVL_transform_def [of o' a delta, unfolded if_P [OF a(1)], unfolded Let_def a(2), unfolded l option.case]
  consider (single) "int (height R) - int (height M) = 1" | (even) "int (height R) - int (height M) = 0"
    | (double) "int (height R) - int (height M) = - 1"
    using cb(1,4,5) by (fastforce simp: OPTNEG_def split: if_splits)
  then show ?thesis
  proof cases
    case single
    obtain o1 where r: "BAVL_rotate o' a (\<not> s) = Some o1" "at_place o1 fs (nd (\<not> s) (nd (\<not> s) L a M) c R)" "\<And>x. blc o1 x = blc o' x"
      using rotate_nd assms(1) C by blast
    let ?o = "set_blc c 0 (set_blc a 0 o1)" and ?T = "nd (\<not> s) (nd (\<not> s) L a M) c R"
    have h: "height R = height L + 1" "height M = height L" using single hC by auto
    have "BAVL_transform o' a delta = Some (?o, c, delta - 1)" unfolding start cb(1) using single r(1) by simp
    moreover have "bal ?o ?T" using bc [of ?o] r(3) cb assms(2) d(1) h by (simp add: bal_nd OPTNEG_def)
    moreover have "height ?T = height C" using h C by simp
    ultimately show ?thesis using r d(1) C inorder_rotate [of "\<not> s"] by (intro exI [of _ ?o] exI [of _ c] exI [of _ ?T]) auto
  next
    case even
    obtain o1 where r: "BAVL_rotate o' a (\<not> s) = Some o1" "at_place o1 fs (nd (\<not> s) (nd (\<not> s) L a M) c R)" "\<And>x. blc o1 x = blc o' x"
      using rotate_nd assms(1) C by blast
    let ?o = "set_blc c (- 1 * ?f) (set_blc a (1 * ?f) o1)" and ?T = "nd (\<not> s) (nd (\<not> s) L a M) c R"
    have h: "height R = height L + 1" "height M = height L + 1" using even hC by auto
    have "BAVL_transform o' a delta = Some (?o, c, delta)" unfolding start cb(1) using even r(1) by simp
    moreover have "bal ?o ?T" using bc [of ?o] r(3) cb assms(2) d(1) h by (auto simp: bal_nd OPTNEG_def)
    moreover have "height ?T = height C + 1" using h C by simp
    ultimately show ?thesis using r d(1) C inorder_rotate [of "\<not> s"] by (intro exI [of _ ?o] exI [of _ c] exI [of _ ?T]) auto
  next
    case double
    then have h: "height M = height L + 1" "height R = height L" using hC by auto
    then obtain M1 g M2 where M: "M = nd (\<not> s) M1 g M2" using nd_exhaust [of M "\<not> s"] by fastforce
    have g: "blc o' g * ?f = int (height M2) - int (height M1)" "bal o' M1" "bal o' M2" "- 1 \<le> blc o' g" "blc o' g \<le> 1"
      using cb(2) M by (auto simp: bal_nd OPTNEG_def)
    have lg: "lnk o' c (\<not> s) = Some g" using assms(1) C M by (simp add: at_place_def)
    have dg: "g \<noteq> a" "g \<noteq> c" "g \<notin> set_tree L" "g \<notin> set_tree M1" "g \<notin> set_tree M2" "g \<notin> set_tree R"
      using assms(1) C M by (auto simp: at_place_def)
    have "at_place o' ((s, a, L) # fs) (nd s R c (nd s M2 g M1))"
      using assms(1) C M by (cases s) (simp_all add: at_place_Cons nd_def)
    then obtain o1 where r1: "BAVL_rotate o' c s = Some o1" "at_place o1 ((s, a, L) # fs) (nd s (nd s R c M2) g M1)" "\<And>x. blc o1 x = blc o' x"
      using rotate_nd by blast
    have "at_place o1 fs (nd (\<not> s) L a (nd (\<not> s) M1 g (nd (\<not> s) M2 c R)))"
      using r1(2) by (cases s) (simp_all add: at_place_Cons nd_def)
    then obtain o2 where r2: "BAVL_rotate o1 a (\<not> s) = Some o2" "at_place o2 fs (nd (\<not> s) (nd (\<not> s) L a M1) g (nd (\<not> s) M2 c R))"
      "\<And>x. blc o2 x = blc o1 x" using rotate_nd by blast
    let ?x = "int (height M2) - int (height M1)"
    let ?o = "set_blc g 0 (set_blc c (max 0 (- ?x) * ?f) (set_blc a (- max 0 ?x * ?f) o2))"
    let ?T = "nd (\<not> s) (nd (\<not> s) L a M1) g (nd (\<not> s) M2 c R)"
    have "BAVL_transform o' a delta = Some (?o, g, delta - 1)"
      unfolding start cb(1) using double r1(1) r2(1) lg g(1) r1(3) r2(3) dg(1,2) by (simp add: Let_def)
    moreover have hM: "max (height M1) (height M2) = height L" using h(1) M by simp
    moreover have "bal ?o ?T"
    proof -
      have "bal ?o L = bal o' L" "bal ?o M1 = bal o' M1" "bal ?o M2 = bal o' M2" "bal ?o R = bal o' R"
        by (rule bal_cong; use d dg M r1(3) r2(3) in auto)+
      then show ?thesis using g cb assms(2) d(1) dg(1,2) h(2) hM by (auto simp: bal_nd OPTNEG_def)
    qed
    moreover have "height ?T = height C" using h(2) hM C M by auto
    moreover have "inorder ?T = inorder (nd (\<not> s) L a C)" unfolding C M by (auto simp: nd_def)
    moreover have "blc ?o b = blc o' b" if "b \<notin> set_tree (nd (\<not> s) L a C)" for b
      using that unfolding C M by (auto simp: r1(3) r2(3))
    ultimately show ?thesis using r2(2) by (intro exI [of _ ?o] exI [of _ g] exI [of _ ?T]) auto
  qed
qed


lemma bal_set_blc: "a \<notin> set_tree t \<Longrightarrow> bal (set_blc a x o') t = bal o' t"
  by (rule bal_cong) auto

text \<open>One level of \<open>_BAVL_rebalance\<close>.\<close>

lemma rebalance_level:
  assumes "at_place o' fs (nd s t a u)" "bal o' t" "bal o' u" "blc o' a = OPTNEG (int (height u) - int n) s" "- 1 \<le> blc o' a" "blc o' a \<le> 1"
    "int (height t) = int n + deltac" "deltac = 1 \<or> deltac = - 1"
  defines "delta \<equiv> max deltac (OPTNEG (blc o' a) s) - max 0 (OPTNEG (blc o' a) s)"
  shows "- 1 \<le> delta \<and> delta \<le> 1 \<and> (\<exists>o1 a' T. BAVL_transform (set_blc a (blc o' a - OPTNEG deltac s) o') a delta =
      Some (o1, a', int (height T) - int (Suc (max n (height u)))) \<and> top_of T = Some a' \<and> at_place o1 fs T \<and> bal o1 T \<and>
    inorder T = inorder (nd s t a u) \<and> - 1 \<le> int (height T) - int (Suc (max n (height u))) \<and>
    int (height T) - int (Suc (max n (height u))) \<le> 1 \<and> (\<forall>b. b \<notin> set_tree (nd s t a u) \<longrightarrow> blc o1 b = blc o' b))"
proof -
  let ?o = "set_blc a (blc o' a - OPTNEG deltac s) o'"
  have delta: "delta = int (max (height t) (height u)) - int (max n (height u))"
    using assms(4,7) by (auto simp: delta_def OPTNEG_def)
  have b: "blc ?o a = OPTNEG (int (height u) - int (height t)) s" using assms(4,7) by (auto simp: OPTNEG_def)
  have d: "a \<notin> set_tree t" "a \<notin> set_tree u" using assms(1) by (auto simp: at_place_def)
  have bt: "bal ?o t" "bal ?o u" using assms(2,3) d by (simp_all add: bal_set_blc)
  have r: "- 1 \<le> int (height u) - int n" "int (height u) - int n \<le> 1" using assms(4-6) by (auto simp: OPTNEG_def split: if_splits)
  have dr: "- 1 \<le> delta \<and> delta \<le> 1" unfolding delta using assms(7,8) by auto
  have o: "at_place ?o fs (nd s t a u)" using assms(1) by simp
  consider (ok) "abs (int (height u) - int (height t)) \<le> 1" | (up) "height u = height t + 2" | (down) "height t = height u + 2"
    using r assms(7,8) by fastforce
  then have "\<exists>o1 a' T. BAVL_transform ?o a delta = Some (o1, a', int (height T) - int (Suc (max n (height u)))) \<and> top_of T = Some a' \<and>
    at_place o1 fs T \<and> bal o1 T \<and> inorder T = inorder (nd s t a u) \<and> - 1 \<le> int (height T) - int (Suc (max n (height u))) \<and>
    int (height T) - int (Suc (max n (height u))) \<le> 1 \<and> (\<forall>b. b \<notin> set_tree (nd s t a u) \<longrightarrow> blc o1 b = blc o' b)"
  proof cases
    case ok
    then have "- 1 \<le> blc ?o a" "blc ?o a \<le> 1" unfolding b by (auto simp: OPTNEG_def)
    then have "bal ?o (nd s t a u)" using bt b by (simp add: bal_nd)
    moreover have "BAVL_transform ?o a delta = Some (?o, a, delta)"
      using \<open>- 1 \<le> blc ?o a\<close> \<open>blc ?o a \<le> 1\<close> unfolding BAVL_transform_def by simp
    ultimately show ?thesis using o dr delta by (intro exI [of _ ?o] exI [of _ a] exI [of _ "nd s t a u"]) auto
  next
    case up
    have "blc ?o a = OPTNEG 2 (\<not> \<not> s)" unfolding b using up by (simp add: OPTNEG_def)
    with transform_ok [of ?o fs "\<not> s" t a u delta] o bt up obtain o1 a' T
      where t: "BAVL_transform ?o a delta = Some (o1, a', delta + int (height T) - int (height u) - 1)" "top_of T = Some a'"
        "at_place o1 fs T" "bal o1 T" "inorder T = inorder (nd s t a u)" "height T = height u \<or> height T = height u + 1"
        "\<forall>b. b \<notin> set_tree (nd s t a u) \<longrightarrow> blc o1 b = blc ?o b" by auto
    have "delta + int (height T) - int (height u) - 1 = int (height T) - int (Suc (max n (height u)))"
      unfolding delta using up by auto
    moreover have "- 1 \<le> int (height T) - int (Suc (max n (height u)))" "int (height T) - int (Suc (max n (height u))) \<le> 1"
      using t(6) up assms(7,8) r by auto
    ultimately show ?thesis using t by (intro exI [of _ o1] exI [of _ a'] exI [of _ T]) auto
  next
    case down
    have "blc ?o a = OPTNEG 2 (\<not> s)" unfolding b using down by (simp add: OPTNEG_def)
    with transform_ok [of ?o fs s u a t delta] o bt down obtain o1 a' T
      where t: "BAVL_transform ?o a delta = Some (o1, a', delta + int (height T) - int (height t) - 1)" "top_of T = Some a'"
        "at_place o1 fs T" "bal o1 T" "inorder T = inorder (nd s t a u)" "height T = height t \<or> height T = height t + 1"
        "\<forall>b. b \<notin> set_tree (nd s t a u) \<longrightarrow> blc o1 b = blc ?o b" unfolding nd_flip by auto
    have "delta + int (height T) - int (height t) - 1 = int (height T) - int (Suc (max n (height u)))"
      unfolding delta using down by auto
    moreover have "- 1 \<le> int (height T) - int (Suc (max n (height u)))" "int (height T) - int (Suc (max n (height u))) \<le> 1"
      using t(6) down assms(7,8) r by auto
    ultimately show ?thesis using t by (intro exI [of _ o1] exI [of _ a'] exI [of _ T]) auto
  qed
  with dr show ?thesis by blast
qed

lemma rebalance_unfold:
  assumes "at_place o' fs (nd s t a u)" "bal o' t" "bal o' u" "blc o' a = OPTNEG (int (height u) - int n) s" "- 1 \<le> blc o' a" "blc o' a \<le> 1"
    "int (height t) = int n + deltac" "deltac = 1 \<or> deltac = - 1"
  obtains o1 a' delta T where
    "BAVL_rebalance o' a s deltac =
       (case par o1 a' of None \<Rightarrow> Some o1 | Some p \<Rightarrow> BAVL_rebalance o1 p (lnk o1 p True = Some a') delta)"
    "top_of T = Some a'" "at_place o1 fs T" "bal o1 T" "inorder T = inorder (nd s t a u)"
    "int (height T) = int (Suc (max n (height u))) + delta" "- 1 \<le> delta" "delta \<le> 1"
    "\<forall>b. b \<notin> set_tree (nd s t a u) \<longrightarrow> blc o1 b = blc o' b"
proof -
  note l = rebalance_level [OF assms]
  then obtain o1 a' T where t: "BAVL_transform (set_blc a (blc o' a - OPTNEG deltac s) o') a
      (max deltac (OPTNEG (blc o' a) s) - max 0 (OPTNEG (blc o' a) s)) = Some (o1, a', int (height T) - int (Suc (max n (height u))))"
    "top_of T = Some a'" "at_place o1 fs T" "bal o1 T" "inorder T = inorder (nd s t a u)"
    "- 1 \<le> int (height T) - int (Suc (max n (height u)))" "int (height T) - int (Suc (max n (height u))) \<le> 1"
    "\<forall>b. b \<notin> set_tree (nd s t a u) \<longrightarrow> blc o1 b = blc o' b" by blast
  define D where "D = int (height T) - int (Suc (max n (height u)))"
  note t' = t(1,6,7) [folded D_def]
  show ?thesis
  proof (rule that [OF _ t(2-5) _ t'(2,3) t(8)])
    show "BAVL_rebalance o' a s deltac =
        (case par o1 a' of None \<Rightarrow> Some o1 | Some p \<Rightarrow> BAVL_rebalance o1 p (lnk o1 p True = Some a') D)"
      using l [THEN conjunct1] l [THEN conjunct2, THEN conjunct1] t' assms(5,6,8) by (subst BAVL_rebalance.simps) (auto simp: Let_def)
  qed (simp_all add: D_def)
qed

lemma rebalance_0:
  assumes "at_place o' ((s, a, u) # fs) t" "bal o' t" "bal_place o' ((s, a, u) # fs) n" "height t = n"
  shows "\<exists>o1 T. BAVL_rebalance o' a s 0 = Some o1 \<and> bavl_shape o1 T \<and> bal o1 T \<and> inorder T = inorder (plug t ((s, a, u) # fs))"
proof (intro exI conjI)
  show "BAVL_rebalance o' a s 0 = Some o'" using assms(3) by (subst BAVL_rebalance.simps) simp
  show "bavl_shape o' (plug t ((s, a, u) # fs))" using assms(1) by (simp only: bavl_shape_plug)
  show "bal o' (plug t ((s, a, u) # fs))" by (rule bal_plug) (use assms in simp_all)
qed simp

text \<open>Rebalancing goes up to the root at most, ends, and restores the balance.\<close>

lemma rebalance_ok:
  "at_place o' ((s, a, u) # fs) t \<Longrightarrow> bal o' t \<Longrightarrow> bal_place o' ((s, a, u) # fs) n \<Longrightarrow> int (height t) = int n + deltac \<Longrightarrow>
    - 1 \<le> deltac \<Longrightarrow> deltac \<le> 1 \<Longrightarrow>
    \<exists>o1 T. BAVL_rebalance o' a s deltac = Some o1 \<and> bavl_shape o1 T \<and> bal o1 T \<and> inorder T = inorder (plug t ((s, a, u) # fs))"
proof (induction fs arbitrary: o' s a u t n deltac)
  case Nil
  show ?case
  proof (cases "deltac = 0")
    case True
    then have "height t = n" using Nil.prems(4) by simp
    then show ?thesis using rebalance_0 [OF Nil.prems(1-3)] True by blast
  next
    case False
    then have "deltac = 1 \<or> deltac = - 1" using Nil.prems(5,6) by linarith
    note d = this
    have pl: "at_place o' [] (nd s t a u)" using Nil.prems(1) by (simp add: at_place_Cons)
    from Nil.prems(3) have b: "bal o' u" "blc o' a = OPTNEG (int (height u) - int n) s" "- 1 \<le> blc o' a" "blc o' a \<le> 1" by auto
    obtain o1 a' delta T where r: "BAVL_rebalance o' a s deltac =
       (case par o1 a' of None \<Rightarrow> Some o1 | Some p \<Rightarrow> BAVL_rebalance o1 p (lnk o1 p True = Some a') delta)"
      "top_of T = Some a'" "at_place o1 [] T" "bal o1 T" "inorder T = inorder (nd s t a u)"
      "int (height T) = int (Suc (max n (height u))) + delta" "- 1 \<le> delta" "delta \<le> 1"
      "\<forall>b. b \<notin> set_tree (nd s t a u) \<longrightarrow> blc o1 b = blc o' b"
      by (rule rebalance_unfold [OF pl Nil.prems(2) b Nil.prems(4) d])
    have "par o1 a' = None" using r(2,3) by (cases T) (auto simp: at_place_def)
    then show ?thesis using r bavl_shape_plug [of o1 T "[]"] by auto
  qed
next
  case (Cons f fs)
  obtain s2 p u2 where f: "f = (s2, p, u2)" by (cases f)
  show ?case
  proof (cases "deltac = 0")
    case True
    then have "height t = n" using Cons.prems(4) by simp
    then show ?thesis using rebalance_0 [OF Cons.prems(1-3)] True by blast
  next
    case False
    then have d: "deltac = 1 \<or> deltac = - 1" using Cons.prems(5,6) by linarith
    have pl: "at_place o' (f # fs) (nd s t a u)" using Cons.prems(1) by (simp add: at_place_Cons)
    from Cons.prems(3) have b: "bal o' u" "blc o' a = OPTNEG (int (height u) - int n) s" "- 1 \<le> blc o' a" "blc o' a \<le> 1"
      "bal_place o' (f # fs) (Suc (max n (height u)))" by auto
    obtain o1 a' delta T where r: "BAVL_rebalance o' a s deltac =
       (case par o1 a' of None \<Rightarrow> Some o1 | Some p \<Rightarrow> BAVL_rebalance o1 p (lnk o1 p True = Some a') delta)"
      "top_of T = Some a'" "at_place o1 (f # fs) T" "bal o1 T" "inorder T = inorder (nd s t a u)"
      "int (height T) = int (Suc (max n (height u))) + delta" "- 1 \<le> delta" "delta \<le> 1"
      "\<forall>b. b \<notin> set_tree (nd s t a u) \<longrightarrow> blc o1 b = blc o' b"
      by (rule rebalance_unfold [OF pl Cons.prems(2) b(1-4) Cons.prems(4) d])
    have "par o1 a' = Some p" using r(2,3) by (cases T) (auto simp: at_place_def f)
    moreover have "(lnk o1 p True = Some a') = s2"
    proof -
      have "a' \<notin> set_tree u2" using r(2,3) top_in [of T a'] by (auto simp: at_place_def f)
      then have "top_of u2 \<noteq> Some a'" using top_in by blast
      then show ?thesis using r(2,3) by (cases s2) (auto simp: at_place_def f)
    qed
    ultimately have e: "BAVL_rebalance o' a s deltac = BAVL_rebalance o1 p s2 delta" using r(1) by simp
    have "bal_place o1 (f # fs) (Suc (max n (height u))) = bal_place o' (f # fs) (Suc (max n (height u)))"
      by (rule bal_place_cong) (use pl r(9) in \<open>auto simp: at_place_def\<close>)
    then have bp: "bal_place o1 ((s2, p, u2) # fs) (Suc (max n (height u)))" using b(5) f by simp
    from Cons.IH [OF r(3)[unfolded f] r(4) bp r(6-8)] obtain o2 T2 where
      "BAVL_rebalance o1 p s2 delta = Some o2" "bavl_shape o2 T2" "bal o2 T2" "inorder T2 = inorder (plug T ((s2, p, u2) # fs))" by blast
    moreover have "inorder (plug T ((s2, p, u2) # fs)) = inorder (plug t ((s, a, u) # f # fs))"
      using inorder_plug_cong [OF r(5), of "f # fs"] f by simp
    ultimately show ?thesis using e by auto
  qed
qed

end
