(* ===== verification/Badvpn_BAVL_List.thy ===== *)
theory Badvpn_BAVL_List
  imports Badvpn_BAVL
begin

text \<open>
  Insertion, removal, lookup and traversal of the trees of structure/BAVL.h: each ends, and a
  tree whose comparator keeps its contract behaves like the sorted list of its nodes, of
  which it is at most about twice the logarithm high. The lemmas about values stand in the
  locale of comparators; \<open>tree_refines_list\<close> sums them up.
\<close>


section \<open>Insertion and lookup\<close>

text \<open>The nodes before and after a place.\<close>

fun before :: "place \<Rightarrow> addr list" where
  "before [] = []"
| "before ((s, a, u) # fs) = before fs @ (if s then inorder u @ [a] else [])"

fun after :: "place \<Rightarrow> addr list" where
  "after [] = []"
| "after ((s, a, u) # fs) = (if s then [] else a # inorder u) @ after fs"

lemma inorder_plug: "inorder (plug t fs) = before fs @ inorder t @ after fs"
proof (induction fs arbitrary: t)
  case (Cons f fs)
  obtain s a u where f: "f = (s, a, u)" by (cases f)
  show ?case unfolding f plug.simps Cons.IH by (simp add: inorder_nd)
qed simp

lemma bal_plug_iff: "bal o' (plug t fs) \<longleftrightarrow> bal o' t \<and> bal_place o' fs (height t)"
proof (induction fs arbitrary: t)
  case (Cons f fs)
  obtain s a u where f: "f = (s, a, u)" by (cases f)
  show ?case unfolding f plug.simps Cons.IH by (auto simp: bal_nd)
qed simp

context comparator_contract
begin

definition ordered :: "(addr \<Rightarrow> 'a) \<Rightarrow> shape \<Rightarrow> bool" where
  "ordered val t \<longleftrightarrow> sorted_wrt (\<lambda>a b. cmp (val a) (val b) = - 1) (inorder t) \<and> (\<forall>a\<in>set_tree t. ok (val a))"

lemma greater_iff: "ok a \<Longrightarrow> ok b \<Longrightarrow> cmp a b = 1 \<longleftrightarrow> cmp b a = - 1"
  using swap [of a b] by auto

lemma greater_trans: "ok a \<Longrightarrow> ok b \<Longrightarrow> ok c \<Longrightarrow> cmp a b = 1 \<Longrightarrow> cmp c b = - 1 \<Longrightarrow> cmp a c = 1"
  using less_trans [of c b a] greater_iff by blast

text \<open>
  What a search for \<open>v\<close> in the tree \<open>W\<close> finds: a node with that value, or a free place
  whose neighbours lie on the right sides of it.
\<close>

definition search_ok :: "(addr \<Rightarrow> 'a) \<Rightarrow> 'a \<Rightarrow> shape \<Rightarrow> (addr + addr \<times> bool) option \<Rightarrow> bool" where
  "search_ok val v W res \<longleftrightarrow> (\<exists>a\<in>set_tree W. res = Some (Inl a) \<and> val a = v) \<or>
    (\<exists>s a u gs. res = Some (Inr (a, s)) \<and> plug Leaf ((s, a, u) # gs) = W \<and>
       (\<forall>x\<in>set (before ((s, a, u) # gs)). cmp v (val x) = 1) \<and> (\<forall>x\<in>set (after ((s, a, u) # gs)). cmp v (val x) = - 1))"

lemma descend_ok:
  "at_place o' fs t \<Longrightarrow> ordered val (plug t fs) \<Longrightarrow> ok v \<Longrightarrow> \<forall>x\<in>set (before fs). cmp v (val x) = 1 \<Longrightarrow>
    \<forall>x\<in>set (after fs). cmp v (val x) = - 1 \<Longrightarrow> top_of t = Some c \<Longrightarrow> search_ok val v (plug t fs) (BAVL_descend cmp val o' v c)"
proof (induction t arbitrary: fs c)
  case (Node l x r)
  then have c: "x = c" by simp
  note pr = Node.prems [unfolded c]
  have okc: "ok (val c)" "\<forall>x\<in>set_tree l. ok (val x)" "\<forall>x\<in>set_tree r. ok (val x)" using pr(2) by (auto simp: ordered_def)
  have srt: "\<forall>x\<in>set_tree l. cmp (val x) (val c) = - 1" "\<forall>x\<in>set_tree r. cmp (val c) (val x) = - 1"
    using pr(2) by (auto simp: ordered_def inorder_plug sorted_wrt_append)
  show ?case
  proof (cases "cmp v (val c) = 0")
    case True
    then have "val c = v" using eq_iff [OF pr(3) okc(1)] by simp
    moreover have "BAVL_descend cmp val o' v c = Some (Inl c)" using True by (subst BAVL_descend.simps) simp_all
    ultimately show ?thesis unfolding search_ok_def c by simp
  next
    case False
    define s where "s = (cmp v (val c) = 1)"
    define t where "t = (if s then r else l)"
    define u where "u = (if s then l else r)"
    have cs: "cmp v (val c) = (if s then 1 else - 1)" using False range [of v "val c"] by (auto simp: s_def)
    have n: "Node l c r = nd s t c u" by (simp add: nd_def t_def u_def)
    have p: "plug t ((s, c, u) # fs) = plug (Node l x r) fs" unfolding c n by simp
    have lk: "lnk o' c s = top_of t" using pr(1) unfolding n by (auto simp: at_place_def)
    have b: "\<forall>x\<in>set (before ((s, c, u) # fs)). cmp v (val x) = 1" "\<forall>x\<in>set (after ((s, c, u) # fs)). cmp v (val x) = - 1"
      using pr(4,5) cs greater_trans [OF pr(3) okc(1)] less_trans [OF pr(3) okc(1)] okc(2,3) srt by (auto simp: u_def split: if_splits)
    have pl: "at_place o' ((s, c, u) # fs) t" using pr(1) by (simp only: at_place_Cons n)
    show ?thesis
    proof (cases "top_of t")
      case None
      then have "t = Leaf" by (cases t) auto
      moreover have "BAVL_descend cmp val o' v c = Some (Inr (c, s))" using False range [of v "val c"] lk None by (subst BAVL_descend.simps) (auto simp: s_def Let_def)
      ultimately show ?thesis using b p unfolding search_ok_def by blast
    next
      case (Some c')
      have e: "BAVL_descend cmp val o' v c = BAVL_descend cmp val o' v c'" using False range [of v "val c"] lk Some by (subst BAVL_descend.simps) (auto simp: s_def Let_def)
      have o: "ordered val (plug t ((s, c, u) # fs))" using pr(2) p c by simp
      have "search_ok val v (plug t ((s, c, u) # fs)) (BAVL_descend cmp val o' v c')"
      proof (cases s)
        case True
        then show ?thesis using Node.IH(2) [of "(s, c, u) # fs" c'] pl o pr(3) b Some by (simp add: t_def)
      next
        case False
        then show ?thesis using Node.IH(1) [of "(s, c, u) # fs" c'] pl o pr(3) b Some by (simp add: t_def)
      qed
      then show ?thesis unfolding p e .
    qed
  qed
qed simp

end


text \<open>
  A tree stands for the list of its nodes in the order of their values: the node that has a
  value, and the list with a new node.
\<close>

definition insert_sorted :: "('v \<Rightarrow> 'v \<Rightarrow> int) \<Rightarrow> (addr \<Rightarrow> 'v) \<Rightarrow> addr \<Rightarrow> addr list \<Rightarrow> addr list" where
  "insert_sorted cmp val n xs = filter (\<lambda>x. cmp (val x) (val n) = - 1) xs @ n # filter (\<lambda>x. cmp (val n) (val x) = - 1) xs"

definition node_of :: "(addr \<Rightarrow> 'v) \<Rightarrow> shape \<Rightarrow> 'v \<Rightarrow> addr option" where
  "node_of val t v = List.find (\<lambda>a. val a = v) (inorder t)"

text \<open>Putting a new leaf at a free place.\<close>

lemma leaf_at_place:
  assumes "at_place o' fs Leaf" "n \<notin> place_nodes fs"
  defines "o1 \<equiv> set_blc n 0 (set_lnk n True None (set_lnk n False None (set_par n (place_par fs) (set_hole fs (Some n) o'))))"
  shows "at_place o1 fs (Node Leaf n Leaf)" "bal o1 (Node Leaf n Leaf)" "bal_place o1 fs k = bal_place o' fs k"
proof -
  have "rep_place (set_hole fs (Some n) o') fs (Some n)"
    using assms(1) rep_place_set_hole by (auto simp: at_place_def)
  moreover have "rep_place o1 fs (Some n) = rep_place (set_hole fs (Some n) o') fs (Some n)"
    by (rule rep_place_cong) (use assms(2) in \<open>auto simp: o1_def\<close>)
  ultimately show "at_place o1 fs (Node Leaf n Leaf)" using assms(1,2) by (auto simp: at_place_def o1_def)
  show "bal o1 (Node Leaf n Leaf)" by (simp add: o1_def)
  show "bal_place o1 fs k = bal_place o' fs k" by (rule bal_place_cong) (use assms(2) in \<open>auto simp: o1_def\<close>)
qed

context comparator_contract
begin

definition bavl_inv :: "(addr \<Rightarrow> 'a) \<Rightarrow> BAVL \<Rightarrow> shape \<Rightarrow> bool" where
  "bavl_inv val o' t \<longleftrightarrow> bavl_shape o' t \<and> bal o' t \<and> ordered val t"

lemma bavl_inv_Init: "bavl_inv val (BAVL_Init o') Leaf"
  by (simp add: bavl_inv_def bavl_shape_def ordered_def BAVL_Init_def)

lemma ordered_inj:
  assumes "ordered val t"
  shows "inj_on val (set_tree t)"
proof -
  have irr: "ok x \<Longrightarrow> cmp x x \<noteq> - 1" for x using eq_iff [of x x] by simp
  have "sorted_wrt (\<lambda>a b. cmp (val a) (val b) = - 1) xs \<Longrightarrow> \<forall>a\<in>set xs. ok (val a) \<Longrightarrow> inj_on val (set xs)" for xs :: "addr list"
  proof (induction xs)
    case (Cons x xs)
    have "val x \<noteq> val y" if "y \<in> set xs" for y using Cons.prems that irr [of "val x"] by fastforce
    then have "val x \<notin> val ` set xs" by auto
    then have "val x \<notin> val ` (set xs - {x})" by blast
    then show ?case using Cons by simp
  qed simp
  from this [of "inorder t"] show ?thesis using assms unfolding ordered_def by simp
qed

lemma node_of_Some:
  assumes "ordered val t" "a \<in> set_tree t"
  shows "node_of val t (val a) = Some a"
proof -
  have "List.find (\<lambda>b. val b = val a) (inorder t) \<noteq> None" using assms(2) by (auto simp: find_None_iff)
  then obtain b where b: "List.find (\<lambda>b. val b = val a) (inorder t) = Some b" by blast
  then obtain i where "i < length (inorder t)" "val (inorder t ! i) = val a" "b = inorder t ! i" by (auto simp: find_Some_iff)
  then have "b \<in> set (inorder t)" "val b = val a" using nth_mem by blast+
  then have "b = a" using inj_onD [OF ordered_inj [OF assms(1)], of b a] assms(2) by simp
  then show ?thesis using b by (simp add: node_of_def)
qed

lemma node_of_None: "(\<And>a. a \<in> set_tree t \<Longrightarrow> val a \<noteq> v) \<Longrightarrow> node_of val t v = None"
  by (auto simp: node_of_def find_None_iff)

lemma search_root:
  assumes "bavl_inv val o' t" "ok v" "bv_root o' = Some c"
  shows "search_ok val v t (BAVL_descend cmp val o' v c)"
proof -
  have "at_place o' [] t" "top_of t = Some c" using assms(1,3) bavl_shape_plug [of o' t "[]"] by (auto simp: bavl_inv_def bavl_shape_def)
  with descend_ok [of o' "[]" t val v c] assms(1,2) show ?thesis by (simp add: bavl_inv_def)
qed

lemma search_free:
  assumes "plug Leaf ((s, a, u) # gs) = t" "\<forall>x\<in>set (before ((s, a, u) # gs)). cmp v (val x) = 1"
    "\<forall>x\<in>set (after ((s, a, u) # gs)). cmp v (val x) = - 1" "ordered val t" "ok v" "x \<in> set_tree t"
  shows "val x \<noteq> v"
proof -
  have "set_tree t = set (before ((s, a, u) # gs)) \<union> set (after ((s, a, u) # gs))"
    using inorder_plug [of Leaf "(s, a, u) # gs"] assms(1) by (metis append_Nil inorder.simps(1) set_append set_inorder)
  then have "cmp v (val x) \<noteq> 0" using assms(2,3,6) by (metis UnE one_neq_neg_one zero_neq_neg_one zero_neq_one)
  then show ?thesis using eq_iff [of v v] assms(5) by auto
qed

lemma lookup_ok:
  assumes "bavl_inv val o' t" "ok v"
  shows "BAVL_LookupExact cmp val o' v = Some (node_of val t v)"
proof (cases "bv_root o'")
  case None
  then have "t = Leaf" using assms(1) by (cases t) (auto simp: bavl_inv_def bavl_shape_def)
  then show ?thesis using None by (simp add: BAVL_LookupExact_def node_of_def)
next
  case (Some c)
  have ord: "ordered val t" using assms(1) by (simp add: bavl_inv_def)
  from search_root [OF assms Some] show ?thesis unfolding search_ok_def
  proof (elim disjE bexE exE conjE)
    fix a assume "a \<in> set_tree t" "BAVL_descend cmp val o' v c = Some (Inl a)" "val a = v"
    then show ?thesis using node_of_Some [OF ord, of a] Some by (simp add: BAVL_LookupExact_def)
  next
    fix s a u gs assume r: "BAVL_descend cmp val o' v c = Some (Inr (a, s))" "plug Leaf ((s, a, u) # gs) = t"
      "\<forall>x\<in>set (before ((s, a, u) # gs)). cmp v (val x) = 1" "\<forall>x\<in>set (after ((s, a, u) # gs)). cmp v (val x) = - 1"
    have "node_of val t v = None" by (rule node_of_None) (rule search_free [OF r(2-4) ord assms(2)])
    then show ?thesis using r(1) Some by (simp add: BAVL_LookupExact_def)
  qed
qed

lemma ordered_insert:
  assumes "ordered val t" "plug Leaf fs = t" "ok (val n)" "inorder T = before fs @ n # after fs"
    "\<forall>x\<in>set (before fs). cmp (val n) (val x) = 1" "\<forall>x\<in>set (after fs). cmp (val n) (val x) = - 1"
  shows "ordered val T" "inorder T = insert_sorted cmp val n (inorder t)"
proof -
  have i: "inorder t = before fs @ after fs" using inorder_plug [of Leaf fs] assms(2) by simp
  have st: "set_tree t = set (before fs) \<union> set (after fs)" unfolding set_inorder [symmetric] i by simp
  have s: "set_tree T = insert n (set_tree t)" unfolding st unfolding set_inorder [symmetric] assms(4) by simp
  have ok: "\<forall>x\<in>set_tree t. ok (val x)" and srt: "sorted_wrt (\<lambda>a b. cmp (val a) (val b) = - 1) (before fs @ after fs)"
    using assms(1) unfolding ordered_def i by blast+
  have b: "\<forall>x\<in>set (before fs). cmp (val x) (val n) = - 1" using assms(3,5) ok st greater_iff by blast
  then have "sorted_wrt (\<lambda>a b. cmp (val a) (val b) = - 1) (before fs @ n # after fs)"
    using srt assms(6) unfolding sorted_wrt_append by simp
  then show "ordered val T" using ok assms(3) unfolding ordered_def s assms(4) by blast
  have a: "\<forall>x\<in>set (after fs). cmp (val x) (val n) = 1" using assms(3,6) ok st greater_iff by blast
  show "inorder T = insert_sorted cmp val n (inorder t)"
    unfolding insert_sorted_def i assms(4) using a b assms(5,6) by simp
qed

lemma insert_free:
  assumes "bavl_inv val o' t" "n \<notin> set_tree t" "ok (val n)" "bv_root o' = Some c"
    "BAVL_descend cmp val o' (val n) c = Some (Inr (a, s))" "plug Leaf ((s, a, u) # gs) = t"
    "\<forall>x\<in>set (before ((s, a, u) # gs)). cmp (val n) (val x) = 1" "\<forall>x\<in>set (after ((s, a, u) # gs)). cmp (val n) (val x) = - 1"
  shows "\<exists>o1 T. BAVL_Insert cmp val o' n = Some (o1, True, Some a) \<and> bavl_inv val o1 T \<and> inorder T = insert_sorted cmp val n (inorder t)"
proof -
  define fs where "fs = (s, a, u) # gs"
  have ord: "ordered val t" and sh: "bavl_shape o' t" and bl: "bal o' t" using assms(1) by (simp_all add: bavl_inv_def)
  note r = assms(6-8) [folded fs_def]
  have pl: "at_place o' fs Leaf" using sh unfolding r(1) [symmetric] bavl_shape_plug .
  have bp: "bal_place o' fs 0" using bl unfolding r(1) [symmetric] bal_plug_iff by simp
  have nn: "n \<notin> place_nodes fs" using assms(2) set_plug [of Leaf fs] unfolding r(1) by simp
  define o2 where "o2 = set_blc n 0 (set_lnk n True None (set_lnk n False None (set_par n (place_par fs) (set_hole fs (Some n) o'))))"
  have lf: "at_place o2 fs (Node Leaf n Leaf)" "bal o2 (Node Leaf n Leaf)" "bal_place o2 fs 0 = bal_place o' fs 0"
    unfolding o2_def by (rule leaf_at_place [OF pl nn])+
  have bp2: "bal_place o2 fs 0" using lf(3) bp by simp
  have "\<exists>o1 T. BAVL_rebalance o2 a s 1 = Some o1 \<and> bavl_shape o1 T \<and> bal o1 T \<and> inorder T = inorder (plug (Node Leaf n Leaf) fs)"
    unfolding fs_def by (rule rebalance_ok [OF lf(1,2) [unfolded fs_def] bp2 [unfolded fs_def]]) simp_all
  then obtain o1 T where T: "BAVL_rebalance o2 a s 1 = Some o1" "bavl_shape o1 T" "bal o1 T"
    "inorder T = inorder (plug (Node Leaf n Leaf) fs)" by (elim exE conjE)
  have "inorder T = before fs @ n # after fs" unfolding T(4) inorder_plug by simp
  note oi = ordered_insert [OF ord r(1) assms(3) this r(2,3)]
  have o: "set_blc n 0 (set_lnk n True None (set_lnk n False None (set_par n (Some a) (set_lnk a s (Some n) o')))) = o2"
    by (simp add: o2_def fs_def set_hole_def)
  have "BAVL_Insert cmp val o' n = Some (o1, True, Some a)"
    unfolding BAVL_Insert_def assms(4) option.case assms(5) sum.case prod.case Let_def o T(1) ..
  moreover have "bavl_inv val o1 T" using T(2,3) oi(1) by (simp add: bavl_inv_def)
  ultimately show ?thesis using oi(2) by (intro exI conjI)
qed

end


context comparator_contract
begin

lemma insert_empty:
  assumes "bavl_inv val o' Leaf" "ok (val n)"
  shows "\<exists>o1. BAVL_Insert cmp val o' n = Some (o1, True, None) \<and> bavl_inv val o1 (Node Leaf n Leaf)"
proof -
  define o1 where "o1 = set_blc n 0 (set_lnk n True None (set_lnk n False None (set_par n None (set_root (Some n) o'))))"
  have "bv_root o' = None" using assms(1) by (simp add: bavl_inv_def bavl_shape_def)
  then have "BAVL_Insert cmp val o' n = Some (o1, True, None)" by (simp add: BAVL_Insert_def o1_def)
  moreover have "bavl_inv val o1 (Node Leaf n Leaf)"
    using assms(2) by (simp add: bavl_inv_def bavl_shape_def ordered_def o1_def)
  ultimately show ?thesis by blast
qed

text \<open>Inserting a node that is not in the tree: it is linked unless a node has its value.\<close>

lemma insert_ok:
  assumes "bavl_inv val o' t" "n \<notin> set_tree t" "ok (val n)"
  shows "\<exists>o1 T r. BAVL_Insert cmp val o' n = Some (o1, node_of val t (val n) = None, r) \<and> bavl_inv val o1 T \<and>
    inorder T = (if node_of val t (val n) = None then insert_sorted cmp val n (inorder t) else inorder t) \<and>
    (node_of val t (val n) \<noteq> None \<longrightarrow> r = node_of val t (val n))"
proof (cases "bv_root o'")
  case None
  then have t: "t = Leaf" using assms(1) by (cases t) (auto simp: bavl_inv_def bavl_shape_def)
  obtain o1 where "BAVL_Insert cmp val o' n = Some (o1, True, None)" "bavl_inv val o1 (Node Leaf n Leaf)"
    using insert_empty assms(1,3) unfolding t by blast
  then show ?thesis unfolding t by (intro exI [of _ o1] exI [of _ "Node Leaf n Leaf"] exI [of _ None]) (simp add: node_of_def insert_sorted_def)
next
  case (Some c)
  have ord: "ordered val t" using assms(1) by (simp add: bavl_inv_def)
  from search_root [OF assms(1,3) Some] show ?thesis unfolding search_ok_def
  proof (elim disjE bexE exE conjE)
    fix a assume a: "a \<in> set_tree t" "BAVL_descend cmp val o' (val n) c = Some (Inl a)" "val a = val n"
    have nf: "node_of val t (val n) = Some a" using node_of_Some [OF ord a(1)] a(3) by simp
    have "BAVL_Insert cmp val o' n = Some (o', False, Some a)" unfolding BAVL_Insert_def Some option.case a(2) sum.case ..
    then show ?thesis unfolding nf using assms(1) by (intro exI [of _ o'] exI [of _ t] exI [of _ "Some a"]) simp
  next
    fix s a u gs assume r: "BAVL_descend cmp val o' (val n) c = Some (Inr (a, s))" "plug Leaf ((s, a, u) # gs) = t"
      "\<forall>x\<in>set (before ((s, a, u) # gs)). cmp (val n) (val x) = 1" "\<forall>x\<in>set (after ((s, a, u) # gs)). cmp (val n) (val x) = - 1"
    have nf: "node_of val t (val n) = None" by (rule node_of_None) (rule search_free [OF r(2-4) ord assms(3)])
    obtain o1 T where i: "BAVL_Insert cmp val o' n = Some (o1, True, Some a)" "bavl_inv val o1 T" "inorder T = insert_sorted cmp val n (inorder t)"
      using insert_free [OF assms Some r] by blast
    show ?thesis unfolding nf i(1) using i(2,3) by (intro exI [of _ o1] exI [of _ T] exI [of _ "Some a"]) simp
  qed
qed

end

section \<open>Removal\<close>

lemma place_of_node: "a \<in> set_tree t \<Longrightarrow> \<exists>fs l r. t = plug (Node l a r) fs"
proof -
  have "a \<in> set_tree t \<Longrightarrow> \<exists>gs l r. plug t fs = plug (Node l a r) gs" for fs
  proof (induction t arbitrary: fs)
    case (Node l x r)
    then consider "a = x" | "a \<in> set_tree l" | "a \<in> set_tree r" by auto
    then show ?case
    proof cases
      case 2
      then show ?thesis using Node.IH(1) [of "(False, x, r) # fs"] by (simp add: nd_def)
    next
      case 3
      then show ?thesis using Node.IH(2) [of "(True, x, l) # fs"] by (simp add: nd_def)
    qed blast
  qed simp
  then show "a \<in> set_tree t \<Longrightarrow> \<exists>fs l r. t = plug (Node l a r) fs" by (metis plug.simps(1))
qed

text \<open>Replacing a node by its only subtree.\<close>

lemma replace_ok:
  assumes "at_place o' fs (nd s c n Leaf)"
  shows "at_place (BAVL_replace_subtree o' n (top_of c)) fs c" "blc (BAVL_replace_subtree o' n (top_of c)) a = blc o' a"
proof -
  define o1 where "o1 = set_hole fs (top_of c) o'"
  define o2 where "o2 = set_par_opt (top_of c) (place_par fs) o1"
  have p: "rep_place o' fs (Some n)" "par o' n = place_par fs" "n \<notin> place_nodes fs" "distinct_place fs" "n \<notin> set_tree c"
    "distinct_tree c" "set_tree c \<inter> place_nodes fs = {}" "rep o' (Some n) c"
    using assms by (auto simp: at_place_def)
  have h: "(case par o' n of Some p \<Rightarrow> set_lnk p (lnk o' p True = Some n) (top_of c) o' | None \<Rightarrow> set_root (top_of c) o') = o1"
    unfolding o1_def by (rule set_hole_code [OF p(1-3)]) simp_all
  have code: "BAVL_replace_subtree o' n (top_of c) = o2"
    unfolding BAVL_replace_subtree_def Let_def h unfolding o2_def using p(2) by (simp add: o1_def)
  have "rep_place o1 fs (top_of c)" unfolding o1_def by (rule rep_place_set_hole [OF p(1,4)])
  moreover have "rep_place o2 fs (top_of c) = rep_place o1 fs (top_of c)"
    by (rule rep_place_cong) (use p(7) top_in in \<open>auto simp: o2_def disjoint_iff\<close>)
  moreover have "rep o2 (place_par fs) c"
    by (rule rep_move [OF p(8,6)]) (use p(7) in \<open>auto simp: o2_def o1_def disjoint_iff\<close>)
  ultimately show "at_place (BAVL_replace_subtree o' n (top_of c)) fs c" unfolding code using p by (simp add: at_place_def)
  show "blc (BAVL_replace_subtree o' n (top_of c)) a = blc o' a" unfolding code by (simp add: o2_def o1_def)
qed

lemma excise_ok:
  assumes "at_place o' fs (nd s c n Leaf)" "bal o' (nd s c n Leaf)" "bal_place o' fs (Suc (height c))"
  shows "\<exists>o1 T. BAVL_excise o' n = Some o1 \<and> bavl_shape o1 T \<and> bal o1 T \<and> inorder T = before fs @ inorder c @ after fs"
proof -
  define o1 where "o1 = BAVL_replace_subtree o' n (top_of c)"
  note r = replace_ok [OF assms(1), folded o1_def]
  have bc: "bal o1 c" using assms(2) bal_cong [of c o1 o'] r(2) by (simp add: bal_nd)
  have bp: "bal_place o1 fs (Suc (height c))" using assms(3) bal_place_cong [of fs o1 o'] r(2) by simp
  have l: "lnk o' n s = top_of c" "lnk o' n (\<not> s) = None" "par o' n = place_par fs" using assms(1) by (auto simp: at_place_def)
  have g: "\<not> (lnk o' n False \<noteq> None \<and> lnk o' n True \<noteq> None)"
    "(if lnk o' n False \<noteq> None then lnk o' n False else lnk o' n True) = top_of c"
    using l by (cases s; auto)+
  note start = BAVL_excise_def [of o' n, unfolded if_not_P [OF g(1)] g(2) Let_def l(3), folded o1_def]
  show ?thesis
  proof (cases fs)
    case Nil
    have "BAVL_excise o' n = Some o1" unfolding start Nil by simp
    moreover have "bavl_shape o1 c" using r(1) bavl_shape_plug [of o1 c "[]"] by (simp add: Nil)
    ultimately show ?thesis using bc by (intro exI [of _ o1] exI [of _ c]) (simp add: Nil)
  next
    case (Cons f fs')
    obtain s' p u where f: "f = (s', p, u)" by (cases f)
    have "(lnk o' p True = Some n) = s'"
    proof -
      have "top_of u \<noteq> Some n" using assms(1) top_in [of u n] by (auto simp: at_place_def Cons f)
      then show ?thesis using assms(1) by (cases s') (auto simp: at_place_def Cons f)
    qed
    then have e: "BAVL_excise o' n = BAVL_rebalance o1 p s' (- 1)" unfolding start Cons f by simp
    obtain o2 T where "BAVL_rebalance o1 p s' (- 1) = Some o2" "bavl_shape o2 T" "bal o2 T" "inorder T = inorder (plug c ((s', p, u) # fs'))"
      using rebalance_ok [OF r(1) [unfolded Cons f] bc bp [unfolded Cons f], of "- 1"] by auto
    then show ?thesis unfolding e inorder_plug Cons f by (intro exI conjI)
  qed
qed


subsection \<open>Exchanging two nodes\<close>

definition swp :: "addr \<Rightarrow> addr \<Rightarrow> addr \<Rightarrow> addr" where
  "swp n m x = (if x = n then m else if x = m then n else x)"

lemma swp_simps [simp]: "swp n m n = m" "swp n m m = n" "swp n m (swp n m x) = x" "x \<noteq> n \<Longrightarrow> x \<noteq> m \<Longrightarrow> swp n m x = x"
  by (simp_all add: swp_def)

lemma inj_swp: "inj (swp n m)"
  by (rule inj_on_inverseI [of _ "swp n m"]) simp

text \<open>What the links of a tree's nodes satisfy.\<close>

definition linked :: "BAVL \<Rightarrow> addr set \<Rightarrow> bool" where
  "linked o' S \<longleftrightarrow> (\<forall>a\<in>S. (\<forall>s b. lnk o' a s = Some b \<longrightarrow> b \<in> S \<and> par o' b = Some a \<and> lnk o' a (\<not> s) \<noteq> Some b \<and> par o' a \<noteq> Some b \<and> a \<noteq> b) \<and>
     (\<forall>p. par o' a = Some p \<longrightarrow> p \<in> S \<and> (\<exists>s. lnk o' p s = Some a)) \<and> (par o' a = None \<longleftrightarrow> bv_root o' = Some a))"

lemma linkedD:
  assumes "linked o' S" "a \<in> S"
  shows "lnk o' a s = Some b \<Longrightarrow> b \<in> S" "lnk o' a s = Some b \<Longrightarrow> par o' b = Some a" "lnk o' a s = Some b \<Longrightarrow> lnk o' a s' = Some b \<Longrightarrow> s' = s"
    "lnk o' a s = Some b \<Longrightarrow> par o' a \<noteq> Some b" "lnk o' a s \<noteq> Some a"
    "par o' a = Some p \<Longrightarrow> p \<in> S" "par o' a = Some p \<Longrightarrow> \<exists>s. lnk o' p s = Some a" "par o' a = None \<longleftrightarrow> bv_root o' = Some a"
proof -
  note l = assms(1) [unfolded linked_def, THEN bspec, OF assms(2)]
  note l1 = l [THEN conjunct1, rule_format]
  show "lnk o' a s = Some b \<Longrightarrow> b \<in> S" "lnk o' a s = Some b \<Longrightarrow> par o' b = Some a" "lnk o' a s = Some b \<Longrightarrow> par o' a \<noteq> Some b"
    using l1 by blast+
  show "lnk o' a s \<noteq> Some a" using l1 by blast
  show "lnk o' a s = Some b \<Longrightarrow> lnk o' a s' = Some b \<Longrightarrow> s' = s" using l1 [of s b] by (cases s; cases s') auto
  show "par o' a = Some p \<Longrightarrow> p \<in> S" "par o' a = Some p \<Longrightarrow> \<exists>s. lnk o' p s = Some a" "par o' a = None \<longleftrightarrow> bv_root o' = Some a"
    using l by blast+
qed

lemma bavl_shape_linked:
  assumes "bavl_shape o' t"
  shows "linked o' (set_tree t)"
  unfolding linked_def
proof (intro ballI)
  fix a assume "a \<in> set_tree t"
  then obtain fs l r where t: "t = plug (Node l a r) fs" using place_of_node by blast
  have p: "at_place o' fs (Node l a r)" using assms unfolding t bavl_shape_plug .
  then have f: "par o' a = place_par fs" "lnk o' a False = top_of l" "lnk o' a True = top_of r" "rep o' (Some a) l" "rep o' (Some a) r"
    "a \<notin> set_tree l" "a \<notin> set_tree r" "set_tree l \<inter> set_tree r = {}" "set_tree l \<inter> place_nodes fs = {}" "set_tree r \<inter> place_nodes fs = {}"
    "a \<notin> place_nodes fs" "rep_place o' fs (Some a)"
    by (auto simp: at_place_def)
  have pp: "place_par fs = Some q \<Longrightarrow> q \<in> place_nodes fs \<and> (\<exists>s. lnk o' q s = Some a)" for q
    using f(12) by (cases fs rule: place_par.cases) auto
  have sub: "b \<in> set_tree u \<and> par o' b = Some a" if "top_of u = Some b" "rep o' (Some a) u" for u b
    using that by (cases u) auto
  have lk: "b \<in> set_tree t \<and> par o' b = Some a \<and> lnk o' a (\<not> s) \<noteq> Some b \<and> par o' a \<noteq> Some b \<and> a \<noteq> b" if "lnk o' a s = Some b" for s b
  proof (cases s)
    case True
    then have b: "top_of r = Some b" using that f(3) by simp
    then show ?thesis using sub [OF b f(5)] f True pp [of b] top_in [of l b] t by (auto simp: disjoint_iff)
  next
    case False
    then have b: "top_of l = Some b" using that f(2) by simp
    then show ?thesis using sub [OF b f(4)] f False pp [of b] top_in [of r b] t by (auto simp: disjoint_iff)
  qed
  have rt: "par o' a = None \<longleftrightarrow> bv_root o' = Some a"
  proof (cases fs rule: place_par.cases)
    case (2 s p u gs)
    have "bv_root o' \<noteq> Some a"
    proof
      assume "bv_root o' = Some a"
      then have "par o' a = None" using assms by (cases t) (auto simp: bavl_shape_def)
      then show False using f(1) 2 by simp
    qed
    then show ?thesis using f(1) 2 by simp
  qed (use f(1,12) in auto)
  show "(\<forall>s b. lnk o' a s = Some b \<longrightarrow> b \<in> set_tree t \<and> par o' b = Some a \<and> lnk o' a (\<not> s) \<noteq> Some b \<and> par o' a \<noteq> Some b \<and> a \<noteq> b) \<and>
     (\<forall>p. par o' a = Some p \<longrightarrow> p \<in> set_tree t \<and> (\<exists>s. lnk o' p s = Some a)) \<and> (par o' a = None \<longleftrightarrow> bv_root o' = Some a)"
    using lk rt pp f(1) unfolding t by auto
qed

text \<open>A store in which the nodes of another have been renamed.\<close>

definition renamed :: "(addr \<Rightarrow> addr) \<Rightarrow> BAVL \<Rightarrow> BAVL \<Rightarrow> addr set \<Rightarrow> bool" where
  "renamed f o1 o' S \<longleftrightarrow> bv_root o1 = map_option f (bv_root o') \<and>
     (\<forall>a\<in>S. par o1 (f a) = map_option f (par o' a) \<and> (\<forall>s. lnk o1 (f a) s = map_option f (lnk o' a s)))"

lemma top_of_map [simp]: "top_of (map_tree f t) = map_option f (top_of t)"
  by (cases t) simp_all

lemma rep_rename:
  "\<forall>a\<in>set_tree t. par o1 (f a) = map_option f (par o' a) \<and> (\<forall>s. lnk o1 (f a) s = map_option f (lnk o' a s)) \<Longrightarrow> rep o' p t \<Longrightarrow>
    rep o1 (map_option f p) (map_tree f t)"
proof (induction t arbitrary: p)
  case (Node l a r)
  then show ?case using Node.IH(1) [of "Some a"] Node.IH(2) [of "Some a"] by auto
qed simp

lemma shape_rename:
  assumes "renamed f o1 o' (set_tree t)" "bavl_shape o' t" "inj f"
  shows "bavl_shape o1 (map_tree f t)"
proof -
  have "rep o1 (map_option f None) (map_tree f t)" by (rule rep_rename) (use assms in \<open>auto simp: renamed_def bavl_shape_def\<close>)
  moreover have "distinct_tree (map_tree f t)"
    using assms(2,3) by (simp add: distinct_tree_inorder bavl_shape_def inorder_map distinct_map inj_on_subset [OF _ subset_UNIV])
  ultimately show ?thesis using assms(1,2) by (simp add: bavl_shape_def renamed_def)
qed

lemma bal_rename: "(\<And>a. blc o1 (f a) = blc o' a) \<Longrightarrow> bal o1 (map_tree f t) = bal o' t"
  by (induction t) auto


text \<open>Pointing the parent of \<open>n\<close>, or the root, to \<open>m\<close> instead.\<close>

definition redirect :: "addr option \<Rightarrow> addr \<Rightarrow> addr \<Rightarrow> BAVL \<Rightarrow> BAVL" where
  "redirect q n m o' = (case q of Some p \<Rightarrow> set_lnk p (lnk o' p True = Some n) (Some m) o' | None \<Rightarrow> set_root (Some m) o')"

lemma redirect_simps [simp]:
  "par (redirect q n m o') a = par o' a" "blc (redirect q n m o') a = blc o' a"
  "bv_root (redirect q n m o') = (if q = None then Some m else bv_root o')"
  "q \<noteq> Some a \<Longrightarrow> lnk (redirect q n m o') a s = lnk o' a s"
  by (cases q; auto simp: redirect_def)+

lemma redirect_lnk:
  assumes "\<exists>s. lnk o' p s = Some n" "\<And>s s'. lnk o' p s = Some n \<Longrightarrow> lnk o' p s' = Some n \<Longrightarrow> s' = s"
  shows "lnk (redirect (Some p) n m o') p s = (if lnk o' p s = Some n then Some m else lnk o' p s)"
proof -
  obtain s0 where s0: "lnk o' p s0 = Some n" using assms(1) by blast
  then have "(lnk o' p s' = Some n) = (s' = s0)" for s' using assms(2) by blast
  moreover have "(True = s0) = s0" by simp
  ultimately show ?thesis by (simp add: redirect_def)
qed

lemma map_swp: "x \<noteq> Some n \<Longrightarrow> x \<noteq> Some m \<Longrightarrow> map_option (swp n m) x = x"
  by (cases x) (auto simp: swp_def)

lemma swap_connected_ok:
  assumes "linked o' S" "n1 \<in> S" "lnk o' n1 side = Some n2"
  shows "renamed (swp n1 n2) (BAVL_swap_connected o' n1 n2) o' S" "blc (BAVL_swap_connected o' n1 n2) a = blc o' a"
proof -
  define c where "c = lnk o' n1 (\<not> side)"
  define o1 where "o1 = set_par_opt (lnk o' n2 True) (Some n1) (set_lnk n1 True (lnk o' n2 True)
    (set_par_opt (lnk o' n2 False) (Some n1) (set_lnk n1 False (lnk o' n2 False) o')))"
  define o2 where "o2 = set_par n2 (par o' n1) o1"
  define o3 where "o3 = redirect (par o' n1) n1 n2 o2"
  define o4 where "o4 = set_par_opt c (Some n2) (set_lnk n2 (\<not> side) c (set_par n1 (Some n2) (set_lnk n2 side (Some n1) o3)))"
  note L = linkedD [OF assms(1)]
  have n2: "n2 \<in> S" "par o' n2 = Some n1" "n2 \<noteq> n1" "par o' n1 \<noteq> Some n2" "par o' n1 \<noteq> Some n1"
    using L(1,2,4,5) [OF assms(2)] assms(3) L(5) [of n1] L(6,7) [OF assms(2)] by (blast | metis)+
  have sd: "(lnk o' n1 True = Some n2) = side" using assms(3) L(3) [OF assms(2), of side n2] by (cases side) auto
  have ch: "lnk o' n2 s \<noteq> Some n1" "lnk o' n2 s \<noteq> Some n2" for s using L(2,5) [OF n2(1)] n2(4) by blast+
  have cn: "c \<noteq> Some n1" "c \<noteq> Some n2" using L(3,5) [OF assms(2)] assms(3) unfolding c_def by blast+
  have code: "BAVL_swap_connected o' n1 n2 = o4"
    unfolding BAVL_swap_connected_def o4_def o3_def o2_def o1_def c_def redirect_def Let_def sd
    using n2 ch by (cases "par o' n1") simp_all
  show "blc (BAVL_swap_connected o' n1 n2) a = blc o' a" unfolding code by (simp add: o4_def o3_def o2_def o1_def)
  have l2: "lnk o2 a s = (if a = n1 then lnk o' n2 s else lnk o' a s)" for a s using n2(3) by (cases s) (auto simp: o2_def o1_def)
  have l3: "lnk o3 a s = (if a = n1 then lnk o' n2 s else if lnk o' a s = Some n1 then Some n2 else lnk o' a s)" if "a \<in> S" for a s
  proof (cases "par o' n1 = Some a")
    case True
    have a: "a \<noteq> n1" using True n2(5) by blast
    have "lnk o3 a s = (if lnk o2 a s = Some n1 then Some n2 else lnk o2 a s)"
      unfolding o3_def True by (rule redirect_lnk) (use L(7) [OF assms(2) True] L(3) [OF that] a in \<open>auto simp: l2\<close>)
    then show ?thesis using a by (simp add: l2)
  next
    case False
    then have "lnk o' a s \<noteq> Some n1" using L(2) [OF that] by blast
    then show ?thesis using False by (simp add: o3_def l2)
  qed
  have l4: "lnk o4 a s = (if a = n2 then if s = side then Some n1 else c else lnk o3 a s)" for a s by (auto simp: o4_def)
  have p4: "par o4 a = (if c = Some a then Some n2 else if a = n1 then Some n2 else if a = n2 then par o' n1
      else if \<exists>s. lnk o' n2 s = Some a then Some n1 else par o' a)" for a
    using ch by (auto simp: o4_def o3_def o2_def o1_def ex_bool_eq)
  have r4: "bv_root o4 = map_option (swp n1 n2) (bv_root o')"
    using L(8) [OF assms(2)] L(8) [OF n2(1)] n2(2) by (cases "bv_root o'") (auto simp: o4_def o3_def o2_def o1_def swp_def)
  have "par o4 (swp n1 n2 a) = map_option (swp n1 n2) (par o' a) \<and> (\<forall>s. lnk o4 (swp n1 n2 a) s = map_option (swp n1 n2) (lnk o' a s))"
    if a: "a \<in> S" for a
  proof -
    consider (1) "a = n1" | (2) "a = n2" | (3) "a \<noteq> n1" "a \<noteq> n2" by blast
    then show ?thesis
    proof cases
      case 1
      have "lnk o' n1 s = (if s = side then Some n2 else c)" for s using assms(3) by (cases s; cases side) (auto simp: c_def)
      then show ?thesis using n2 cn by (simp add: 1 p4 l4 map_swp)
    next
      case 2
      then show ?thesis using n2 cn ch assms(2) by (simp add: p4 l4 l3 map_swp)
    next
      case 3
      have "lnk o' a s \<noteq> Some n2" for s using L(2) [OF a, of s n2] n2(2) 3(1) by auto
      then have "\<forall>s. lnk o4 a s = map_option (swp n1 n2) (lnk o' a s)" using 3 a by (auto simp: l4 l3 map_swp)
      moreover have "par o4 a = map_option (swp n1 n2) (par o' a)"
      proof -
        have "c = Some a \<longleftrightarrow> par o' a = Some n1"
        proof
          assume "par o' a = Some n1"
          then obtain s where s: "lnk o' n1 s = Some a" using L(7) [OF a] by blast
          then have "s = (\<not> side)" using assms(3) 3(2) by (cases s; cases side) auto
          then show "c = Some a" using s by (simp add: c_def)
        qed (use L(2) [OF assms(2)] c_def in simp)
        moreover have "(\<exists>s. lnk o' n2 s = Some a) \<longleftrightarrow> par o' a = Some n2" using L(2) [OF n2(1)] L(7) [OF a] by blast
        ultimately show ?thesis using 3 by (auto simp: p4 map_swp)
      qed
      ultimately show ?thesis using 3 by simp
    qed
  qed
  then show "renamed (swp n1 n2) (BAVL_swap_connected o' n1 n2) o' S" unfolding code renamed_def using r4 by blast
qed


lemma swap_apart_ok:
  assumes "linked o' S" "n1 \<in> S" "n2 \<in> S" "n1 \<noteq> n2" "par o' n1 \<noteq> Some n2" "par o' n2 \<noteq> Some n1" "par o' n1 \<noteq> par o' n2"
  shows "renamed (swp n1 n2) (BAVL_swap_apart o' n1 n2) o' S" "blc (BAVL_swap_apart o' n1 n2) a = blc o' a"
proof -
  define o2 where "o2 = redirect (par o' n2) n2 n1 (set_par n1 (par o' n2) o')"
  define o4 where "o4 = redirect (par o' n1) n1 n2 (set_par n2 (par o' n1) o2)"
  define o5 where "o5 = set_par_opt (lnk o' n1 False) (Some n2) (set_lnk n2 False (lnk o' n1 False)
    (set_par_opt (lnk o' n2 False) (Some n1) (set_lnk n1 False (lnk o' n2 False) o4)))"
  define o6 where "o6 = set_par_opt (lnk o' n1 True) (Some n2) (set_lnk n2 True (lnk o' n1 True)
    (set_par_opt (lnk o' n2 True) (Some n1) (set_lnk n1 True (lnk o' n2 True) o5)))"
  note L = linkedD [OF assms(1)]
  have c1: "lnk o' n1 s \<noteq> Some n1" "lnk o' n1 s \<noteq> Some n2" for s using L(2,5) [OF assms(2)] assms(6) by blast+
  have c2: "lnk o' n2 s \<noteq> Some n1" "lnk o' n2 s \<noteq> Some n2" for s using L(2,5) [OF assms(3)] assms(5) by blast+
  have pn: "par o' n1 \<noteq> Some n1" "par o' n2 \<noteq> Some n2" using L(7) [OF assms(2), of n1] L(7) [OF assms(3), of n2] c1 c2 by blast+
  have l2: "lnk o2 a s = (if lnk o' a s = Some n2 then Some n1 else lnk o' a s)" if "a \<in> S" for a s
  proof (cases "par o' n2 = Some a")
    case True
    have "lnk o2 a s = (if lnk (set_par n1 (par o' n2) o') a s = Some n2 then Some n1 else lnk (set_par n1 (par o' n2) o') a s)"
      unfolding o2_def True by (rule redirect_lnk) (use L(7) [OF assms(3) True] L(3) [OF that] in simp_all)
    then show ?thesis by simp
  next
    case False
    then have "lnk o' a s \<noteq> Some n2" using L(2) [OF that] by blast
    then show ?thesis using False by (simp add: o2_def)
  qed
  have l4: "lnk o4 a s = (if lnk o' a s = Some n1 then Some n2 else if lnk o' a s = Some n2 then Some n1 else lnk o' a s)" if "a \<in> S" for a s
  proof (cases "par o' n1 = Some a")
    case True
    have ne: "lnk o' a s' \<noteq> Some n2" for s' using L(2) [OF that] True assms(7) by (metis)
    then have "lnk o4 a s = (if lnk (set_par n2 (par o' n1) o2) a s = Some n1 then Some n2 else lnk (set_par n2 (par o' n1) o2) a s)"
      unfolding o4_def True by (intro redirect_lnk) (use L(7) [OF assms(2) True] L(3) [OF that] in \<open>simp_all add: l2 [OF that]\<close>)
    then show ?thesis using ne by (simp add: l2 [OF that])
  next
    case False
    then have "lnk o' a s \<noteq> Some n1" using L(2) [OF that] by blast
    then show ?thesis using False by (simp add: o4_def l2 [OF that])
  qed
  have e: "lnk o4 n1 s = lnk o' n1 s" "lnk o4 n2 s = lnk o' n2 s" for s using l4 [OF assms(2)] l4 [OF assms(3)] c1 c2 by simp_all
  have code: "BAVL_swap_apart o' n1 n2 = o6"
  proof -
    have "BAVL_swap_apart o' n1 n2 =
       (let tree = o4; temp = lnk tree n1 False;
          tree = set_lnk n1 False (lnk tree n2 False) tree;
          tree = set_par_opt (lnk tree n1 False) (Some n1) tree;
          tree = set_lnk n2 False temp tree;
          tree = set_par_opt temp (Some n2) tree;
          temp = lnk tree n1 True;
          tree = set_lnk n1 True (lnk tree n2 True) tree;
          tree = set_par_opt (lnk tree n1 True) (Some n1) tree;
          tree = set_lnk n2 True temp tree
      in set_par_opt temp (Some n2) tree)"
      unfolding BAVL_swap_apart_def o4_def o2_def redirect_def Let_def
      using assms(4-6) by (cases "par o' n1"; cases "par o' n2") simp_all
    also have "\<dots> = o6" unfolding o6_def o5_def Let_def using e assms(4) by simp
    finally show ?thesis .
  qed
  show "blc (BAVL_swap_apart o' n1 n2) a = blc o' a" unfolding code by (simp add: o6_def o5_def o4_def o2_def)
  have l6: "lnk o6 a s = (if a = n1 then lnk o' n2 s else if a = n2 then lnk o' n1 s else lnk o4 a s)" for a s
    using assms(4) by (cases s) (auto simp: o6_def o5_def)
  have p6: "par o6 a = (if \<exists>s. lnk o' n1 s = Some a then Some n2 else if \<exists>s. lnk o' n2 s = Some a then Some n1
      else if a = n1 then par o' n2 else if a = n2 then par o' n1 else par o' a)" if "a \<in> S" for a
  proof -
    have "lnk o' n1 s \<noteq> Some a \<or> lnk o' n2 s' \<noteq> Some a" for s s' using L(2) [OF assms(2)] L(2) [OF assms(3)] assms(4) by fastforce
    then show ?thesis using assms(4) by (auto simp: o6_def o5_def o4_def o2_def ex_bool_eq)
  qed
  have r6: "bv_root o6 = map_option (swp n1 n2) (bv_root o')"
    using L(8) [OF assms(2)] L(8) [OF assms(3)] assms(4,7)
    by (cases "bv_root o'") (auto simp: o6_def o5_def o4_def o2_def swp_def)
  have "par o6 (swp n1 n2 a) = map_option (swp n1 n2) (par o' a) \<and> (\<forall>s. lnk o6 (swp n1 n2 a) s = map_option (swp n1 n2) (lnk o' a s))"
    if a: "a \<in> S" for a
  proof -
    consider (1) "a = n1" | (2) "a = n2" | (3) "a \<noteq> n1" "a \<noteq> n2" by blast
    then show ?thesis
    proof cases
      case 1
      show ?thesis using c1 c2 pn assms(4,5) by (simp add: 1 l6 p6 [OF assms(3)] map_swp)
    next
      case 2
      show ?thesis using c1 c2 pn assms(4,6) by (simp add: 2 l6 p6 [OF assms(2)] map_swp)
    next
      case 3
      have "\<forall>s. lnk o6 a s = map_option (swp n1 n2) (lnk o' a s)" using 3 assms(4) by (auto simp: l6 l4 [OF a] map_swp)
      moreover have "(\<exists>s. lnk o' n1 s = Some a) \<longleftrightarrow> par o' a = Some n1" "(\<exists>s. lnk o' n2 s = Some a) \<longleftrightarrow> par o' a = Some n2"
        using L(2) [OF assms(2)] L(2) [OF assms(3)] L(7) [OF a] by blast+
      then have "par o6 a = map_option (swp n1 n2) (par o' a)" using 3 assms(4) by (simp add: p6 [OF a] map_swp)
      ultimately show ?thesis using 3 by simp
    qed
  qed
  then show "renamed (swp n1 n2) (BAVL_swap_apart o' n1 n2) o' S" unfolding code renamed_def using r6 by blast
qed


lemma renamed_set_blc [simp]: "renamed f (set_blc a x o1) o' S = renamed f o1 o' S"
  by (simp add: renamed_def)

lemma swap_nodes_ok:
  assumes "linked o' S" "n1 \<in> S" "n2 \<in> S" "n1 \<noteq> n2" "par o' n1 \<noteq> Some n2" "par o' n2 = Some n1 \<or> par o' n1 \<noteq> par o' n2"
  shows "renamed (swp n1 n2) (BAVL_swap_nodes o' n1 n2) o' S" "blc (BAVL_swap_nodes o' n1 n2) (swp n1 n2 a) = blc o' a"
proof -
  define o1 where "o1 = (if par o' n2 = Some n1 then BAVL_swap_connected o' n1 n2 else BAVL_swap_apart o' n1 n2)"
  have code: "BAVL_swap_nodes o' n1 n2 = set_blc n2 (blc o1 n1) (set_blc n1 (blc o1 n2) o1)"
    unfolding BAVL_swap_nodes_def o1_def using assms(5) by (simp add: Let_def)
  have "renamed (swp n1 n2) o1 o' S \<and> (\<forall>a. blc o1 a = blc o' a)"
  proof (cases "par o' n2 = Some n1")
    case True
    then obtain side where "lnk o' n1 side = Some n2" using linkedD(7) [OF assms(1,3)] by blast
    then show ?thesis using swap_connected_ok [OF assms(1,2)] True by (simp add: o1_def)
  next
    case False
    then show ?thesis using swap_apart_ok [OF assms(1-5)] assms(6) by (simp add: o1_def)
  qed
  then show "renamed (swp n1 n2) (BAVL_swap_nodes o' n1 n2) o' S" "blc (BAVL_swap_nodes o' n1 n2) (swp n1 n2 a) = blc o' a"
    unfolding code using assms(4) by (auto simp: swp_def)
qed

text \<open>Places in a renamed tree and in a subtree.\<close>

definition map_place :: "(addr \<Rightarrow> addr) \<Rightarrow> place \<Rightarrow> place" where
  "map_place f = map (\<lambda>(s, a, u). (s, f a, map_tree f u))"

lemma map_plug: "map_tree f (plug t fs) = plug (map_tree f t) (map_place f fs)"
proof (induction fs arbitrary: t)
  case (Cons g fs)
  obtain s a u where g: "g = (s, a, u)" by (cases g)
  show ?case using Cons [of "nd s t a u"] by (simp add: g map_place_def nd_def)
qed (simp add: map_place_def)

lemma before_map: "before (map_place f fs) = map f (before fs)"
  by (induction fs rule: before.induct) (auto simp: map_place_def inorder_map)

lemma after_map: "after (map_place f fs) = map f (after fs)"
  by (induction fs rule: after.induct) (auto simp: map_place_def inorder_map)

lemma plug_append: "plug t (fs @ gs) = plug (plug t fs) gs"
  by (induction t fs rule: plug.induct) simp_all

lemma after_append: "after (fs @ gs) = after fs @ after gs"
  by (induction fs rule: after.induct) simp_all

lemma place_par_in: "place_par fs = Some p \<Longrightarrow> p \<in> place_nodes fs"
  by (cases fs rule: place_par.cases) auto

lemma max_ok:
  "rep o' p t \<Longrightarrow> top_of t = Some a \<Longrightarrow> \<exists>gs c m. BAVL_subtree_max o' a = Some m \<and> t = plug (Node c m Leaf) gs \<and> after gs = []"
proof (induction t arbitrary: p a)
  case (Node l x r)
  show ?case
  proof (cases "top_of r")
    case None
    then have r: "r = Leaf" by (cases r) auto
    have "BAVL_subtree_max o' a = Some a" using Node.prems r by (subst BAVL_subtree_max.simps) auto
    then show ?thesis using Node.prems r by (intro exI [of _ "[]"] exI [of _ l] exI [of _ a]) simp
  next
    case (Some b)
    have e: "BAVL_subtree_max o' a = BAVL_subtree_max o' b" using Node.prems Some by (subst BAVL_subtree_max.simps) auto
    have "rep o' (Some x) r" using Node.prems by simp
    from Node.IH(2) [OF this Some] obtain gs c m where m: "BAVL_subtree_max o' b = Some m" "r = plug (Node c m Leaf) gs" "after gs = []" by blast
    have "Node l x r = plug (Node c m Leaf) (gs @ [(True, x, l)])" unfolding plug_append m(2) by (simp add: nd_def)
    moreover have "after (gs @ [(True, x, l)]) = []" using m(3) by (simp add: after_append)
    ultimately show ?thesis using e m(1) by auto
  qed
qed simp

text \<open>Exchanging a node with the last node of its left subtree.\<close>

lemma swap_max_ok:
  assumes "bavl_shape o' t" "bal o' t" "t = plug (Node l n r) fs" "l = plug (Node c m Leaf) gs"
  defines "P \<equiv> gs @ (False, n, r) # fs" and "o1 \<equiv> BAVL_swap_nodes o' n m"
  shows "at_place o1 (map_place (swp n m) P) (nd False (map_tree (swp n m) c) n Leaf)"
    "bal o1 (plug (nd False (map_tree (swp n m) c) n Leaf) (map_place (swp n m) P))"
proof -
  have t: "t = plug (Node c m Leaf) P" unfolding P_def plug_append by (simp add: assms(3,4) nd_def)
  have pn: "at_place o' fs (Node l n r)" using assms(1) unfolding assms(3) bavl_shape_plug .
  have pm: "at_place o' P (Node c m Leaf)" using assms(1) unfolding t bavl_shape_plug .
  have ml: "m \<in> set_tree l" and gl: "place_nodes gs \<subseteq> set_tree l" by (auto simp: assms(4))
  have d: "n \<notin> set_tree l" "n \<notin> place_nodes fs" "set_tree l \<inter> place_nodes fs = {}" "par o' n = place_par fs" using pn by (auto simp: at_place_def)
  have mP: "par o' m = place_par P" using pm by (simp add: at_place_def)
  have S: "n \<in> set_tree t" "m \<in> set_tree t" unfolding assms(3) using ml by simp_all
  have nm: "n \<noteq> m" using d(1) ml by blast
  have p1: "par o' n \<noteq> Some m" using place_par_in [of fs m] d(3,4) ml by auto
  have p2: "par o' m = Some n \<or> par o' n \<noteq> par o' m"
  proof (cases gs)
    case Nil
    then show ?thesis using mP by (simp add: P_def)
  next
    case (Cons g gs')
    obtain s p u where g: "g = (s, p, u)" by (cases g)
    have "par o' m = Some p" "p \<in> set_tree l" using mP gl by (auto simp: P_def Cons g)
    then show ?thesis using place_par_in [of fs p] d(3,4) by auto
  qed
  note sw = swap_nodes_ok [OF bavl_shape_linked [OF assms(1)] S nm p1 p2, folded o1_def]
  have m: "map_tree (swp n m) t = plug (nd False (map_tree (swp n m) c) n Leaf) (map_place (swp n m) P)"
    unfolding t map_plug by (simp add: nd_def)
  show "at_place o1 (map_place (swp n m) P) (nd False (map_tree (swp n m) c) n Leaf)"
    using shape_rename [OF sw(1) assms(1) inj_swp] unfolding m bavl_shape_plug .
  show "bal o1 (plug (nd False (map_tree (swp n m) c) n Leaf) (map_place (swp n m) P))"
    using bal_rename [of o1 "swp n m" o' t] sw(2) assms(2) unfolding m by simp
qed


text \<open>A list without one of its elements, when that occurs once.\<close>

lemma filter_once: "n \<notin> set xs \<Longrightarrow> n \<notin> set ys \<Longrightarrow> filter (\<lambda>x. x \<noteq> n) (xs @ n # ys) = xs @ ys"
  using filter_True [of xs "\<lambda>x. x \<noteq> n"] filter_True [of ys "\<lambda>x. x \<noteq> n"] by fastforce

lemma map_swp_id: "n \<notin> set xs \<Longrightarrow> m \<notin> set xs \<Longrightarrow> map (swp n m) xs = xs"
  by (rule map_idI) (auto simp: swp_def)

lemma remove_two:
  assumes "bavl_shape o' t" "bal o' t" "t = plug (Node l n r) fs" "l \<noteq> Leaf" "r \<noteq> Leaf"
  shows "\<exists>o1 T. BAVL_Remove o' n = Some o1 \<and> bavl_shape o1 T \<and> bal o1 T \<and> inorder T = filter (\<lambda>x. x \<noteq> n) (inorder t)"
proof -
  have pn: "rep o' (place_par fs) (Node l n r)" using assms(1) unfolding assms(3) bavl_shape_plug at_place_def by blast
  obtain a where a: "top_of l = Some a" using assms(4) by (cases l) auto
  have lk: "lnk o' n False = Some a" "lnk o' n True \<noteq> None" "rep o' (Some n) l" using pn a assms(5) by (cases r; auto)+
  obtain gs c m where g: "BAVL_subtree_max o' a = Some m" "l = plug (Node c m Leaf) gs" "after gs = []"
    using max_ok [OF lk(3) a] by blast
  define P where "P = gs @ (False, n, r) # fs"
  define o1 where "o1 = BAVL_swap_nodes o' n m"
  define f where "f = swp n m"
  note sw = swap_max_ok [OF assms(1-3) g(2), folded P_def o1_def f_def]
  have code: "BAVL_Remove o' n = BAVL_excise o1 n"
    unfolding BAVL_Remove_def lk(1) option.case if_P [OF lk(2)] g(1) o1_def ..
  have b: "bal o1 (nd False (map_tree f c) n Leaf)" "bal_place o1 (map_place f P) (Suc (height (map_tree f c)))"
    using sw(2) unfolding bal_plug_iff by simp_all
  obtain o2 T where T: "BAVL_excise o1 n = Some o2" "bavl_shape o2 T" "bal o2 T"
      "inorder T = before (map_place f P) @ inorder (map_tree f c) @ after (map_place f P)"
    using excise_ok [OF sw(1) b] by blast
  define X where "X = inorder r @ after fs"
  have aP: "after P = n # X" by (simp add: P_def after_append g(3) X_def)
  have it: "inorder t = (before P @ inorder c @ [m]) @ n # X"
  proof -
    have "t = plug (Node c m Leaf) P" unfolding P_def plug_append by (simp add: assms(3) g(2) [symmetric] nd_def)
    then show ?thesis by (simp add: inorder_plug aP)
  qed
  have d: "distinct (inorder t)" using assms(1) by (simp add: bavl_shape_def distinct_tree_inorder)
  have "map f (before P) = before P" "map f (inorder c) = inorder c" "map f X = X"
    unfolding f_def by (rule map_swp_id; use d it in auto)+
  then have "inorder T = (before P @ inorder c @ [m]) @ X" unfolding T(4) before_map after_map inorder_map aP by (simp add: f_def)
  also have "\<dots> = filter (\<lambda>x. x \<noteq> n) (inorder t)" unfolding it by (rule filter_once [symmetric]) (use d it in auto)
  finally show ?thesis using T(1-3) code by auto
qed

lemma remove_one:
  assumes "bavl_shape o' t" "bal o' t" "t = plug (nd s c n Leaf) fs"
  shows "\<exists>o1 T. BAVL_Remove o' n = Some o1 \<and> bavl_shape o1 T \<and> bal o1 T \<and> inorder T = filter (\<lambda>x. x \<noteq> n) (inorder t)"
proof -
  have pn: "at_place o' fs (nd s c n Leaf)" using assms(1) unfolding assms(3) bavl_shape_plug .
  have "lnk o' n (\<not> s) = None" using pn by (simp add: at_place_def)
  then have code: "BAVL_Remove o' n = BAVL_excise o' n"
    unfolding BAVL_Remove_def by (cases s) (auto split: option.split)
  have b: "bal o' (nd s c n Leaf)" "bal_place o' fs (Suc (height c))" using assms(2) unfolding assms(3) bal_plug_iff by simp_all
  obtain o2 T where T: "BAVL_excise o' n = Some o2" "bavl_shape o2 T" "bal o2 T" "inorder T = before fs @ inorder c @ after fs"
    using excise_ok [OF pn b] by blast
  have d: "distinct (inorder t)" using assms(1) by (simp add: bavl_shape_def distinct_tree_inorder)
  have "inorder T = filter (\<lambda>x. x \<noteq> n) (inorder t)"
  proof (cases s)
    case True
    then have i: "inorder t = before fs @ n # (inorder c @ after fs)" by (simp add: assms(3) inorder_plug nd_def)
    show ?thesis unfolding T(4) i by (rule filter_once [symmetric]) (use d i in auto)
  next
    case False
    then have i: "inorder t = (before fs @ inorder c) @ n # after fs" by (simp add: assms(3) inorder_plug nd_def)
    have "(before fs @ inorder c) @ after fs = filter (\<lambda>x. x \<noteq> n) (inorder t)" unfolding i by (rule filter_once [symmetric]) (use d i in auto)
    then show ?thesis unfolding T(4) by simp
  qed
  then show ?thesis using T(1-3) code by auto
qed

lemma remove_shape:
  assumes "bavl_shape o' t" "bal o' t" "n \<in> set_tree t"
  shows "\<exists>o1 T. BAVL_Remove o' n = Some o1 \<and> bavl_shape o1 T \<and> bal o1 T \<and> inorder T = filter (\<lambda>x. x \<noteq> n) (inorder t)"
proof -
  obtain fs l r where t: "t = plug (Node l n r) fs" using place_of_node [OF assms(3)] by blast
  consider (l) "l = Leaf" | (r) "r = Leaf" | (two) "l \<noteq> Leaf" "r \<noteq> Leaf" by blast
  then show ?thesis
  proof cases
    case l
    show ?thesis by (rule remove_one [OF assms(1,2), of True r]) (simp add: t l nd_def)
  next
    case r
    show ?thesis by (rule remove_one [OF assms(1,2), of False l]) (simp add: t r nd_def)
  qed (rule remove_two [OF assms(1,2) t])
qed

context comparator_contract
begin

lemma remove_ok:
  assumes "bavl_inv val o' t" "n \<in> set_tree t"
  shows "\<exists>o1 T. BAVL_Remove o' n = Some o1 \<and> bavl_inv val o1 T \<and> inorder T = filter (\<lambda>x. x \<noteq> n) (inorder t)"
proof -
  have i: "bavl_shape o' t" "bal o' t" "ordered val t" using assms(1) by (simp_all add: bavl_inv_def)
  obtain o1 T where T: "BAVL_Remove o' n = Some o1" "bavl_shape o1 T" "bal o1 T" "inorder T = filter (\<lambda>x. x \<noteq> n) (inorder t)"
    using remove_shape [OF i(1,2) assms(2)] by blast
  have s: "set_tree T = set_tree t - {n}" using arg_cong [OF T(4), of set] by auto
  have "ordered val T" using i(3) unfolding ordered_def s T(4) by (auto intro: sorted_wrt_filter)
  then show ?thesis using T by (auto simp: bavl_inv_def)
qed

end

section \<open>Traversal\<close>

definition opt_hd :: "'a list \<Rightarrow> 'a option" where
  "opt_hd xs = (case xs of [] \<Rightarrow> None | x # _ \<Rightarrow> Some x)"

lemma opt_hd_append: "xs \<noteq> [] \<Longrightarrow> opt_hd (xs @ ys) = opt_hd xs"
  by (cases xs) (simp_all add: opt_hd_def)

lemma down_ok:
  "rep o' p t \<Longrightarrow> top_of t = Some a \<Longrightarrow> map_option Some (BAVL_down o' s a) = Some (opt_hd (if s then rev (inorder t) else inorder t))"
proof (induction t arbitrary: p a)
  case (Node l x r)
  define u where "u = (if s then r else l)"
  have k: "lnk o' x s = top_of u" "rep o' (Some x) u" "a = x" using Node.prems by (auto simp: u_def)
  show ?case
  proof (cases "top_of u")
    case None
    then have "u = Leaf" by (cases u) auto
    then have "opt_hd (if s then rev (inorder (Node l x r)) else inorder (Node l x r)) = Some x" by (auto simp: u_def opt_hd_def split: if_splits)
    moreover have "BAVL_down o' s a = Some x" using k None by (subst BAVL_down.simps) simp
    ultimately show ?thesis by simp
  next
    case (Some b)
    then have "inorder u \<noteq> []" by (cases u) auto
    then have "opt_hd (if s then rev (inorder (Node l x r)) else inorder (Node l x r)) = opt_hd (if s then rev (inorder u) else inorder u)"
      by (auto simp: u_def opt_hd_def split: list.split if_splits)
    moreover have "BAVL_down o' s a = BAVL_down o' s b" using k Some by (subst BAVL_down.simps) simp
    moreover have "map_option Some (BAVL_down o' s b) = Some (opt_hd (if s then rev (inorder u) else inorder u))"
      using Node.IH(1) [of "Some x" b] Node.IH(2) [of "Some x" b] k(2) Some by (cases s) (simp_all add: u_def)
    ultimately show ?thesis by simp
  qed
qed simp

lemma up_ok:
  "at_place o' fs t \<Longrightarrow> top_of t = Some n \<Longrightarrow>
    map_option (\<lambda>n. par o' n) (BAVL_up o' s n) = Some (opt_hd (if s then after fs else rev (before fs)))"
proof (induction fs arbitrary: t n)
  case Nil
  then have "par o' n = None" by (cases t) (auto simp: at_place_def)
  then have "BAVL_up o' s n = Some n" by (subst BAVL_up.simps) simp
  then show ?case using \<open>par o' n = None\<close> by (simp add: opt_hd_def)
next
  case (Cons f fs)
  obtain s' a u where f: "f = (s', a, u)" by (cases f)
  have p: "par o' n = Some a" using Cons.prems by (cases t) (auto simp: at_place_def f)
  have "top_of u \<noteq> Some n" using Cons.prems top_in [of u n] top_in [of t n] by (auto simp: at_place_def f)
  then have l: "(lnk o' a s = Some n) = (s = s')" using Cons.prems by (cases s; cases s') (auto simp: at_place_def f)
  show ?case
  proof (cases "s = s'")
    case True
    have "at_place o' fs (nd s' t a u)" using Cons.prems(1) unfolding f at_place_Cons .
    from Cons.IH [OF this, of a] have "map_option (\<lambda>n. par o' n) (BAVL_up o' s a) = Some (opt_hd (if s then after fs else rev (before fs)))" by simp
    moreover have "BAVL_up o' s n = BAVL_up o' s a" using p l True by (subst BAVL_up.simps) simp
    ultimately show ?thesis using True by (auto simp: f split: if_splits)
  next
    case False
    have "BAVL_up o' s n = Some n" using p l False by (subst BAVL_up.simps) simp
    then show ?thesis using p False by (cases s) (auto simp: f opt_hd_def)
  qed
qed

text \<open>First and last, and the neighbours of a node, in the order of the values.\<close>

lemma first_ok:
  assumes "bavl_shape o' t"
  shows "BAVL_GetFirst o' = Some (opt_hd (inorder t))" "BAVL_GetLast o' = Some (opt_hd (rev (inorder t)))"
  using down_ok [of o' None t _ False] down_ok [of o' None t _ True] assms unfolding BAVL_GetFirst_def BAVL_GetLast_def bavl_shape_def
  by (cases t; simp add: opt_hd_def)+

lemma next_ok:
  assumes "bavl_shape o' t" "inorder t = xs @ n # ys"
  shows "BAVL_GetNext o' n = Some (opt_hd ys)" "BAVL_GetPrev o' n = Some (opt_hd (rev xs))"
proof -
  have "n \<in> set_tree t" using arg_cong [OF assms(2), of set] by auto
  then obtain fs l r where t: "t = plug (Node l n r) fs" using place_of_node by blast
  have pn: "at_place o' fs (Node l n r)" using assms(1) unfolding t bavl_shape_plug .
  then have k: "lnk o' n False = top_of l" "lnk o' n True = top_of r" "rep o' (Some n) l" "rep o' (Some n) r" by (auto simp: at_place_def)
  have "(before fs @ inorder l) @ n # (inorder r @ after fs) = xs @ n # ys" using assms(2) by (simp add: t inorder_plug)
  moreover have "distinct (xs @ n # ys)" using assms by (metis bavl_shape_def distinct_tree_inorder)
  ultimately have e: "xs = before fs @ inorder l" "ys = inorder r @ after fs"
    by (metis append_Cons_eq_iff distinct.simps(2) distinct_append not_distinct_conv_prefix)+
  show "BAVL_GetNext o' n = Some (opt_hd ys)"
  proof (cases r)
    case Leaf
    then show ?thesis using up_ok [OF pn, of n True] k(2) by (simp add: BAVL_GetNext_def e)
  next
    case (Node r1 a r2)
    then have "opt_hd (inorder r @ after fs) = opt_hd (inorder r)" by (intro opt_hd_append) simp
    then show ?thesis using down_ok [OF k(4), of a False] k(2) Node unfolding BAVL_GetNext_def e by simp
  qed
  show "BAVL_GetPrev o' n = Some (opt_hd (rev xs))"
  proof (cases l)
    case Leaf
    then show ?thesis using up_ok [OF pn, of n False] k(1) by (simp add: BAVL_GetPrev_def e)
  next
    case (Node l1 a l2)
    then have "opt_hd (rev (before fs @ inorder l)) = opt_hd (rev (inorder l))" unfolding rev_append by (intro opt_hd_append) simp
    then show ?thesis using down_ok [OF k(3), of a True] k(1) Node unfolding BAVL_GetPrev_def e by simp
  qed
qed


lemma product_bound: "(2::nat) ^ k \<le> a\<^sup>2 \<Longrightarrow> 2 ^ k \<le> b\<^sup>2 \<Longrightarrow> 2 ^ (k + 2) \<le> (a + b)\<^sup>2"
proof -
  assume a: "2 ^ k \<le> a\<^sup>2" and b: "2 ^ k \<le> b\<^sup>2"
  have "(2 ^ k)\<^sup>2 \<le> (a * b)\<^sup>2" using mult_le_mono [OF a b] by (simp add: power2_eq_square algebra_simps)
  then have "2 ^ k \<le> a * b" by (rule power2_le_imp_le) simp
  then show ?thesis using a b by (simp add: power2_sum)
qed

lemma bal_height: "bal o' t \<Longrightarrow> 2 ^ height t \<le> (size1 t)\<^sup>2"
proof (induction t)
  case (Node l a r)
  define k where "k = min (height l) (height r)"
  have "height l \<le> k + 1" "height r \<le> k + 1" using Node.prems by (auto simp: k_def)
  then have "(2::nat) ^ height (Node l a r) \<le> 2 ^ (k + 2)" by (intro power_increasing) auto
  also have "\<dots> \<le> (size1 l + size1 r)\<^sup>2"
  proof (rule product_bound)
    show "2 ^ k \<le> (size1 l)\<^sup>2" using Node.IH(1) Node.prems le_trans [OF power_increasing [of k "height l" 2]] by (simp add: k_def)
    show "2 ^ k \<le> (size1 r)\<^sup>2" using Node.IH(2) Node.prems le_trans [OF power_increasing [of k "height r" 2]] by (simp add: k_def)
  qed
  finally show ?case by simp
qed simp


lemma bal_height_inorder: "bal o' t \<Longrightarrow> 2 ^ height t \<le> (length (inorder t) + 1)\<^sup>2"
  using bal_height [of o' t] by (simp add: size1_size)

section \<open>A tree refines a sorted list\<close>

text \<open>
  What a user does with a tree: insert, remove and look up nodes, walk over them, and change
  the value of a node that is not in the tree. The specification keeps the sorted list of the
  nodes in the tree.
\<close>

datatype 'v bavl_op = Bavl_Insert addr | Bavl_Remove addr | Bavl_LookupExact 'v | Bavl_GetFirst | Bavl_GetLast
  | Bavl_GetNext addr | Bavl_GetPrev addr | Bavl_IsEmpty | Bavl_set_value addr 'v

text \<open>The result of an insertion is the node with the same value that prevented it.\<close>

datatype bavl_result = Bavl_node "addr option" | Bavl_bool bool | Bavl_done

fun bavl_step :: "('v \<Rightarrow> 'v \<Rightarrow> int) \<Rightarrow> (addr \<Rightarrow> 'v) \<times> BAVL \<Rightarrow> 'v bavl_op \<Rightarrow> (((addr \<Rightarrow> 'v) \<times> BAVL) \<times> bavl_result) option" where
  "bavl_step cmp (val, o') (Bavl_Insert n) =
     map_option (\<lambda>(o1, inserted, ref). ((val, o1), Bavl_node (if inserted then None else ref))) (BAVL_Insert cmp val o' n)"
| "bavl_step cmp (val, o') (Bavl_Remove n) = map_option (\<lambda>o1. ((val, o1), Bavl_done)) (BAVL_Remove o' n)"
| "bavl_step cmp (val, o') (Bavl_LookupExact v) = map_option (\<lambda>r. ((val, o'), Bavl_node r)) (BAVL_LookupExact cmp val o' v)"
| "bavl_step cmp (val, o') Bavl_GetFirst = map_option (\<lambda>r. ((val, o'), Bavl_node r)) (BAVL_GetFirst o')"
| "bavl_step cmp (val, o') Bavl_GetLast = map_option (\<lambda>r. ((val, o'), Bavl_node r)) (BAVL_GetLast o')"
| "bavl_step cmp (val, o') (Bavl_GetNext n) = map_option (\<lambda>r. ((val, o'), Bavl_node r)) (BAVL_GetNext o' n)"
| "bavl_step cmp (val, o') (Bavl_GetPrev n) = map_option (\<lambda>r. ((val, o'), Bavl_node r)) (BAVL_GetPrev o' n)"
| "bavl_step cmp (val, o') Bavl_IsEmpty = Some ((val, o'), Bavl_bool (BAVL_IsEmpty o'))"
| "bavl_step cmp (val, o') (Bavl_set_value n v) = Some ((val(n := v), o'), Bavl_done)"

fun bavl_run :: "('v \<Rightarrow> 'v \<Rightarrow> int) \<Rightarrow> (addr \<Rightarrow> 'v) \<times> BAVL \<Rightarrow> 'v bavl_op list \<Rightarrow> (((addr \<Rightarrow> 'v) \<times> BAVL) \<times> bavl_result list) option" where
  "bavl_run cmp s [] = Some (s, [])"
| "bavl_run cmp s (x # xs) =
     (case bavl_step cmp s x of
        None \<Rightarrow> None
      | Some (s, r) \<Rightarrow> map_option (\<lambda>(s, rs). (s, r # rs)) (bavl_run cmp s xs))"

fun list_step :: "('v \<Rightarrow> 'v \<Rightarrow> int) \<Rightarrow> (addr \<Rightarrow> 'v) \<times> addr list \<Rightarrow> 'v bavl_op \<Rightarrow> ((addr \<Rightarrow> 'v) \<times> addr list) \<times> bavl_result" where
  "list_step cmp (val, ns) (Bavl_Insert n) =
     (case List.find (\<lambda>a. val a = val n) ns of
        None \<Rightarrow> ((val, insert_sorted cmp val n ns), Bavl_node None)
      | Some a \<Rightarrow> ((val, ns), Bavl_node (Some a)))"
| "list_step cmp (val, ns) (Bavl_Remove n) = ((val, filter (\<lambda>x. x \<noteq> n) ns), Bavl_done)"
| "list_step cmp (val, ns) (Bavl_LookupExact v) = ((val, ns), Bavl_node (List.find (\<lambda>a. val a = v) ns))"
| "list_step cmp (val, ns) Bavl_GetFirst = ((val, ns), Bavl_node (opt_hd ns))"
| "list_step cmp (val, ns) Bavl_GetLast = ((val, ns), Bavl_node (opt_hd (rev ns)))"
| "list_step cmp (val, ns) (Bavl_GetNext n) = ((val, ns), Bavl_node (opt_hd (tl (dropWhile (\<lambda>x. x \<noteq> n) ns))))"
| "list_step cmp (val, ns) (Bavl_GetPrev n) = ((val, ns), Bavl_node (opt_hd (rev (takeWhile (\<lambda>x. x \<noteq> n) ns))))"
| "list_step cmp (val, ns) Bavl_IsEmpty = ((val, ns), Bavl_bool (ns = []))"
| "list_step cmp (val, ns) (Bavl_set_value n v) = ((val(n := v), ns), Bavl_done)"

fun list_run :: "('v \<Rightarrow> 'v \<Rightarrow> int) \<Rightarrow> (addr \<Rightarrow> 'v) \<times> addr list \<Rightarrow> 'v bavl_op list \<Rightarrow> ((addr \<Rightarrow> 'v) \<times> addr list) \<times> bavl_result list" where
  "list_run cmp s [] = (s, [])"
| "list_run cmp s (x # xs) = (let (s, r) = list_step cmp s x; (s, rs) = list_run cmp s xs in (s, r # rs))"

text \<open>The rules for users: a node is in at most one place, and its value is one the comparator orders.\<close>

fun bavl_allowed :: "('v \<Rightarrow> bool) \<Rightarrow> (addr \<Rightarrow> 'v) \<times> addr list \<Rightarrow> 'v bavl_op \<Rightarrow> bool" where
  "bavl_allowed ok (val, ns) (Bavl_Insert n) \<longleftrightarrow> n \<notin> set ns \<and> ok (val n)"
| "bavl_allowed ok (val, ns) (Bavl_Remove n) \<longleftrightarrow> n \<in> set ns"
| "bavl_allowed ok (val, ns) (Bavl_LookupExact v) \<longleftrightarrow> ok v"
| "bavl_allowed ok (val, ns) (Bavl_GetNext n) \<longleftrightarrow> n \<in> set ns"
| "bavl_allowed ok (val, ns) (Bavl_GetPrev n) \<longleftrightarrow> n \<in> set ns"
| "bavl_allowed ok (val, ns) (Bavl_set_value n v) \<longleftrightarrow> n \<notin> set ns"
| "bavl_allowed ok (val, ns) _ \<longleftrightarrow> True"

fun bavl_allowed_run :: "('v \<Rightarrow> 'v \<Rightarrow> int) \<Rightarrow> ('v \<Rightarrow> bool) \<Rightarrow> (addr \<Rightarrow> 'v) \<times> addr list \<Rightarrow> 'v bavl_op list \<Rightarrow> bool" where
  "bavl_allowed_run cmp ok s [] \<longleftrightarrow> True"
| "bavl_allowed_run cmp ok s (x # xs) \<longleftrightarrow> bavl_allowed ok s x \<and> bavl_allowed_run cmp ok (fst (list_step cmp s x)) xs"

lemma split_node: "n \<in> set ns \<Longrightarrow> ns = takeWhile (\<lambda>x. x \<noteq> n) ns @ n # tl (dropWhile (\<lambda>x. x \<noteq> n) ns)"
  by (induction ns) auto

lemma set_find_None: "List.find (\<lambda>a. val a = v) ns = None \<longleftrightarrow> (\<forall>a\<in>set ns. val a \<noteq> v)"
  by (auto simp: find_None_iff)

context comparator_contract
begin

definition simulates :: "(addr \<Rightarrow> 'a) \<times> BAVL \<Rightarrow> (addr \<Rightarrow> 'a) \<times> addr list \<Rightarrow> bool" where
  "simulates s a \<longleftrightarrow> fst s = fst a \<and> (\<exists>t. bavl_inv (fst s) (snd s) t \<and> inorder t = snd a)"

lemma simulatesI: "bavl_inv val o' t \<Longrightarrow> inorder t = ns \<Longrightarrow> simulates (val, o') (val, ns)"
  by (auto simp: simulates_def)

lemma bavl_inv_cong: "(\<And>a. a \<in> set_tree t \<Longrightarrow> val a = val' a) \<Longrightarrow> bavl_inv val o' t = bavl_inv val' o' t"
proof -
  assume c: "\<And>a. a \<in> set_tree t \<Longrightarrow> val a = val' a"
  have "sorted_wrt (\<lambda>a b. cmp (val a) (val b) = - 1) xs = sorted_wrt (\<lambda>a b. cmp (val' a) (val' b) = - 1) xs" if "set xs \<subseteq> set_tree t" for xs
    using that by (induction xs) (auto simp: c subset_iff)
  then show ?thesis using c by (simp add: bavl_inv_def ordered_def)
qed

lemma step_simulates:
  assumes "simulates s a" "bavl_allowed ok a x"
  shows "\<exists>s'. bavl_step cmp s x = Some (s', snd (list_step cmp a x)) \<and> simulates s' (fst (list_step cmp a x))"
proof -
  obtain val o' ns t where s: "s = (val, o')" "a = (val, ns)" "bavl_inv val o' t" "inorder t = ns"
    using assms(1) by (cases s; cases a) (auto simp: simulates_def)
  have sh: "bavl_shape o' t" using s(3) by (simp add: bavl_inv_def)
  have mem: "n \<in> set_tree t \<longleftrightarrow> n \<in> set ns" for n using s(4) by auto
  show ?thesis
  proof (cases x)
    case (Bavl_Insert n)
    have pre: "n \<notin> set_tree t" "ok (val n)" using assms(2) mem by (simp_all add: s(2) Bavl_Insert)
    obtain o1 T r where i: "BAVL_Insert cmp val o' n = Some (o1, node_of val t (val n) = None, r)" "bavl_inv val o1 T"
      "inorder T = (if node_of val t (val n) = None then insert_sorted cmp val n (inorder t) else inorder t)"
      "node_of val t (val n) \<noteq> None \<longrightarrow> r = node_of val t (val n)" using insert_ok [OF s(3) pre] by blast
    have "simulates (val, o1) (val, if node_of val t (val n) = None then insert_sorted cmp val n ns else ns)"
      by (rule simulatesI [OF i(2)]) (use i(3) s(4) in simp)
    then show ?thesis using i(1,4) by (cases "node_of val t (val n)") (simp_all add: s(1,2) Bavl_Insert node_of_def s(4))
  next
    case (Bavl_Remove n)
    have pre: "n \<in> set_tree t" using assms(2) mem by (simp add: s(2) Bavl_Remove)
    obtain o1 T where "BAVL_Remove o' n = Some o1" "bavl_inv val o1 T" "inorder T = filter (\<lambda>x. x \<noteq> n) (inorder t)"
      using remove_ok [OF s(3) pre] by blast
    then show ?thesis using simulatesI [of val o1 T] by (simp add: s Bavl_Remove)
  next
    case (Bavl_LookupExact v)
    then show ?thesis using lookup_ok [OF s(3)] assms simulatesI [OF s(3,4)] by (simp add: s node_of_def)
  next
    case (Bavl_GetNext n)
    then show ?thesis using next_ok(1) [OF sh] split_node [of n ns] assms(2) simulatesI [OF s(3,4)] by (simp add: s)
  next
    case (Bavl_GetPrev n)
    then show ?thesis using next_ok(2) [OF sh] split_node [of n ns] assms(2) simulatesI [OF s(3,4)] by (simp add: s)
  next
    case Bavl_IsEmpty
    have "BAVL_IsEmpty o' = (ns = [])" using sh s(4) by (cases t) (auto simp: bavl_shape_def BAVL_IsEmpty_def)
    then show ?thesis using simulatesI [OF s(3,4)] by (simp add: s Bavl_IsEmpty)
  next
    case (Bavl_set_value n v)
    have "n \<notin> set_tree t" using assms(2) mem by (simp add: s(2) Bavl_set_value)
    then have "bavl_inv val o' t = bavl_inv (val(n := v)) o' t" by (intro bavl_inv_cong) auto
    then have "bavl_inv (val(n := v)) o' t" using s(3) by simp
    then show ?thesis using simulatesI [of "val(n := v)" o' t ns] by (simp add: s Bavl_set_value)
  qed (use first_ok [OF sh] simulatesI [OF s(3,4)] in \<open>simp_all add: s\<close>)
qed

lemma run_simulates:
  "simulates s a \<Longrightarrow> bavl_allowed_run cmp ok a xs \<Longrightarrow>
    \<exists>s'. bavl_run cmp s xs = Some (s', snd (list_run cmp a xs)) \<and> simulates s' (fst (list_run cmp a xs))"
proof (induction xs arbitrary: s a)
  case (Cons x xs)
  have x: "bavl_allowed ok a x" and xs: "bavl_allowed_run cmp ok (fst (list_step cmp a x)) xs" using Cons.prems(2) by simp_all
  obtain s1 where s1: "bavl_step cmp s x = Some (s1, snd (list_step cmp a x))" "simulates s1 (fst (list_step cmp a x))"
    using step_simulates [OF Cons.prems(1) x] by blast
  from Cons.IH [OF s1(2) xs] s1(1) show ?case by (auto simp: Let_def split: prod.splits)
qed simp

lemma tree_refines_list:
  assumes "bavl_allowed_run cmp ok (val, []) xs"
  shows "\<exists>val' o1 t. bavl_run cmp (val, BAVL_Init o') xs = Some ((val', o1), snd (list_run cmp (val, []) xs)) \<and>
    fst (list_run cmp (val, []) xs) = (val', inorder t) \<and> bavl_shape o1 t \<and> bal o1 t \<and> 2 ^ height t \<le> (length (inorder t) + 1)\<^sup>2"
proof -
  have "simulates (val, BAVL_Init o') (val, [])" by (rule simulatesI [OF bavl_inv_Init]) simp
  from run_simulates [OF this assms] obtain s' t where "bavl_run cmp (val, BAVL_Init o') xs = Some (s', snd (list_run cmp (val, []) xs))"
    "fst s' = fst (fst (list_run cmp (val, []) xs))" "bavl_inv (fst s') (snd s') t" "inorder t = snd (fst (list_run cmp (val, []) xs))"
    unfolding simulates_def by blast
  moreover from this(3) have "2 ^ height t \<le> (length (inorder t) + 1)\<^sup>2" unfolding bavl_inv_def by (intro bal_height_inorder) blast
  ultimately show ?thesis
    by (intro exI [of _ "fst s'"] exI [of _ "snd s'"] exI [of _ t]) (simp add: bavl_inv_def prod_eq_iff)
qed

end

end
