(* ===== verification/Dialogue.thy ===== *)
theory Dialogue
  imports Prelude
begin

text \<open>
  Dialogues with a proxy as functions of the bytes the proxy has sent, the specifications
  that the SOCKS clients of redsocks and of badvpn are compared with.
\<close>

text \<open>
  What the bytes of the proxy mean to a client: a dialogue sends messages and then waits for
  more bytes, was refused, or is open, with the bytes that already belong to the connection.
\<close>

datatype dialogue_end = Waiting | Refused | Open bytes

definition says :: "bytes \<Rightarrow> bytes \<times> dialogue_end \<Rightarrow> bytes \<times> dialogue_end" where
  "says msg d = (msg @ fst d, snd d)"

lemma says_simps [simp]:
  "says [] d = d" "says m (m', e) = (m @ m', e)" "says m (says m' d) = says (m @ m') d"
  by (simp_all add: says_def)

lemma snd_says [simp]: "snd (says m d) = snd d"
  by (simp add: says_def)

end
