(* ===== verification/Badvpn_SocksClient.thy ===== *)
theory Badvpn_SocksClient
  imports Badvpn_BSize Dialogue
begin

text \<open>
  socksclient/BSocksClient.c: the SOCKS 5 client through which tun2socks opens every
  connection. An object goes from connecting to the server through the exchange of hello,
  optional password and request to the state in which its stream belongs to the user.

  A handler is a function of the object and of what the environment answered (whether the
  connection was made, whether memory could be had); it returns the new object with the
  calls it made, or nothing when an assertion fails. The initialised parts of the object
  (connector, connection, control or user I/O) are fields of it. Memory that realloc adds is
  undefined in C and zero here; the code never reads it before writing it.
\<close>

section \<open>The object\<close>

definition SOCKS_VERSION :: u8 where "SOCKS_VERSION = 5"
definition SOCKS_METHOD_NO_AUTHENTICATION_REQUIRED :: u8 where "SOCKS_METHOD_NO_AUTHENTICATION_REQUIRED = 0"
definition SOCKS_METHOD_USERNAME_PASSWORD :: u8 where "SOCKS_METHOD_USERNAME_PASSWORD = 2"
definition SOCKS_CMD_CONNECT :: u8 where "SOCKS_CMD_CONNECT = 1"
definition SOCKS_ATYP_IPV4 :: u8 where "SOCKS_ATYP_IPV4 = 1"
definition SOCKS_ATYP_IPV6 :: u8 where "SOCKS_ATYP_IPV6 = 4"
definition SOCKS_REP_SUCCEEDED :: u8 where "SOCKS_REP_SUCCEEDED = 0"

lemmas socks_consts = SOCKS_VERSION_def SOCKS_METHOD_NO_AUTHENTICATION_REQUIRED_def
  SOCKS_METHOD_USERNAME_PASSWORD_def SOCKS_CMD_CONNECT_def SOCKS_ATYP_IPV4_def SOCKS_ATYP_IPV6_def
  SOCKS_REP_SUCCEEDED_def

datatype sc_state = STATE_CONNECTING | STATE_SENDING_HELLO | STATE_SENT_HELLO | STATE_SENDING_PASSWORD |
  STATE_SENT_PASSWORD | STATE_SENDING_REQUEST | STATE_SENT_REQUEST | STATE_RECEIVED_REPLY_HEADER | STATE_UP

datatype sc_event = BSOCKSCLIENT_EVENT_ERROR | BSOCKSCLIENT_EVENT_UP | BSOCKSCLIENT_EVENT_ERROR_CLOSED

text \<open>The two kinds of authentication that BSocksClient_Init admits.\<close>

datatype BSocksClient_auth_info = Auth_none | Auth_password bytes bytes

fun auth_type :: "BSocksClient_auth_info \<Rightarrow> u8" where
  "auth_type Auth_none = SOCKS_METHOD_NO_AUTHENTICATION_REQUIRED"
| "auth_type (Auth_password username password) = SOCKS_METHOD_USERNAME_PASSWORD"

definition BSocksClient_auth_none :: BSocksClient_auth_info where
  "BSocksClient_auth_none = Auth_none"

definition BSocksClient_auth_password :: "bytes \<Rightarrow> bytes \<Rightarrow> BSocksClient_auth_info" where
  "BSocksClient_auth_password username password = Auth_password username password"

text \<open>Address and port of the destination, as they are in memory.\<close>

datatype sc_addr = BADDR_IPV4 bytes bytes | BADDR_IPV6 bytes bytes

datatype sc_io = No_io | Control_io | Up_io

record BSocksClient =
  sc_auth_info :: "BSocksClient_auth_info list"
  sc_dest_addr :: sc_addr
  sc_st :: sc_state
  sc_buffer :: "bytes option"
  sc_connector :: bool
  sc_con :: bool
  sc_io :: sc_io
  sc_recv_dest :: nat
  sc_recv_len :: nat
  sc_recv_total :: nat

datatype sc_call = Sc_Send bytes | Sc_Recv nat | Sc_Handler sc_event

type_synonym sc_result = "(BSocksClient \<times> sc_call list) option"

section \<open>Helpers\<close>

definition report_error :: "sc_event \<Rightarrow> BSocksClient \<Rightarrow> sc_result" where
  "report_error error o' = Some (o', [Sc_Handler error])"

definition init_control_io :: "BSocksClient \<Rightarrow> BSocksClient option" where
  "init_control_io o' = (if sc_con o' \<and> sc_io o' = No_io then Some (o'\<lparr>sc_io := Control_io\<rparr>) else None)"

definition free_control_io :: "BSocksClient \<Rightarrow> BSocksClient option" where
  "free_control_io o' = (if sc_io o' = Control_io then Some (o'\<lparr>sc_io := No_io\<rparr>) else None)"

definition init_up_io :: "BSocksClient \<Rightarrow> BSocksClient option" where
  "init_up_io o' = (if sc_con o' \<and> sc_io o' = No_io then Some (o'\<lparr>sc_io := Up_io\<rparr>) else None)"

definition free_up_io :: "BSocksClient \<Rightarrow> BSocksClient option" where
  "free_up_io o' = (if sc_io o' = Up_io then Some (o'\<lparr>sc_io := No_io\<rparr>) else None)"

text \<open>BConnection_Free and BConnector_Free of an initialised part without I/O on it.\<close>

definition con_Free :: "BSocksClient \<Rightarrow> BSocksClient option" where
  "con_Free o' = (if sc_con o' \<and> sc_io o' = No_io then Some (o'\<lparr>sc_con := False\<rparr>) else None)"

definition connector_Free :: "BSocksClient \<Rightarrow> BSocksClient option" where
  "connector_Free o' = (if sc_connector o' then Some (o'\<lparr>sc_connector := False\<rparr>) else None)"

definition sc_realloc :: "bytes option \<Rightarrow> nat \<Rightarrow> bytes" where
  "sc_realloc old n = (let b = (case old of Some b \<Rightarrow> b | None \<Rightarrow> []) in take n b @ replicate (n - length b) 0)"

text \<open>\<open>alloc\<close> says whether BRealloc succeeds.\<close>

definition reserve_buffer :: "bool \<Rightarrow> bsize \<Rightarrow> BSocksClient \<Rightarrow> bool \<times> BSocksClient" where
  "reserve_buffer alloc sz o' =
     (if is_overflow sz then (False, o')
      else if \<not> alloc then (False, o')
      else (True, o'\<lparr>sc_buffer := Some (sc_realloc (sc_buffer o') (unat (bsize_value sz)))\<rparr>))"

text \<open>memcpy into the buffer.\<close>

definition sc_write :: "nat \<Rightarrow> bytes \<Rightarrow> BSocksClient \<Rightarrow> BSocksClient" where
  "sc_write off bs o' =
     (case sc_buffer o' of
        Some b \<Rightarrow> o'\<lparr>sc_buffer := Some (take off b @ bs @ drop (off + length bs) b)\<rparr> | None \<Rightarrow> o')"

definition sc_bytes :: "BSocksClient \<Rightarrow> bytes" where
  "sc_bytes o' = (case sc_buffer o' of Some b \<Rightarrow> b | None \<Rightarrow> [])"

definition do_receive :: "BSocksClient \<Rightarrow> sc_result" where
  "do_receive o' =
     (if \<not> sc_recv_len o' < sc_recv_total o' then None
      else Some (o', [Sc_Recv (sc_recv_total o' - sc_recv_len o')]))"

definition start_receive :: "nat \<Rightarrow> nat \<Rightarrow> BSocksClient \<Rightarrow> sc_result" where
  "start_receive dest tot o' =
     (if \<not> tot > 0 then None
      else do_receive (o'\<lparr>sc_recv_dest := dest, sc_recv_len := 0, sc_recv_total := tot\<rparr>))"

definition sc_set_state :: "sc_state \<Rightarrow> sc_result \<Rightarrow> sc_result" where
  "sc_set_state st = map_option (\<lambda>(o', calls). (o'\<lparr>sc_st := st\<rparr>, calls))"

section \<open>Handlers\<close>

definition sc_fail1 :: "BSocksClient \<Rightarrow> sc_result" where
  "sc_fail1 o' =
     (case free_control_io o' of
        None \<Rightarrow> None
      | Some o' \<Rightarrow> (case con_Free o' of None \<Rightarrow> None | Some o' \<Rightarrow> report_error BSOCKSCLIENT_EVENT_ERROR o'))"

definition connector_handler :: "bool \<Rightarrow> bool \<Rightarrow> bool \<Rightarrow> BSocksClient \<Rightarrow> sc_result" where
  "connector_handler is_error con_ok alloc o' =
     (if sc_st o' \<noteq> STATE_CONNECTING then None
      else if is_error then report_error BSOCKSCLIENT_EVENT_ERROR o'
      else if \<not> con_ok then report_error BSOCKSCLIENT_EVENT_ERROR o'
      else (case init_control_io (o'\<lparr>sc_con := True\<rparr>) of
              None \<Rightarrow> None
            | Some o' \<Rightarrow>
                (let num_auth_info = length (sc_auth_info o') in
                 if num_auth_info = 0 \<or> num_auth_info > 255 then sc_fail1 o'
                 else (let sz = bsize_add (bsize_fromsize 2)
                                    (bsize_mul (bsize_fromsize (of_nat num_auth_info)) (bsize_fromsize 1));
                           (ok, o') = reserve_buffer alloc sz o' in
                       if \<not> ok then sc_fail1 o'
                       else (let o' = sc_write 0 [SOCKS_VERSION, of_nat num_auth_info] o';
                                 o' = fold (\<lambda>i. sc_write (2 + i * 1) [auth_type (sc_auth_info o' ! i)])
                                        [0..<num_auth_info] o'
                             in Some (o'\<lparr>sc_st := STATE_SENDING_HELLO\<rparr>, [Sc_Send (sc_bytes o')]))))))"

definition connection_handler :: "bool \<Rightarrow> BSocksClient \<Rightarrow> sc_result" where
  "connection_handler recvclosed o' =
     (if sc_st o' = STATE_CONNECTING then None
      else if sc_st o' = STATE_UP \<and> recvclosed then report_error BSOCKSCLIENT_EVENT_ERROR_CLOSED o'
      else report_error BSOCKSCLIENT_EVENT_ERROR o')"

definition auth_finished :: "bool \<Rightarrow> BSocksClient \<Rightarrow> sc_result" where
  "auth_finished alloc o' =
     (let sz = bsize_fromsize 4;
          sz = (case sc_dest_addr o' of
                    BADDR_IPV4 _ _ \<Rightarrow> bsize_add sz (bsize_fromsize 6)
                  | BADDR_IPV6 _ _ \<Rightarrow> bsize_add sz (bsize_fromsize 18));
          (ok, o') = reserve_buffer alloc sz o' in
      if \<not> ok then report_error BSOCKSCLIENT_EVENT_ERROR o'
      else (let (atyp, addr) = (case sc_dest_addr o' of
                  BADDR_IPV4 ip port \<Rightarrow> (SOCKS_ATYP_IPV4, ip @ port)
                | BADDR_IPV6 ip port \<Rightarrow> (SOCKS_ATYP_IPV6, ip @ port));
                o' = sc_write 4 addr o';
                o' = sc_write 0 [SOCKS_VERSION, SOCKS_CMD_CONNECT, 0, atyp] o'
            in Some (o'\<lparr>sc_st := STATE_SENDING_REQUEST\<rparr>, [Sc_Send (sc_bytes o')])))"

text \<open>Writing and sending the password packet.\<close>

definition sc_send_password :: "bool \<Rightarrow> bytes \<Rightarrow> bytes \<Rightarrow> BSocksClient \<Rightarrow> sc_result" where
  "sc_send_password alloc username password o' =
     (let sz = bsize_fromsize (of_nat (1 + 1 + length username + 1 + length password));
          (ok, o') = reserve_buffer alloc sz o' in
      if \<not> ok then report_error BSOCKSCLIENT_EVENT_ERROR o'
      else (let o' = sc_write 0 ([1, of_nat (length username)] @ username @
                       [of_nat (length password)] @ password) o'
            in Some (o'\<lparr>sc_st := STATE_SENDING_PASSWORD\<rparr>, [Sc_Send (sc_bytes o')])))"

definition recv_hello :: "bool \<Rightarrow> BSocksClient \<Rightarrow> sc_result" where
  "recv_hello alloc o' =
     (let ver = sc_bytes o' ! 0; meth = sc_bytes o' ! 1 in
      if ver \<noteq> SOCKS_VERSION then report_error BSOCKSCLIENT_EVENT_ERROR o'
      else (case find (\<lambda>ai. auth_type ai = meth) (sc_auth_info o') of
              None \<Rightarrow> report_error BSOCKSCLIENT_EVENT_ERROR o'
            | Some Auth_none \<Rightarrow> auth_finished alloc o'
            | Some (Auth_password username password) \<Rightarrow>
                (if length username = 0 \<or> length username > 255 \<or> length password = 0 \<or> length password > 255
                 then report_error BSOCKSCLIENT_EVENT_ERROR o'
                 else sc_send_password alloc username password o')))"

definition recv_reply_header :: "BSocksClient \<Rightarrow> sc_result" where
  "recv_reply_header o' =
     (let ver = sc_bytes o' ! 0; rep = sc_bytes o' ! 1; atyp = sc_bytes o' ! 3 in
      if ver \<noteq> SOCKS_VERSION then report_error BSOCKSCLIENT_EVENT_ERROR o'
      else if rep \<noteq> SOCKS_REP_SUCCEEDED then report_error BSOCKSCLIENT_EVENT_ERROR o'
      else if atyp = SOCKS_ATYP_IPV4 then sc_set_state STATE_RECEIVED_REPLY_HEADER (start_receive 4 6 o')
      else if atyp = SOCKS_ATYP_IPV6 then sc_set_state STATE_RECEIVED_REPLY_HEADER (start_receive 4 18 o')
      else report_error BSOCKSCLIENT_EVENT_ERROR o')"

definition recv_password_reply :: "bool \<Rightarrow> BSocksClient \<Rightarrow> sc_result" where
  "recv_password_reply alloc o' =
     (if sc_bytes o' ! 0 \<noteq> 1 then report_error BSOCKSCLIENT_EVENT_ERROR o'
      else if sc_bytes o' ! 1 \<noteq> 0 then report_error BSOCKSCLIENT_EVENT_ERROR o'
      else auth_finished alloc o')"

definition recv_reply_rest :: "BSocksClient \<Rightarrow> sc_result" where
  "recv_reply_rest o' =
     (case free_control_io (o'\<lparr>sc_buffer := None\<rparr>) of
        None \<Rightarrow> None
      | Some o' \<Rightarrow>
          (case init_up_io o' of
             None \<Rightarrow> None
           | Some o' \<Rightarrow> Some (o'\<lparr>sc_st := STATE_UP\<rparr>, [Sc_Handler BSOCKSCLIENT_EVENT_UP])))"

definition recv_handler_done :: "bool \<Rightarrow> nat \<Rightarrow> BSocksClient \<Rightarrow> sc_result" where
  "recv_handler_done alloc data_len o' =
     (if \<not> data_len \<le> sc_recv_total o' - sc_recv_len o' then None
      else (let o' = o'\<lparr>sc_recv_len := sc_recv_len o' + data_len\<rparr> in
            if sc_recv_len o' < sc_recv_total o' then do_receive o'
            else (case sc_st o' of
                    STATE_SENT_HELLO \<Rightarrow> recv_hello alloc o'
                  | STATE_SENT_REQUEST \<Rightarrow> recv_reply_header o'
                  | STATE_SENT_PASSWORD \<Rightarrow> recv_password_reply alloc o'
                  | STATE_RECEIVED_REPLY_HEADER \<Rightarrow> recv_reply_rest o'
                  | _ \<Rightarrow> None)))"

definition send_handler_done :: "bool \<Rightarrow> BSocksClient \<Rightarrow> sc_result" where
  "send_handler_done alloc o' =
     (if sc_buffer o' = None then None
      else (case sc_st o' of
              STATE_SENDING_HELLO \<Rightarrow>
                (let (ok, o') = reserve_buffer alloc (bsize_fromsize 2) o' in
                 if \<not> ok then report_error BSOCKSCLIENT_EVENT_ERROR o'
                 else sc_set_state STATE_SENT_HELLO (start_receive 0 2 o'))
            | STATE_SENDING_REQUEST \<Rightarrow>
                (let sz = bsize_add (bsize_fromsize 4) (bsize_max (bsize_fromsize 6) (bsize_fromsize 18));
                     (ok, o') = reserve_buffer alloc sz o' in
                 if \<not> ok then report_error BSOCKSCLIENT_EVENT_ERROR o'
                 else sc_set_state STATE_SENT_REQUEST (start_receive 0 4 o'))
            | STATE_SENDING_PASSWORD \<Rightarrow>
                (let (ok, o') = reserve_buffer alloc (bsize_fromsize 2) o' in
                 if \<not> ok then report_error BSOCKSCLIENT_EVENT_ERROR o'
                 else sc_set_state STATE_SENT_PASSWORD (start_receive 0 2 o'))
            | _ \<Rightarrow> None))"

section \<open>Life of an object\<close>

text \<open>\<open>connector_ok\<close> is the result of BConnector_Init.\<close>

definition BSocksClient_Init ::
  "bool \<Rightarrow> BSocksClient_auth_info list \<Rightarrow> sc_addr \<Rightarrow> BSocksClient option" where
  "BSocksClient_Init connector_ok auth_info dest_addr =
     (if \<not> connector_ok then None
      else Some \<lparr>sc_auth_info = auth_info, sc_dest_addr = dest_addr, sc_st = STATE_CONNECTING, sc_buffer = None,
        sc_connector = True, sc_con = False, sc_io = No_io, sc_recv_dest = 0, sc_recv_len = 0, sc_recv_total = 0\<rparr>)"

definition BSocksClient_Free :: "BSocksClient \<Rightarrow> BSocksClient option" where
  "BSocksClient_Free o' =
     (let r = (if sc_st o' \<noteq> STATE_CONNECTING
               then (case (if sc_st o' = STATE_UP then free_up_io o' else free_control_io o') of
                       None \<Rightarrow> None | Some o' \<Rightarrow> con_Free o')
               else Some o')
      in case r of
           None \<Rightarrow> None
         | Some o' \<Rightarrow>
             (case connector_Free o' of
                None \<Rightarrow> None
              | Some o' \<Rightarrow> Some (if sc_buffer o' \<noteq> None then o'\<lparr>sc_buffer := None\<rparr> else o')))"

definition BSocksClient_GetSendInterface :: "BSocksClient \<Rightarrow> bool" where
  "BSocksClient_GetSendInterface o' \<longleftrightarrow> sc_st o' = STATE_UP"

definition BSocksClient_GetRecvInterface :: "BSocksClient \<Rightarrow> bool" where
  "BSocksClient_GetRecvInterface o' \<longleftrightarrow> sc_st o' = STATE_UP"


section \<open>The session\<close>

text \<open>
  What the client should do with the bytes of the server: RFC 1928 and 1929 for the offered
  methods. A reply with a domain name as bound address is not accepted.
\<close>

definition sc_skip :: "nat \<Rightarrow> bytes \<Rightarrow> bytes \<times> dialogue_end" where
  "sc_skip n bs = ([], if length bs < n then Waiting else Open (drop n bs))"

definition sc_reply :: "bytes \<Rightarrow> bytes \<times> dialogue_end" where
  "sc_reply bs = (case bs of
     ver # rep # rsv # atyp # bs \<Rightarrow>
       if ver \<noteq> 5 \<or> rep \<noteq> 0 then ([], Refused)
       else if atyp = 1 then sc_skip (4 + 2) bs
       else if atyp = 4 then sc_skip (16 + 2) bs
       else ([], Refused)
   | _ \<Rightarrow> ([], Waiting))"

fun sc_request :: "sc_addr \<Rightarrow> bytes" where
  "sc_request (BADDR_IPV4 ip port) = [5, 1, 0, 1] @ ip @ port"
| "sc_request (BADDR_IPV6 ip port) = [5, 1, 0, 4] @ ip @ port"

definition sc_password :: "sc_addr \<Rightarrow> bytes \<Rightarrow> bytes \<times> dialogue_end" where
  "sc_password dest bs = (case bs of
     ver # status # bs \<Rightarrow> if ver = 1 \<and> status = 0 then says (sc_request dest) (sc_reply bs) else ([], Refused)
   | _ \<Rightarrow> ([], Waiting))"

definition sc_hello :: "BSocksClient_auth_info list \<Rightarrow> sc_addr \<Rightarrow> bytes \<Rightarrow> bytes \<times> dialogue_end" where
  "sc_hello auth dest bs = (case bs of
     ver # meth # bs \<Rightarrow>
       if ver \<noteq> 5 then ([], Refused)
       else (case find (\<lambda>ai. auth_type ai = meth) auth of
               None \<Rightarrow> ([], Refused)
             | Some Auth_none \<Rightarrow> says (sc_request dest) (sc_reply bs)
             | Some (Auth_password u p) \<Rightarrow>
                 if length u \<in> {1..255} \<and> length p \<in> {1..255}
                 then says ([1, of_nat (length u)] @ u @ [of_nat (length p)] @ p) (sc_password dest bs)
                 else ([], Refused))
   | _ \<Rightarrow> ([], Waiting))"

definition sc_session :: "BSocksClient_auth_info list \<Rightarrow> sc_addr \<Rightarrow> bytes \<Rightarrow> bytes \<times> dialogue_end" where
  "sc_session auth dest bs = says ([5, of_nat (length auth)] @ map auth_type auth) (sc_hello auth dest bs)"

section \<open>The environment\<close>

text \<open>
  The environment holds the send and the receive the object has requested, what was sent and
  received, and what the server is still to send. An event that is not possible at the moment
  does nothing. \<open>se_dead\<close>: an error was reported; \<open>se_broken\<close>: the environment failed the
  object (no connection, no memory, connection lost).
\<close>

record sc_env =
  se_o :: BSocksClient
  se_send :: "bytes option"
  se_recv :: "nat option"
  se_pending :: bytes
  se_rx :: bytes
  se_tx :: bytes
  se_ups :: nat
  se_dead :: bool
  se_broken :: bool

datatype sc_ev = Ev_connected bool bool bool | Ev_sent bool | Ev_received nat bool | Ev_connection bool

fun sc_do :: "sc_call list \<Rightarrow> sc_env \<Rightarrow> sc_env option" where
  "sc_do [] env = Some env"
| "sc_do (Sc_Send bs # cs) env = (if se_send env \<noteq> None then None else sc_do cs (env\<lparr>se_send := Some bs\<rparr>))"
| "sc_do (Sc_Recv n # cs) env = (if se_recv env \<noteq> None \<or> n = 0 then None else sc_do cs (env\<lparr>se_recv := Some n\<rparr>))"
| "sc_do (Sc_Handler BSOCKSCLIENT_EVENT_UP # cs) env = sc_do cs (env\<lparr>se_ups := se_ups env + 1\<rparr>)"
| "sc_do (Sc_Handler e # cs) env = sc_do cs (env\<lparr>se_dead := True\<rparr>)"

definition sc_ret :: "sc_env \<Rightarrow> sc_result \<Rightarrow> sc_env option" where
  "sc_ret env r = (case r of None \<Rightarrow> None | Some (o', calls) \<Rightarrow> sc_do calls (env\<lparr>se_o := o'\<rparr>))"

fun sc_step :: "sc_ev \<Rightarrow> sc_env \<Rightarrow> sc_env option" where
  "sc_step (Ev_connected is_error con_ok alloc) env =
     (if se_dead env \<or> sc_st (se_o env) \<noteq> STATE_CONNECTING then Some env
      else sc_ret (env\<lparr>se_broken := se_broken env \<or> is_error \<or> \<not> con_ok \<or> \<not> alloc\<rparr>)
             (connector_handler is_error con_ok alloc (se_o env)))"
| "sc_step (Ev_sent alloc) env =
     (if se_dead env then Some env
      else (case se_send env of
              None \<Rightarrow> Some env
            | Some bs \<Rightarrow> sc_ret (env\<lparr>se_send := None, se_tx := se_tx env @ bs, se_broken := se_broken env \<or> \<not> alloc\<rparr>)
                           (send_handler_done alloc (se_o env))))"
| "sc_step (Ev_received n alloc) env =
     (if se_dead env then Some env
      else (case se_recv env of
              None \<Rightarrow> Some env
            | Some k \<Rightarrow>
                (let d = take (min n k) (se_pending env); o' = se_o env;
                     o' = sc_write (sc_recv_dest o' + sc_recv_len o') d o' in
                 if d = [] then Some env
                 else sc_ret (env\<lparr>se_recv := None, se_pending := drop (length d) (se_pending env),
                        se_rx := se_rx env @ d, se_broken := se_broken env \<or> \<not> alloc\<rparr>)
                        (recv_handler_done alloc (length d) o'))))"
| "sc_step (Ev_connection recvclosed) env =
     (if se_dead env \<or> sc_st (se_o env) = STATE_CONNECTING then Some env
      else sc_ret (env\<lparr>se_broken := True\<rparr>) (connection_handler recvclosed (se_o env)))"

fun sc_run :: "sc_ev list \<Rightarrow> sc_env \<Rightarrow> sc_env option" where
  "sc_run [] env = Some env"
| "sc_run (e # es) env = (case sc_step e env of None \<Rightarrow> None | Some env \<Rightarrow> sc_run es env)"

definition sc_begin :: "BSocksClient \<Rightarrow> bytes \<Rightarrow> sc_env" where
  "sc_begin o' stream = \<lparr>se_o = o', se_send = None, se_recv = None, se_pending = stream, se_rx = [], se_tx = [],
     se_ups = 0, se_dead = False, se_broken = False\<rparr>"

section \<open>The invariant\<close>

definition sc_addr_ok :: "sc_addr \<Rightarrow> bool" where
  "sc_addr_ok a = (case a of BADDR_IPV4 ip port \<Rightarrow> length ip = 4 \<and> length port = 2
                            | BADDR_IPV6 ip port \<Rightarrow> length ip = 16 \<and> length port = 2)"

definition sc_dlg :: "BSocksClient \<Rightarrow> bytes \<Rightarrow> bytes \<times> dialogue_end" where
  "sc_dlg o' = (case sc_st o' of
     STATE_CONNECTING \<Rightarrow> sc_session (sc_auth_info o') (sc_dest_addr o')
   | STATE_SENDING_HELLO \<Rightarrow> sc_hello (sc_auth_info o') (sc_dest_addr o')
   | STATE_SENT_HELLO \<Rightarrow> sc_hello (sc_auth_info o') (sc_dest_addr o')
   | STATE_SENDING_PASSWORD \<Rightarrow> sc_password (sc_dest_addr o')
   | STATE_SENT_PASSWORD \<Rightarrow> sc_password (sc_dest_addr o')
   | STATE_SENDING_REQUEST \<Rightarrow> sc_reply
   | STATE_SENT_REQUEST \<Rightarrow> sc_reply
   | STATE_RECEIVED_REPLY_HEADER \<Rightarrow> sc_skip (sc_recv_total o')
   | STATE_UP \<Rightarrow> (\<lambda>bs. ([], Open bs)))"

definition sc_sending :: "sc_state \<Rightarrow> bool" where
  "sc_sending st \<longleftrightarrow> st \<in> {STATE_SENDING_HELLO, STATE_SENDING_PASSWORD, STATE_SENDING_REQUEST}"

definition sc_receiving :: "sc_state \<Rightarrow> bool" where
  "sc_receiving st \<longleftrightarrow> st \<in> {STATE_SENT_HELLO, STATE_SENT_PASSWORD, STATE_SENT_REQUEST, STATE_RECEIVED_REPLY_HEADER}"

definition sc_need :: "BSocksClient \<Rightarrow> nat \<times> nat" where
  "sc_need o' = (case sc_st o' of STATE_SENT_REQUEST \<Rightarrow> (0, 4)
     | STATE_RECEIVED_REPLY_HEADER \<Rightarrow> (4, sc_recv_total o') | _ \<Rightarrow> (0, 2))"

text \<open>The bytes of the current message that have arrived.\<close>

definition sc_got :: "BSocksClient \<Rightarrow> bytes" where
  "sc_got o' = (if sc_receiving (sc_st o') then take (sc_recv_len o') (drop (sc_recv_dest o') (sc_bytes o')) else [])"

definition sc_shape :: "BSocksClient \<Rightarrow> bool" where
  "sc_shape o' \<longleftrightarrow> sc_connector o' \<and>
     (sc_con o' \<longleftrightarrow> sc_st o' \<noteq> STATE_CONNECTING) \<and>
     sc_io o' = (if sc_st o' = STATE_CONNECTING then No_io else if sc_st o' = STATE_UP then Up_io else Control_io) \<and>
     (sc_sending (sc_st o') \<longrightarrow> sc_buffer o' \<noteq> None) \<and>
     (sc_receiving (sc_st o') \<longrightarrow> (sc_recv_dest o', sc_recv_total o') = sc_need o' \<and>
        sc_recv_dest o' + sc_recv_total o' \<le> length (sc_bytes o') \<and> sc_buffer o' \<noteq> None) \<and>
     (sc_st o' = STATE_SENT_REQUEST \<longrightarrow> 22 \<le> length (sc_bytes o'))"

definition sc_ok :: "(bytes \<Rightarrow> bytes \<times> dialogue_end) \<Rightarrow> sc_env \<Rightarrow> bool" where
  "sc_ok session env \<longleftrightarrow>
     (let o' = se_o env in
      sc_shape o' \<and> se_ups env = of_bool (sc_st o' = STATE_UP) \<and> sc_addr_ok (sc_dest_addr o') \<and>
      (if se_dead env then se_broken env \<or> length (sc_auth_info o') \<notin> {1..255} \<or> snd (session (se_rx env)) = Refused
       else (se_send env \<noteq> None \<longleftrightarrow> sc_sending (sc_st o')) \<and>
         se_recv env = (if sc_receiving (sc_st o') then Some (sc_recv_total o' - sc_recv_len o') else None) \<and>
         (sc_receiving (sc_st o') \<longrightarrow> sc_recv_len o' < sc_recv_total o') \<and>
         (\<forall>bs. session (se_rx env @ bs) =
            says (se_tx env @ (case se_send env of Some m \<Rightarrow> m | None \<Rightarrow> [])) (sc_dlg o' (sc_got o' @ bs)))))"


section \<open>What the handlers do\<close>

lemma reserve_eq:
  "bsize_nat sz = Some n \<Longrightarrow> reserve_buffer alloc sz o' =
     (alloc, if alloc then o'\<lparr>sc_buffer := Some (sc_realloc (sc_buffer o') n)\<rparr> else o')"
  by (auto simp: reserve_buffer_def bsize_nat_def split: if_splits)

lemma length_realloc [simp]: "length (sc_realloc old n) = n"
  by (auto simp: sc_realloc_def Let_def)

lemma bsizes:
  "bsize_nat (bsize_fromsize 2) = Some 2" "bsize_nat (bsize_add (bsize_fromsize 4) (bsize_fromsize 6)) = Some 10"
  "bsize_nat (bsize_add (bsize_fromsize 4) (bsize_fromsize 18)) = Some 22"
  "bsize_nat (bsize_add (bsize_fromsize 4) (bsize_max (bsize_fromsize 6) (bsize_fromsize 18))) = Some 22"
  by (simp_all add: bsize_nat_add bsize_nat_max bsize_nat_fromsize)

lemma unat_of_nat_u32: "n < 2 ^ 32 \<Longrightarrow> unat (of_nat n :: u32) = n"
  by (simp add: unat_of_nat)

lemma bsize_hello: "n \<le> 255 \<Longrightarrow>
    bsize_nat (bsize_add (bsize_fromsize 2) (bsize_mul (bsize_fromsize (of_nat n)) (bsize_fromsize 1))) = Some (2 + n)"
  using unat_of_nat_u32 [of n] by (simp add: bsize_nat_add bsize_nat_mul bsize_nat_fromsize)

lemma bsize_password: "u \<le> 255 \<Longrightarrow> p \<le> 255 \<Longrightarrow>
    bsize_nat (bsize_fromsize (of_nat (1 + 1 + u + 1 + p))) = Some (3 + u + p)"
  using unat_of_nat_u32 [of "1 + 1 + u + 1 + p"] by (simp add: bsize_nat_fromsize del: of_nat_add of_nat_Suc)

lemma sc_write_all: "sc_buffer o' = Some b \<Longrightarrow> length b = length bs \<Longrightarrow> sc_write 0 bs o' = o'\<lparr>sc_buffer := Some bs\<rparr>"
  by (simp add: sc_write_def)

lemma sc_write_eq: "sc_buffer o' = Some b \<Longrightarrow>
    sc_write off bs o' = o'\<lparr>sc_buffer := Some (take off b @ bs @ drop (off + length bs) b)\<rparr>"
  by (simp add: sc_write_def)

lemma auth_finished_eq:
  assumes "sc_addr_ok (sc_dest_addr o')"
  shows "auth_finished alloc o' =
    (if alloc then Some (o'\<lparr>sc_buffer := Some (sc_request (sc_dest_addr o')), sc_st := STATE_SENDING_REQUEST\<rparr>,
                         [Sc_Send (sc_request (sc_dest_addr o'))])
     else Some (o', [Sc_Handler BSOCKSCLIENT_EVENT_ERROR]))"
proof (cases "sc_dest_addr o'")
  case (BADDR_IPV4 ip port)
  then have l: "length ip = 4" "length port = 2" using assms by (simp_all add: sc_addr_ok_def)
  show ?thesis using BADDR_IPV4 l
    by (simp add: auth_finished_def Let_def reserve_eq [OF bsizes(2)] report_error_def sc_write_eq sc_bytes_def socks_consts)
next
  case (BADDR_IPV6 ip port)
  then have l: "length ip = 16" "length port = 2" using assms by (simp_all add: sc_addr_ok_def)
  show ?thesis using BADDR_IPV6 l
    by (simp add: auth_finished_def Let_def reserve_eq [OF bsizes(3)] report_error_def sc_write_eq sc_bytes_def socks_consts)
qed

lemma recv_password_eq:
  assumes "sc_addr_ok (sc_dest_addr o')"
  shows "recv_password_reply alloc o' = (if sc_bytes o' ! 0 = 1 \<and> sc_bytes o' ! 1 = 0 then auth_finished alloc o'
    else Some (o', [Sc_Handler BSOCKSCLIENT_EVENT_ERROR]))"
  by (auto simp: recv_password_reply_def report_error_def)

definition password_msg :: "bytes \<Rightarrow> bytes \<Rightarrow> bytes" where
  "password_msg u p = [1, of_nat (length u)] @ u @ [of_nat (length p)] @ p"

lemma send_password_eq:
  assumes "length u \<le> 255" "length p \<le> 255"
  shows "sc_send_password alloc u p o' =
    (if alloc then Some (o'\<lparr>sc_buffer := Some (password_msg u p), sc_st := STATE_SENDING_PASSWORD\<rparr>, [Sc_Send (password_msg u p)])
     else Some (o', [Sc_Handler BSOCKSCLIENT_EVENT_ERROR]))"
proof -
  have r: "reserve_buffer alloc (bsize_fromsize (of_nat (1 + 1 + length u + 1 + length p))) o' =
      (alloc, if alloc then o'\<lparr>sc_buffer := Some (sc_realloc (sc_buffer o') (3 + length u + length p))\<rparr> else o')"
    by (intro reserve_eq bsize_password assms)
  show ?thesis unfolding sc_send_password_def report_error_def Let_def r password_msg_def
    by (simp add: sc_write_eq sc_bytes_def)
qed

lemma recv_hello_eq:
  "recv_hello alloc o' =
     (if sc_bytes o' ! 0 \<noteq> 5 then Some (o', [Sc_Handler BSOCKSCLIENT_EVENT_ERROR])
      else (case find (\<lambda>ai. auth_type ai = sc_bytes o' ! 1) (sc_auth_info o') of
              None \<Rightarrow> Some (o', [Sc_Handler BSOCKSCLIENT_EVENT_ERROR])
            | Some Auth_none \<Rightarrow> auth_finished alloc o'
            | Some (Auth_password u p) \<Rightarrow>
                if length u \<in> {1..255} \<and> length p \<in> {1..255} \<and> alloc
                then Some (o'\<lparr>sc_buffer := Some (password_msg u p), sc_st := STATE_SENDING_PASSWORD\<rparr>, [Sc_Send (password_msg u p)])
                else Some (o', [Sc_Handler BSOCKSCLIENT_EVENT_ERROR])))"
proof -
  have 1: "Suc 0 \<le> length x \<longleftrightarrow> x \<noteq> []" for x :: bytes by (cases x) auto
  show ?thesis
  proof (cases "find (\<lambda>ai. auth_type ai = sc_bytes o' ! 1) (sc_auth_info o')")
    case None
    then show ?thesis by (simp add: recv_hello_def report_error_def socks_consts Let_def)
  next
    case (Some ai)
    show ?thesis
    proof (cases ai)
      case Auth_none
      then show ?thesis using Some by (simp add: recv_hello_def report_error_def socks_consts Let_def)
    next
      case (Auth_password u p)
      show ?thesis
      proof (cases "length u \<in> {1..255} \<and> length p \<in> {1..255}")
        case True
        then have "sc_send_password alloc u p o' = (if alloc then Some (o'\<lparr>sc_buffer := Some (password_msg u p),
            sc_st := STATE_SENDING_PASSWORD\<rparr>, [Sc_Send (password_msg u p)])
            else Some (o', [Sc_Handler BSOCKSCLIENT_EVENT_ERROR]))"
          by (intro send_password_eq) simp_all
        then show ?thesis using True Some Auth_password
          unfolding recv_hello_def report_error_def Let_def by (auto simp: socks_consts 1)
      next
        case False
        then have "length u = 0 \<or> length u > 255 \<or> length p = 0 \<or> length p > 255" by (auto simp: 1)
        then show ?thesis using False Some Auth_password
          unfolding recv_hello_def report_error_def Let_def
          by (auto simp: socks_consts)
      qed
    qed
  qed
qed

lemma write_methods:
  assumes "sc_buffer o' = Some (pre @ b)" "length pre = 2" "length b = length ms"
  shows "fold (\<lambda>i. sc_write (2 + i * 1) [ms ! i]) [0..<length ms] o' = o'\<lparr>sc_buffer := Some (pre @ ms)\<rparr>"
proof -
  have "fold (\<lambda>i. sc_write (2 + i * 1) [ms ! i]) [0..<k] o' = o'\<lparr>sc_buffer := Some (pre @ take k ms @ drop k b)\<rparr>"
    if "k \<le> length ms" for k
    using that
  proof (induction k)
    case 0
    then show ?case using assms(1) by simp
  next
    case (Suc k)
    have "drop k b = b ! k # drop (Suc k) b" using Suc.prems assms(3) by (simp add: Cons_nth_drop_Suc)
    then show ?case using Suc assms(2)
      by (simp add: sc_write_def take_Suc_conv_app_nth)
  qed
  from this [of "length ms"] show ?thesis using assms(3) by simp
qed

definition hello_msg :: "BSocksClient_auth_info list \<Rightarrow> bytes" where
  "hello_msg auth = [5, of_nat (length auth)] @ map auth_type auth"

lemma connector_handler_eq:
  assumes "sc_st o' = STATE_CONNECTING" "\<not> sc_con o'" "sc_io o' = No_io"
  shows "connector_handler is_error con_ok alloc o' =
    (if \<not> is_error \<and> con_ok \<and> alloc \<and> length (sc_auth_info o') \<in> {1..255}
     then Some (o'\<lparr>sc_con := True, sc_io := Control_io, sc_buffer := Some (hello_msg (sc_auth_info o')),
            sc_st := STATE_SENDING_HELLO\<rparr>, [Sc_Send (hello_msg (sc_auth_info o'))])
     else Some (o', [Sc_Handler BSOCKSCLIENT_EVENT_ERROR]))"
proof -
  let ?o = "o'\<lparr>sc_con := True, sc_io := Control_io\<rparr>" and ?n = "length (sc_auth_info o')"
  have same: "o'\<lparr>sc_io := No_io, sc_con := False\<rparr> = o'" using assms(2,3) by (cases o') simp
  have f: "sc_fail1 ?o = Some (o', [Sc_Handler BSOCKSCLIENT_EVENT_ERROR])"
    using same by (simp add: sc_fail1_def free_control_io_def con_Free_def report_error_def)
  show ?thesis
  proof (cases "\<not> is_error \<and> con_ok \<and> ?n \<in> {1..255}")
    case False
    then show ?thesis using assms f
      by (auto simp: connector_handler_def init_control_io_def report_error_def Let_def Suc_le_eq)
  next
    case True
    then have r: "reserve_buffer alloc (bsize_add (bsize_fromsize 2) (bsize_mul (bsize_fromsize (of_nat ?n)) (bsize_fromsize 1))) ?o =
        (alloc, if alloc then ?o\<lparr>sc_buffer := Some (sc_realloc (sc_buffer ?o) (2 + ?n))\<rparr> else ?o)"
      by (intro reserve_eq bsize_hello) simp
    show ?thesis
    proof (cases alloc)
      case False
      then show ?thesis using True assms f r
        by (auto simp: connector_handler_def init_control_io_def Let_def)
    next
      case al: True
      let ?b = "sc_realloc (sc_buffer ?o) (2 + ?n)"
      let ?o1 = "?o\<lparr>sc_buffer := Some ([5, of_nat ?n] @ drop 2 ?b)\<rparr>"
      have w1: "sc_write 0 [SOCKS_VERSION, of_nat ?n] (?o\<lparr>sc_buffer := Some ?b\<rparr>) = ?o1"
        by (simp add: sc_write_def socks_consts numeral_2_eq_2)
      have ms: "fold (\<lambda>i. sc_write (2 + i * 1) [map auth_type (sc_auth_info o') ! i]) [0..<length (map auth_type (sc_auth_info o'))] ?o1
          = ?o1\<lparr>sc_buffer := Some ([5, of_nat ?n] @ map auth_type (sc_auth_info o'))\<rparr>"
      proof (rule write_methods)
        show "sc_buffer ?o1 = Some ([5, of_nat ?n] @ drop 2 ?b)" by simp
        show "length (drop 2 ?b) = length (map auth_type (sc_auth_info o'))"
          unfolding length_drop length_realloc length_map by (rule diff_add_inverse)
      qed simp
      have "fold (\<lambda>i. sc_write (2 + i * 1) [auth_type (sc_auth_info ?o1 ! i)]) [0..<?n] ?o1
          = fold (\<lambda>i. sc_write (2 + i * 1) [map auth_type (sc_auth_info o') ! i]) [0..<?n] ?o1"
        by (rule fold_cong) simp_all
      then have w2: "fold (\<lambda>i. sc_write (2 + i * 1) [auth_type (sc_auth_info ?o1 ! i)]) [0..<?n] ?o1 =
          ?o\<lparr>sc_buffer := Some (hello_msg (sc_auth_info o'))\<rparr>"
        using ms by (simp add: hello_msg_def)
      have i: "init_control_io (o'\<lparr>sc_con := True\<rparr>) = Some ?o" using assms by (simp add: init_control_io_def)
      have "sc_auth_info ?o = sc_auth_info o'" by simp
      then show ?thesis using True al assms(1) r w1 w2 i
        unfolding connector_handler_def Let_def by (auto simp: sc_bytes_def)
    qed
  qed
qed

lemma send_handler_done_eq:
  assumes "sc_buffer o' \<noteq> None" "sc_sending (sc_st o')"
  defines "rcv \<equiv> (\<lambda>k n st. Some (o'\<lparr>sc_buffer := Some (sc_realloc (sc_buffer o') k), sc_recv_dest := 0,
        sc_recv_len := 0, sc_recv_total := n, sc_st := st\<rparr>, [Sc_Recv n]))"
  shows "send_handler_done alloc o' =
    (if \<not> alloc then Some (o', [Sc_Handler BSOCKSCLIENT_EVENT_ERROR])
     else case sc_st o' of STATE_SENDING_HELLO \<Rightarrow> rcv 2 2 STATE_SENT_HELLO
       | STATE_SENDING_REQUEST \<Rightarrow> rcv 22 4 STATE_SENT_REQUEST
       | _ \<Rightarrow> rcv 2 2 STATE_SENT_PASSWORD)"
  using assms(1,2) unfolding rcv_def
  by (auto simp: send_handler_done_def Let_def reserve_eq [OF bsizes(1)] reserve_eq [OF bsizes(4)] report_error_def
    start_receive_def do_receive_def sc_set_state_def sc_sending_def)


section \<open>Preservation\<close>

lemma sc_ret_simps:
  "sc_ret env (Some (o', [Sc_Handler BSOCKSCLIENT_EVENT_ERROR])) = Some (env\<lparr>se_o := o', se_dead := True\<rparr>)"
  "sc_ret env (Some (o', [Sc_Handler BSOCKSCLIENT_EVENT_ERROR_CLOSED])) = Some (env\<lparr>se_o := o', se_dead := True\<rparr>)"
  "sc_ret env (Some (o', [Sc_Handler BSOCKSCLIENT_EVENT_UP])) = Some (env\<lparr>se_o := o', se_ups := se_ups env + 1\<rparr>)"
  "se_send env = None \<Longrightarrow> sc_ret env (Some (o', [Sc_Send m])) = Some (env\<lparr>se_o := o', se_send := Some m\<rparr>)"
  "se_recv env = None \<Longrightarrow> 0 < n \<Longrightarrow> sc_ret env (Some (o', [Sc_Recv n])) = Some (env\<lparr>se_o := o', se_recv := Some n\<rparr>)"
  by (simp_all add: sc_ret_def)

lemmas sc_states = sc_sending_def sc_receiving_def

lemma step_connected:
  assumes ok: "sc_ok session env"
  shows "\<exists>env'. sc_step (Ev_connected is_error con_ok alloc) env = Some env' \<and> sc_ok session env'"
proof (cases "se_dead env \<or> sc_st (se_o env) \<noteq> STATE_CONNECTING")
  case True
  then show ?thesis using ok by auto
next
  case False
  then have st: "sc_st (se_o env) = STATE_CONNECTING" "\<not> se_dead env" by simp_all
  let ?o = "se_o env"
  have sh: "sc_shape ?o" "\<not> sc_con ?o" "sc_io ?o = No_io" "se_send env = None" "se_recv env = None"
    "sc_addr_ok (sc_dest_addr ?o)" "se_ups env = 0"
    using ok st by (simp_all add: sc_ok_def Let_def sc_shape_def sc_states)
  have d: "session (se_rx env @ bs) = says (se_tx env @ hello_msg (sc_auth_info ?o)) (sc_hello (sc_auth_info ?o) (sc_dest_addr ?o) bs)" for bs
    using ok st sh by (simp add: sc_ok_def Let_def sc_dlg_def sc_got_def sc_states sc_session_def hello_msg_def)
  note ch = connector_handler_eq [OF st(1) sh(2,3)]
  show ?thesis
  proof (cases "\<not> is_error \<and> con_ok \<and> alloc \<and> length (sc_auth_info ?o) \<in> {1..255}")
    case True
    then show ?thesis using st sh d
      by (auto simp: ch sc_ret_simps sc_ok_def Let_def sc_shape_def sc_states sc_dlg_def sc_got_def)
  next
    case False
    then show ?thesis using st sh
      by (auto simp: ch sc_ret_simps sc_ok_def Let_def)
  qed
qed

lemma step_connection:
  assumes ok: "sc_ok session env"
  shows "\<exists>env'. sc_step (Ev_connection recvclosed) env = Some env' \<and> sc_ok session env'"
  using ok by (auto simp: connection_handler_def report_error_def sc_ret_simps sc_ok_def Let_def)

lemma sc_okD:
  assumes "sc_ok session env" "\<not> se_dead env"
  shows "sc_shape (se_o env)" "se_ups env = of_bool (sc_st (se_o env) = STATE_UP)" "sc_addr_ok (sc_dest_addr (se_o env))"
    "se_send env \<noteq> None \<longleftrightarrow> sc_sending (sc_st (se_o env))"
    "se_recv env = (if sc_receiving (sc_st (se_o env)) then Some (sc_recv_total (se_o env) - sc_recv_len (se_o env)) else None)"
    "sc_receiving (sc_st (se_o env)) \<Longrightarrow> sc_recv_len (se_o env) < sc_recv_total (se_o env)"
    "session (se_rx env @ bs) = says (se_tx env @ (case se_send env of Some m \<Rightarrow> m | None \<Rightarrow> []))
       (sc_dlg (se_o env) (sc_got (se_o env) @ bs))"
  using assms unfolding sc_ok_def Let_def by (simp_all only: if_False simp_thms)

lemma sending_not: "sc_sending st \<Longrightarrow> \<not> sc_receiving st \<and> st \<noteq> STATE_UP \<and> st \<noteq> STATE_CONNECTING"
  by (auto simp: sc_states)

lemma receiving_not: "sc_receiving st \<Longrightarrow> \<not> sc_sending st \<and> st \<noteq> STATE_UP \<and> st \<noteq> STATE_CONNECTING"
  by (auto simp: sc_states)

lemma ok_receive:
  assumes "sc_shape o1" "sc_receiving (sc_st o1)" "sc_recv_len o1 < sc_recv_total o1" "sc_addr_ok (sc_dest_addr o1)"
    and "se_send env = None" "\<not> se_dead env" "se_ups env = 0"
    and "\<And>bs. session (se_rx env @ bs) = says (se_tx env) (sc_dlg o1 (sc_got o1 @ bs))"
  shows "sc_ok session (env\<lparr>se_o := o1, se_recv := Some (sc_recv_total o1 - sc_recv_len o1)\<rparr>)"
proof -
  have "\<not> sc_sending (sc_st o1)" "sc_st o1 \<noteq> STATE_UP" using assms(2) by (auto simp: sc_states)
  then show ?thesis unfolding sc_ok_def Let_def using assms by simp
qed

lemma ok_send:
  assumes "sc_shape o1" "sc_sending (sc_st o1)" "sc_addr_ok (sc_dest_addr o1)"
    and "se_recv env = None" "\<not> se_dead env" "se_ups env = 0"
    and "\<And>bs. session (se_rx env @ bs) = says (se_tx env @ m) (sc_dlg o1 bs)"
  shows "sc_ok session (env\<lparr>se_o := o1, se_send := Some m\<rparr>)"
proof -
  have st: "\<not> sc_receiving (sc_st o1)" "sc_st o1 \<noteq> STATE_UP" using assms(2) by (auto simp: sc_states)
  then have "sc_got o1 = []" by (simp add: sc_got_def)
  then show ?thesis unfolding sc_ok_def Let_def using assms st by simp
qed

lemma ok_dead:
  assumes "sc_shape o1" "sc_addr_ok (sc_dest_addr o1)" "se_ups env = of_bool (sc_st o1 = STATE_UP)"
    and "se_broken env \<or> snd (session (se_rx env)) = Refused"
  shows "sc_ok session (env\<lparr>se_o := o1, se_dead := True\<rparr>)"
  unfolding sc_ok_def Let_def using assms by simp

lemma shape_receive:
  assumes "sc_shape o'" "sc_st o' \<notin> {STATE_CONNECTING, STATE_UP}" "sc_receiving st"
    and "(dest, n) = (case st of STATE_SENT_REQUEST \<Rightarrow> (0, 4) | STATE_RECEIVED_REPLY_HEADER \<Rightarrow> (4, n) | _ \<Rightarrow> (0, 2))"
    and "dest + n \<le> length b" "st = STATE_SENT_REQUEST \<Longrightarrow> 22 \<le> length b"
  shows "sc_shape (o'\<lparr>sc_buffer := Some b, sc_recv_dest := dest, sc_recv_len := k, sc_recv_total := n, sc_st := st\<rparr>)"
proof -
  let ?o1 = "o'\<lparr>sc_buffer := Some b, sc_recv_dest := dest, sc_recv_len := k, sc_recv_total := n, sc_st := st\<rparr>"
  have need: "sc_need ?o1 = (dest, n)" using assms(4) by (cases st) (simp_all add: sc_need_def)
  have st: "st \<noteq> STATE_CONNECTING" "st \<noteq> STATE_UP" "\<not> sc_sending st" using assms(3) by (auto simp: sc_states)
  have "sc_connector o'" "sc_con o'" "sc_io o' = Control_io" using assms(1,2) by (auto simp: sc_shape_def)
  then show ?thesis unfolding sc_shape_def need using st assms(5,6) by (simp add: sc_bytes_def)
qed

lemma shape_send:
  assumes "sc_shape o'" "sc_st o' \<notin> {STATE_CONNECTING, STATE_UP}" "sc_sending st"
  shows "sc_shape (o'\<lparr>sc_buffer := Some b, sc_st := st\<rparr>)"
proof -
  have st: "st \<noteq> STATE_CONNECTING" "st \<noteq> STATE_UP" "\<not> sc_receiving st" "st \<noteq> STATE_SENT_REQUEST" using assms(3) by (auto simp: sc_states)
  have "sc_connector o'" "sc_con o'" "sc_io o' = Control_io" using assms(1,2) by (auto simp: sc_shape_def)
  then show ?thesis unfolding sc_shape_def using st by simp
qed

lemma step_sent:
  assumes ok: "sc_ok session env"
  shows "\<exists>env'. sc_step (Ev_sent alloc) env = Some env' \<and> sc_ok session env'"
proof (cases "se_dead env \<or> se_send env = None")
  case True
  then show ?thesis using ok by auto
next
  case False
  then obtain m where m: "se_send env = Some m" "\<not> se_dead env" by auto
  let ?o = "se_o env"
  note D = sc_okD [OF ok m(2)]
  have snd: "sc_sending (sc_st ?o)" using D(4) m by simp
  note nt = sending_not [OF snd]
  have sh: "sc_shape ?o" "sc_sending (sc_st ?o)" "sc_buffer ?o \<noteq> None" "se_recv env = None"
    "sc_addr_ok (sc_dest_addr ?o)" "se_ups env = 0"
    using D(1-5) snd nt by (simp_all add: sc_shape_def)
  have "sc_got ?o = []" using nt by (simp add: sc_got_def)
  then have d: "session (se_rx env @ bs) = says (se_tx env @ m) (sc_dlg ?o bs)" for bs
    using D(7) [of bs] m by simp
  define env1 where "env1 = env\<lparr>se_send := None, se_tx := se_tx env @ m, se_broken := se_broken env \<or> \<not> alloc\<rparr>"
  have e1: "se_send env1 = None" "se_recv env1 = None" "\<not> se_dead env1" "se_rx env1 = se_rx env"
    "se_tx env1 = se_tx env @ m" "se_ups env1 = se_ups env" "se_broken env1 = (se_broken env \<or> \<not> alloc)"
    using m sh(4) by (simp_all add: env1_def)
  have step: "sc_step (Ev_sent alloc) env = sc_ret env1 (send_handler_done alloc ?o)"
    using m by (simp add: env1_def)
  show ?thesis
  proof (cases alloc)
    case False
    then have "sc_step (Ev_sent alloc) env = Some (env1\<lparr>se_o := ?o, se_dead := True\<rparr>)"
      unfolding step send_handler_done_eq [OF sh(3,2)] by (simp add: sc_ret_simps)
    moreover have "sc_ok session (env1\<lparr>se_o := ?o, se_dead := True\<rparr>)"
      using sh nt False by (intro ok_dead) (simp_all add: e1)
    ultimately show ?thesis by blast
  next
    case True
    have rcv: "\<exists>env'. sc_ret env1 (Some (?o\<lparr>sc_buffer := Some (sc_realloc (sc_buffer ?o) k), sc_recv_dest := 0,
          sc_recv_len := 0, sc_recv_total := n, sc_st := st\<rparr>, [Sc_Recv n])) = Some env' \<and> sc_ok session env'"
      if "sc_receiving st" "(0::nat, n) = (case st of STATE_SENT_REQUEST \<Rightarrow> (0, 4) | STATE_RECEIVED_REPLY_HEADER \<Rightarrow> (4, n) | _ \<Rightarrow> (0, 2))"
        "n \<le> k \<and> (st = STATE_SENT_REQUEST \<longrightarrow> 22 \<le> k)" "0 < n" "sc_dlg (?o\<lparr>sc_buffer := Some (sc_realloc (sc_buffer ?o) k), sc_recv_dest := 0,
          sc_recv_len := 0, sc_recv_total := n, sc_st := st\<rparr>) = sc_dlg ?o" for k n st
    proof -
      let ?o1 = "?o\<lparr>sc_buffer := Some (sc_realloc (sc_buffer ?o) k), sc_recv_dest := 0,
          sc_recv_len := 0, sc_recv_total := n, sc_st := st\<rparr>"
      have "sc_st ?o \<notin> {STATE_CONNECTING, STATE_UP}" using nt by simp
      then have s1: "sc_shape ?o1" using that(2,3) by (intro shape_receive [OF sh(1) _ that(1)]) simp_all
      have "sc_got ?o1 = []" by (simp add: sc_got_def)
      then have "sc_ok session (env1\<lparr>se_o := ?o1, se_recv := Some (sc_recv_total ?o1 - sc_recv_len ?o1)\<rparr>)"
        using that(1,4,5) sh(5,6) d by (intro ok_receive [OF s1]) (simp_all add: e1)
      then show ?thesis using that(4) by (simp add: sc_ret_simps e1)
    qed
    consider "sc_st ?o = STATE_SENDING_HELLO" | "sc_st ?o = STATE_SENDING_REQUEST" | "sc_st ?o = STATE_SENDING_PASSWORD"
      using sh(2) by (auto simp: sc_states)
    then show ?thesis
    proof cases
      case 1
      show ?thesis unfolding step send_handler_done_eq [OF sh(3,2)] using True 1 rcv [of STATE_SENT_HELLO 2 2]
        by (simp add: sc_states sc_dlg_def)
    next
      case 2
      show ?thesis unfolding step send_handler_done_eq [OF sh(3,2)] using True 2 rcv [of STATE_SENT_REQUEST 4 22]
        by (simp add: sc_states sc_dlg_def)
    next
      case 3
      show ?thesis unfolding step send_handler_done_eq [OF sh(3,2)] using True 3 rcv [of STATE_SENT_PASSWORD 2 2]
        by (simp add: sc_states sc_dlg_def)
    qed
  qed
qed

lemma sc_write_fields [simp]:
  "sc_auth_info (sc_write k d o') = sc_auth_info o'" "sc_dest_addr (sc_write k d o') = sc_dest_addr o'"
  "sc_st (sc_write k d o') = sc_st o'" "sc_connector (sc_write k d o') = sc_connector o'"
  "sc_con (sc_write k d o') = sc_con o'" "sc_io (sc_write k d o') = sc_io o'"
  "sc_recv_dest (sc_write k d o') = sc_recv_dest o'" "sc_recv_len (sc_write k d o') = sc_recv_len o'"
  "sc_recv_total (sc_write k d o') = sc_recv_total o'"
  "sc_buffer (sc_write k d o') = None \<longleftrightarrow> sc_buffer o' = None"
  by (simp_all add: sc_write_def split: option.split)

lemma length_sc_write: "k + length d \<le> length (sc_bytes o') \<Longrightarrow> length (sc_bytes (sc_write k d o')) = length (sc_bytes o')"
  by (simp add: sc_write_def sc_bytes_def split: option.splits)

lemma got_write:
  assumes sh: "sc_shape o'" and r: "sc_receiving (sc_st o')" and l: "sc_recv_len o' + length d \<le> sc_recv_total o'"
  defines "o1 \<equiv> (sc_write (sc_recv_dest o' + sc_recv_len o') d o')\<lparr>sc_recv_len := sc_recv_len o' + length d\<rparr>"
  shows "sc_got o1 = sc_got o' @ d" "sc_shape o1"
proof -
  obtain b where b: "sc_buffer o' = Some b" using sh r by (auto simp: sc_shape_def)
  have lb: "sc_recv_dest o' + sc_recv_total o' \<le> length b" using sh r b by (simp add: sc_shape_def sc_bytes_def)
  have kb: "sc_recv_dest o' + sc_recv_len o' \<le> length b" using lb l by simp
  have o1: "sc_buffer o1 = Some (take (sc_recv_dest o' + sc_recv_len o') b @ d @
      drop (sc_recv_dest o' + sc_recv_len o' + length d) b)" "sc_st o1 = sc_st o'" "sc_recv_dest o1 = sc_recv_dest o'"
    "sc_recv_len o1 = sc_recv_len o' + length d" "sc_recv_total o1 = sc_recv_total o'"
    "sc_connector o1 = sc_connector o'" "sc_con o1 = sc_con o'" "sc_io o1 = sc_io o'"
    using b by (simp_all add: o1_def sc_write_eq)
  have "drop (sc_recv_dest o') (take (sc_recv_dest o' + sc_recv_len o') b) = take (sc_recv_len o') (drop (sc_recv_dest o') b)"
    by (simp add: drop_take)
  then show "sc_got o1 = sc_got o' @ d"
    using r kb b by (simp add: sc_got_def o1 sc_bytes_def)
  have need: "sc_need o1 = sc_need o'" unfolding sc_need_def o1 by (rule refl)
  have len: "length (sc_bytes o1) = length (sc_bytes o')" using kb lb l b by (simp add: sc_bytes_def o1)
  have "sc_buffer o1 \<noteq> None" by (simp add: o1)
  then show "sc_shape o1" using sh unfolding sc_shape_def need len o1(2-8) by blast
qed


text \<open>A complete message: what the session says to it.\<close>

lemma sc_hello_2:
  "sc_hello auth dest (ver # meth # bs) =
     (if ver \<noteq> 5 then ([], Refused)
      else (case find (\<lambda>ai. auth_type ai = meth) auth of
              None \<Rightarrow> ([], Refused)
            | Some Auth_none \<Rightarrow> says (sc_request dest) (sc_reply bs)
            | Some (Auth_password u p) \<Rightarrow>
                if length u \<in> {1..255} \<and> length p \<in> {1..255}
                then says (password_msg u p) (sc_password dest bs) else ([], Refused)))"
  unfolding sc_hello_def password_msg_def by simp

lemma list2: "length xs = 2 \<Longrightarrow> xs = [xs ! 0, xs ! 1]"
  by (auto simp: numeral_eq_Suc length_Suc_conv)

lemma list4: "length xs = 4 \<Longrightarrow> xs = [xs ! 0, xs ! 1, xs ! 2, xs ! 3]"
  by (auto simp: numeral_eq_Suc length_Suc_conv)

lemma done_auth:
  assumes "sc_shape o1" "sc_st o1 \<notin> {STATE_CONNECTING, STATE_UP}" "sc_addr_ok (sc_dest_addr o1)"
    and e: "se_send env = None" "se_recv env = None" "\<not> se_dead env" "se_ups env = 0" "alloc \<or> se_broken env"
    and d: "\<And>bs. session (se_rx env @ bs) = says (se_tx env @ sc_request (sc_dest_addr o1)) (sc_reply bs)"
  shows "\<exists>env'. sc_ret env (auth_finished alloc o1) = Some env' \<and> sc_ok session env'"
proof (cases alloc)
  case True
  let ?o2 = "o1\<lparr>sc_buffer := Some (sc_request (sc_dest_addr o1)), sc_st := STATE_SENDING_REQUEST\<rparr>"
  have sh: "sc_shape ?o2" by (rule shape_send [OF assms(1,2)]) (simp add: sc_states)
  have "sc_ok session (env\<lparr>se_o := ?o2, se_send := Some (sc_request (sc_dest_addr o1))\<rparr>)"
    using assms(3) e d by (intro ok_send [OF sh]) (simp_all add: sc_states sc_dlg_def)
  then show ?thesis using True e by (simp add: auth_finished_eq [OF assms(3)] sc_ret_simps)
next
  case False
  have "sc_ok session (env\<lparr>se_o := o1, se_dead := True\<rparr>)"
    using assms(2,3) e False by (intro ok_dead [OF assms(1)]) simp_all
  then show ?thesis using False by (simp add: auth_finished_eq [OF assms(3)] sc_ret_simps)
qed

lemma done_refused:
  assumes "sc_shape o1" "sc_st o1 \<noteq> STATE_UP" "sc_addr_ok (sc_dest_addr o1)" "se_ups env = 0"
    and "\<And>bs. session (se_rx env @ bs) = says (se_tx env) ([], Refused)"
  shows "\<exists>env'. sc_ret env (Some (o1, [Sc_Handler BSOCKSCLIENT_EVENT_ERROR])) = Some env' \<and> sc_ok session env'"
proof -
  have "snd (session (se_rx env)) = Refused" using assms(5) [of "[]"] by simp
  then have "sc_ok session (env\<lparr>se_o := o1, se_dead := True\<rparr>)"
    using assms(2-4) by (intro ok_dead [OF assms(1)]) simp_all
  then show ?thesis by (simp add: sc_ret_simps)
qed

lemma done_hello:
  assumes sh: "sc_shape o1" and st: "sc_st o1 = STATE_SENT_HELLO" and ad: "sc_addr_ok (sc_dest_addr o1)"
    and len: "sc_recv_len o1 = sc_recv_total o1"
    and e: "se_send env = None" "se_recv env = None" "\<not> se_dead env" "se_ups env = 0" "alloc \<or> se_broken env"
    and d: "\<And>bs. session (se_rx env @ bs) = says (se_tx env) (sc_dlg o1 (sc_got o1 @ bs))"
  shows "\<exists>env'. sc_ret env (recv_hello alloc o1) = Some env' \<and> sc_ok session env'"
proof -
  have b: "sc_recv_dest o1 = 0" "sc_recv_total o1 = 2" "2 \<le> length (sc_bytes o1)"
    using sh st by (auto simp: sc_shape_def sc_need_def sc_states)
  then have "sc_got o1 = take 2 (sc_bytes o1)" using st len by (simp add: sc_got_def sc_states)
  then have got: "sc_got o1 = [sc_bytes o1 ! 0, sc_bytes o1 ! 1]" using list2 [of "take 2 (sc_bytes o1)"] b by simp
  have d': "session (se_rx env @ bs) = says (se_tx env)
      (sc_hello (sc_auth_info o1) (sc_dest_addr o1) (sc_bytes o1 ! 0 # sc_bytes o1 ! 1 # bs))" for bs
    using d [of bs] got st by (simp add: sc_dlg_def)
  have st': "sc_st o1 \<notin> {STATE_CONNECTING, STATE_UP}" "sc_st o1 \<noteq> STATE_UP" using st by simp_all
  note ref = done_refused [OF sh st'(2) ad e(4)]
  show ?thesis
  proof (cases "sc_bytes o1 ! 0 = 5")
    case False
    then show ?thesis unfolding recv_hello_eq using ref d' by (simp add: sc_hello_2)
  next
    case True
    show ?thesis
    proof (cases "find (\<lambda>ai. auth_type ai = sc_bytes o1 ! 1) (sc_auth_info o1)")
      case None
      then show ?thesis unfolding recv_hello_eq using ref d' True by (simp add: sc_hello_2)
    next
      case (Some ai)
      show ?thesis
      proof (cases ai)
        case Auth_none
        have "recv_hello alloc o1 = auth_finished alloc o1" unfolding recv_hello_eq using True Some Auth_none by simp
        moreover have "\<exists>env'. sc_ret env (auth_finished alloc o1) = Some env' \<and> sc_ok session env'"
          using d' True Some Auth_none by (intro done_auth [OF sh st'(1) ad e]) (simp add: sc_hello_2)
        ultimately show ?thesis by simp
      next
        case (Auth_password u p)
        show ?thesis
        proof (cases "length u \<in> {1..255} \<and> length p \<in> {1..255}")
          case False
          then have "recv_hello alloc o1 = Some (o1, [Sc_Handler BSOCKSCLIENT_EVENT_ERROR])"
            unfolding recv_hello_eq using True Some Auth_password by auto
          moreover have "session (se_rx env @ bs) = says (se_tx env) ([], Refused)" for bs
            unfolding d' using True Some Auth_password by (simp only: sc_hello_2 if_not_P [OF False] option.case
              BSocksClient_auth_info.case simp_thms if_False)
          ultimately show ?thesis using ref by simp
        next
          case in_range: True
          show ?thesis
          proof (cases alloc)
            case al: True
            let ?o2 = "o1\<lparr>sc_buffer := Some (password_msg u p), sc_st := STATE_SENDING_PASSWORD\<rparr>"
            have r: "recv_hello alloc o1 = Some (?o2, [Sc_Send (password_msg u p)])"
              unfolding recv_hello_eq using True Some Auth_password in_range al by simp
            have sh2: "sc_shape ?o2" by (rule shape_send [OF sh st'(1)]) (simp add: sc_states)
            have "sc_ok session (env\<lparr>se_o := ?o2, se_send := Some (password_msg u p)\<rparr>)"
              using ad e d' True Some Auth_password in_range
              by (intro ok_send [OF sh2]) (simp_all add: sc_states sc_dlg_def sc_hello_2)
            then show ?thesis using r e by (simp add: sc_ret_simps)
          next
            case False
            have r: "recv_hello alloc o1 = Some (o1, [Sc_Handler BSOCKSCLIENT_EVENT_ERROR])"
              unfolding recv_hello_eq using True Some Auth_password False by simp
            have "sc_ok session (env\<lparr>se_o := o1, se_dead := True\<rparr>)"
              using st' ad e False by (intro ok_dead [OF sh]) simp_all
            then show ?thesis using r by (simp add: sc_ret_simps)
          qed
        qed
      qed
    qed
  qed
qed

lemma done_password:
  assumes sh: "sc_shape o1" and st: "sc_st o1 = STATE_SENT_PASSWORD" and ad: "sc_addr_ok (sc_dest_addr o1)"
    and len: "sc_recv_len o1 = sc_recv_total o1"
    and e: "se_send env = None" "se_recv env = None" "\<not> se_dead env" "se_ups env = 0" "alloc \<or> se_broken env"
    and d: "\<And>bs. session (se_rx env @ bs) = says (se_tx env) (sc_dlg o1 (sc_got o1 @ bs))"
  shows "\<exists>env'. sc_ret env (recv_password_reply alloc o1) = Some env' \<and> sc_ok session env'"
proof -
  have b: "sc_recv_dest o1 = 0" "sc_recv_total o1 = 2" "2 \<le> length (sc_bytes o1)"
    using sh st by (auto simp: sc_shape_def sc_need_def sc_states)
  then have "sc_got o1 = take 2 (sc_bytes o1)" using st len by (simp add: sc_got_def sc_states)
  then have got: "sc_got o1 = [sc_bytes o1 ! 0, sc_bytes o1 ! 1]" using list2 [of "take 2 (sc_bytes o1)"] b by simp
  have d': "session (se_rx env @ bs) = says (se_tx env)
      (sc_password (sc_dest_addr o1) (sc_bytes o1 ! 0 # sc_bytes o1 ! 1 # bs))" for bs
    using d [of bs] got st by (simp add: sc_dlg_def)
  have st': "sc_st o1 \<notin> {STATE_CONNECTING, STATE_UP}" "sc_st o1 \<noteq> STATE_UP" using st by simp_all
  show ?thesis
  proof (cases "sc_bytes o1 ! 0 = 1 \<and> sc_bytes o1 ! 1 = 0")
    case True
    have "\<exists>env'. sc_ret env (auth_finished alloc o1) = Some env' \<and> sc_ok session env'"
      using d' True by (intro done_auth [OF sh st'(1) ad e]) (simp add: sc_password_def)
    then show ?thesis using True by (simp add: recv_password_eq [OF ad])
  next
    case False
    have "\<exists>env'. sc_ret env (Some (o1, [Sc_Handler BSOCKSCLIENT_EVENT_ERROR])) = Some env' \<and> sc_ok session env'"
      using d' False by (intro done_refused [OF sh st'(2) ad e(4)]) (auto simp: sc_password_def)
    then show ?thesis using False by (auto simp: recv_password_eq [OF ad])
  qed
qed


lemma done_reply_header:
  assumes sh: "sc_shape o1" and st: "sc_st o1 = STATE_SENT_REQUEST" and ad: "sc_addr_ok (sc_dest_addr o1)"
    and len: "sc_recv_len o1 = sc_recv_total o1" and big: "22 \<le> length (sc_bytes o1)"
    and e: "se_send env = None" "se_recv env = None" "\<not> se_dead env" "se_ups env = 0"
    and d: "\<And>bs. session (se_rx env @ bs) = says (se_tx env) (sc_dlg o1 (sc_got o1 @ bs))"
  shows "\<exists>env'. sc_ret env (recv_reply_header o1) = Some env' \<and> sc_ok session env'"
proof -
  have b: "sc_recv_dest o1 = 0" "sc_recv_total o1 = 4" using sh st by (auto simp: sc_shape_def sc_need_def sc_states)
  let ?b = "sc_bytes o1"
  obtain buf where buf: "sc_buffer o1 = Some buf" using sh st by (auto simp: sc_shape_def sc_states)
  have "sc_got o1 = take 4 ?b" using st len b by (simp add: sc_got_def sc_states)
  then have got: "sc_got o1 = [?b ! 0, ?b ! 1, ?b ! 2, ?b ! 3]" using list4 [of "take 4 ?b"] big by simp
  have d': "session (se_rx env @ bs) = says (se_tx env) (sc_reply (?b ! 0 # ?b ! 1 # ?b ! 2 # ?b ! 3 # bs))" for bs
    using d [of bs] got st by (simp add: sc_dlg_def)
  have st': "sc_st o1 \<notin> {STATE_CONNECTING, STATE_UP}" "sc_st o1 \<noteq> STATE_UP" using st by simp_all
  note ref = done_refused [OF sh st'(2) ad e(4)]
  have rest: "\<exists>env'. sc_ret env (sc_set_state STATE_RECEIVED_REPLY_HEADER (start_receive 4 n o1)) = Some env' \<and> sc_ok session env'"
    if "0 < n" "n \<le> 18" "\<And>bs. session (se_rx env @ bs) = says (se_tx env) (sc_skip n bs)" for n
  proof -
    let ?o2 = "o1\<lparr>sc_buffer := Some buf, sc_recv_dest := 4, sc_recv_len := 0, sc_recv_total := n,
      sc_st := STATE_RECEIVED_REPLY_HEADER\<rparr>"
    have r: "sc_set_state STATE_RECEIVED_REPLY_HEADER (start_receive 4 n o1) = Some (?o2, [Sc_Recv n])"
      using that(1) buf by (cases o1) (simp add: sc_set_state_def start_receive_def do_receive_def)
    have lb: "4 + n \<le> length buf" using big buf that(2) by (simp add: sc_bytes_def)
    have s2: "sc_shape ?o2" using lb by (intro shape_receive [OF sh st'(1)]) (simp_all add: sc_states)
    have "sc_got ?o2 = []" by (simp add: sc_got_def)
    then have "sc_ok session (env\<lparr>se_o := ?o2, se_recv := Some (sc_recv_total ?o2 - sc_recv_len ?o2)\<rparr>)"
      using that ad e by (intro ok_receive [OF s2]) (simp_all add: sc_states sc_dlg_def)
    then show ?thesis using r that(1) e by (simp add: sc_ret_simps)
  qed
  consider "?b ! 0 \<noteq> 5 \<or> ?b ! 1 \<noteq> 0" | "?b ! 0 = 5" "?b ! 1 = 0" "?b ! 3 = 1" | "?b ! 0 = 5" "?b ! 1 = 0" "?b ! 3 = 4"
    | "?b ! 0 = 5" "?b ! 1 = 0" "?b ! 3 \<noteq> 1" "?b ! 3 \<noteq> 4" by blast
  then show ?thesis
  proof cases
    case 1
    then have "recv_reply_header o1 = Some (o1, [Sc_Handler BSOCKSCLIENT_EVENT_ERROR])"
      by (auto simp: recv_reply_header_def Let_def report_error_def socks_consts)
    moreover have "session (se_rx env @ bs) = says (se_tx env) ([], Refused)" for bs
      using d' [of bs] 1 by (auto simp: sc_reply_def)
    ultimately show ?thesis using ref by simp
  next
    case 2
    then have "recv_reply_header o1 = sc_set_state STATE_RECEIVED_REPLY_HEADER (start_receive 4 6 o1)"
      by (simp add: recv_reply_header_def Let_def socks_consts)
    then show ?thesis using rest [of 6] d' 2 by (simp add: sc_reply_def)
  next
    case 3
    then have "recv_reply_header o1 = sc_set_state STATE_RECEIVED_REPLY_HEADER (start_receive 4 18 o1)"
      by (simp add: recv_reply_header_def Let_def socks_consts)
    then show ?thesis using rest [of 18] d' 3 by (simp add: sc_reply_def)
  next
    case 4
    then have "recv_reply_header o1 = Some (o1, [Sc_Handler BSOCKSCLIENT_EVENT_ERROR])"
      by (simp add: recv_reply_header_def Let_def report_error_def socks_consts)
    then show ?thesis using ref d' 4 by (simp add: sc_reply_def)
  qed
qed

lemma done_reply_rest:
  assumes sh: "sc_shape o1" and st: "sc_st o1 = STATE_RECEIVED_REPLY_HEADER" and ad: "sc_addr_ok (sc_dest_addr o1)"
    and len: "sc_recv_len o1 = sc_recv_total o1"
    and e: "se_send env = None" "se_recv env = None" "\<not> se_dead env" "se_ups env = 0"
    and d: "\<And>bs. session (se_rx env @ bs) = says (se_tx env) (sc_dlg o1 (sc_got o1 @ bs))"
  shows "\<exists>env'. sc_ret env (recv_reply_rest o1) = Some env' \<and> sc_ok session env'"
proof -
  have b: "sc_recv_dest o1 = 4" "4 + sc_recv_total o1 \<le> length (sc_bytes o1)" "sc_connector o1" "sc_con o1" "sc_io o1 = Control_io"
    using sh st by (auto simp: sc_shape_def sc_need_def sc_states)
  have "length (sc_got o1) = sc_recv_total o1" using b st len by (simp add: sc_got_def sc_states)
  then have d': "session (se_rx env @ bs) = (se_tx env, Open bs)" for bs
    using d [of bs] st by (simp add: sc_dlg_def sc_skip_def)
  let ?o2 = "o1\<lparr>sc_buffer := None, sc_io := Up_io, sc_st := STATE_UP\<rparr>"
  have "recv_reply_rest o1 = Some (?o2, [Sc_Handler BSOCKSCLIENT_EVENT_UP])"
    using b by (simp add: recv_reply_rest_def free_control_io_def init_up_io_def)
  moreover have "sc_ok session (env\<lparr>se_o := ?o2, se_ups := se_ups env + 1\<rparr>)"
    unfolding sc_ok_def Let_def sc_shape_def using ad e b d'
    by (simp add: sc_states sc_dlg_def sc_got_def)
  ultimately show ?thesis by (simp add: sc_ret_simps)
qed

lemma sc_dlg_cong:
  "sc_st o1 = sc_st o2 \<Longrightarrow> sc_auth_info o1 = sc_auth_info o2 \<Longrightarrow> sc_dest_addr o1 = sc_dest_addr o2 \<Longrightarrow>
   sc_recv_total o1 = sc_recv_total o2 \<Longrightarrow> sc_dlg o1 = sc_dlg o2"
  unfolding sc_dlg_def by (simp only:)

lemma recv_done_eq:
  assumes "m \<le> sc_recv_total w - sc_recv_len w" "o1 = w\<lparr>sc_recv_len := sc_recv_len w + m\<rparr>"
  shows "recv_handler_done alloc m w = (if sc_recv_len o1 < sc_recv_total o1 then do_receive o1
     else (case sc_st o1 of STATE_SENT_HELLO \<Rightarrow> recv_hello alloc o1 | STATE_SENT_REQUEST \<Rightarrow> recv_reply_header o1
       | STATE_SENT_PASSWORD \<Rightarrow> recv_password_reply alloc o1 | STATE_RECEIVED_REPLY_HEADER \<Rightarrow> recv_reply_rest o1 | _ \<Rightarrow> None))"
  unfolding recv_handler_done_def Let_def assms(2) using assms(1) by (simp only: simp_thms if_False)

lemma step_received:
  assumes ok: "sc_ok session env"
  shows "\<exists>env'. sc_step (Ev_received n alloc) env = Some env' \<and> sc_ok session env'"
proof (cases "se_dead env \<or> se_recv env = None")
  case True
  then show ?thesis using ok by auto
next
  case False
  then obtain k where k: "se_recv env = Some k" "\<not> se_dead env" by auto
  let ?o = "se_o env"
  note D = sc_okD [OF ok k(2)]
  have rcv: "sc_receiving (sc_st ?o)" using D(5) k by (simp split: if_splits)
  note nt = receiving_not [OF rcv]
  have kt: "k = sc_recv_total ?o - sc_recv_len ?o" "sc_recv_len ?o < sc_recv_total ?o" using D(5) D(6) rcv k by simp_all
  have snd: "se_send env = None" "se_ups env = 0" using D(2,4) nt by simp_all
  define d where "d = take (min n k) (se_pending env)"
  show ?thesis
  proof (cases "d = []")
    case True
    then have "sc_step (Ev_received n alloc) env = Some env" using k by (simp add: Let_def flip: d_def)
    then show ?thesis using ok by simp
  next
    case dne: False
    define o1 where "o1 = (sc_write (sc_recv_dest ?o + sc_recv_len ?o) d ?o)\<lparr>sc_recv_len := sc_recv_len ?o + length d\<rparr>"
    define env1 where "env1 = env\<lparr>se_recv := None, se_pending := drop (length d) (se_pending env),
        se_rx := se_rx env @ d, se_broken := se_broken env \<or> \<not> alloc\<rparr>"
    have e1: "se_send env1 = None" "se_recv env1 = None" "\<not> se_dead env1" "se_ups env1 = 0"
        "alloc \<or> se_broken env1" "se_rx env1 = se_rx env @ d" "se_tx env1 = se_tx env"
      using snd k(2) by (auto simp: env1_def)
    have ld: "sc_recv_len ?o + length d \<le> sc_recv_total ?o" using kt by (simp add: d_def)
    have gs: "sc_got o1 = sc_got ?o @ d" "sc_shape o1"
      unfolding o1_def by (rule got_write [OF D(1) rcv ld])+
    have o1: "sc_st o1 = sc_st ?o" "sc_recv_len o1 = sc_recv_len ?o + length d" "sc_recv_total o1 = sc_recv_total ?o"
        "sc_dest_addr o1 = sc_dest_addr ?o" "sc_auth_info o1 = sc_auth_info ?o"
      by (simp_all add: o1_def)
    have dl: "sc_dlg o1 = sc_dlg ?o" by (rule sc_dlg_cong) (simp_all add: o1)
    have dg: "session (se_rx env1 @ bs) = says (se_tx env1) (sc_dlg o1 (sc_got o1 @ bs))" for bs
      using D(7) [of "d @ bs"] snd by (simp add: e1 gs dl)
    have ad: "sc_addr_ok (sc_dest_addr o1)" using D(3) by (simp add: o1)
    have step: "sc_step (Ev_received n alloc) env =
        sc_ret env1 (recv_handler_done alloc (length d) (sc_write (sc_recv_dest ?o + sc_recv_len ?o) d ?o))"
      using k dne by (simp add: Let_def env1_def flip: d_def)
    have rh: "recv_handler_done alloc (length d) (sc_write (sc_recv_dest ?o + sc_recv_len ?o) d ?o) =
        (if sc_recv_len o1 < sc_recv_total o1 then do_receive o1
         else (case sc_st o1 of STATE_SENT_HELLO \<Rightarrow> recv_hello alloc o1 | STATE_SENT_REQUEST \<Rightarrow> recv_reply_header o1
           | STATE_SENT_PASSWORD \<Rightarrow> recv_password_reply alloc o1 | STATE_RECEIVED_REPLY_HEADER \<Rightarrow> recv_reply_rest o1 | _ \<Rightarrow> None))"
      using ld by (intro recv_done_eq) (simp_all add: o1_def)
    show ?thesis
    proof (cases "sc_recv_len o1 < sc_recv_total o1")
      case True
      have "sc_ok session (env1\<lparr>se_o := o1, se_recv := Some (sc_recv_total o1 - sc_recv_len o1)\<rparr>)"
        using True rcv e1 ad dg by (intro ok_receive [OF gs(2)]) (simp_all add: o1)
      then show ?thesis unfolding step rh using True e1 by (simp add: do_receive_def sc_ret_simps)
    next
      case False
      then have len: "sc_recv_len o1 = sc_recv_total o1" using ld by (simp add: o1)
      consider "sc_st o1 = STATE_SENT_HELLO" | "sc_st o1 = STATE_SENT_REQUEST" | "sc_st o1 = STATE_SENT_PASSWORD"
        | "sc_st o1 = STATE_RECEIVED_REPLY_HEADER" using rcv by (auto simp: sc_receiving_def o1)
      then show ?thesis
      proof cases
        case 1
        then show ?thesis unfolding step rh using False done_hello [OF gs(2) 1 ad len e1(1-5) dg] by simp
      next
        case 2
        then have "22 \<le> length (sc_bytes o1)" using gs(2) by (simp add: sc_shape_def)
        from done_reply_header [OF gs(2) 2 ad len this e1(1-4) dg] show ?thesis unfolding step rh using 2 False by simp
      next
        case 3
        then show ?thesis unfolding step rh using False done_password [OF gs(2) 3 ad len e1(1-5) dg] by simp
      next
        case 4
        then show ?thesis unfolding step rh using False done_reply_rest [OF gs(2) 4 ad len e1(1-4) dg] by simp
      qed
    qed
  qed
qed

lemma sc_step_ok: "sc_ok session env \<Longrightarrow> \<exists>env'. sc_step e env = Some env' \<and> sc_ok session env'"
  by (cases e) (simp_all only: step_connected step_sent step_received step_connection)

lemma sc_run_ok: "sc_ok session env \<Longrightarrow> \<exists>env'. sc_run es env = Some env' \<and> sc_ok session env'"
proof (induction es arbitrary: env)
  case (Cons e es)
  obtain env1 where "sc_step e env = Some env1" "sc_ok session env1" using sc_step_ok [OF Cons.prems] by blast
  then show ?case using Cons.IH by simp
qed simp

lemma sc_begin_ok:
  "BSocksClient_Init True auth dest = Some o' \<Longrightarrow> sc_addr_ok dest \<Longrightarrow> sc_ok (sc_session auth dest) (sc_begin o' stream)"
  by (auto simp: BSocksClient_Init_def sc_ok_def sc_begin_def sc_shape_def sc_states sc_dlg_def sc_got_def)


lemma sc_short:
  "length bs < 2 \<Longrightarrow> sc_hello auth dest bs = ([], Waiting)" "length bs < 2 \<Longrightarrow> sc_password dest bs = ([], Waiting)"
  "length bs < 4 \<Longrightarrow> sc_reply bs = ([], Waiting)"
proof -
  have 2: "bs = [] \<or> (\<exists>x. bs = [x])" if "length bs < 2"
    using that by (auto simp: numeral_eq_Suc less_Suc_eq length_Suc_conv)
  show "length bs < 2 \<Longrightarrow> sc_hello auth dest bs = ([], Waiting)" using 2 by (auto simp: sc_hello_def)
  show "length bs < 2 \<Longrightarrow> sc_password dest bs = ([], Waiting)" using 2 by (auto simp: sc_password_def)
  assume "length bs < 4"
  then have "bs = [] \<or> (\<exists>x. bs = [x]) \<or> (\<exists>x y. bs = [x, y]) \<or> (\<exists>x y z. bs = [x, y, z])"
    by (auto simp: numeral_eq_Suc less_Suc_eq length_Suc_conv)
  then show "sc_reply bs = ([], Waiting)" by (auto simp: sc_reply_def)
qed

lemma sc_waits:
  assumes "sc_shape o'" "sc_st o' \<noteq> STATE_CONNECTING" "sc_st o' \<noteq> STATE_UP"
    and "sc_receiving (sc_st o') \<Longrightarrow> sc_recv_len o' < sc_recv_total o'"
  shows "sc_dlg o' (sc_got o') = ([], Waiting)"
proof (cases "sc_receiving (sc_st o')")
  case False
  then have "sc_got o' = []" by (simp add: sc_got_def)
  then show ?thesis using assms(2,3) False
    by (cases "sc_st o'") (simp_all add: sc_dlg_def sc_short sc_receiving_def)
next
  case True
  have sh: "(sc_recv_dest o', sc_recv_total o') = sc_need o'" using assms(1) True by (simp add: sc_shape_def)
  have l: "length (sc_got o') < sc_recv_total o'" using True assms(4) by (simp add: sc_got_def min_def)
  show ?thesis using True sh l
    by (cases "sc_st o'") (simp_all add: sc_dlg_def sc_short sc_receiving_def sc_need_def sc_skip_def)
qed

text \<open>
  C27. Whatever the server sends, in whatever pieces, and whatever fails in the environment,
  the SOCKS client fails no assertion, never has two sends or two receives outstanding, and
  follows the session of RFC 1928 and 1929: it has sent or is sending exactly the messages
  the session prescribes for the bytes received, it goes up exactly once and exactly when
  the session is open, having received not one byte past the reply, and it reports an error
  only if the environment failed, no method was configured, or the session was refused.
\<close>

theorem BSocksClient_follows_session:
  assumes "BSocksClient_Init True auth dest = Some o'" "sc_addr_ok dest"
  shows "\<exists>env. sc_run es (sc_begin o' stream) = Some env \<and>
    (if se_dead env then se_broken env \<or> length (sc_auth_info (se_o env)) \<notin> {1..255} \<or>
          snd (sc_session auth dest (se_rx env)) = Refused
     else if sc_st (se_o env) = STATE_UP
     then se_ups env = 1 \<and> sc_session auth dest (se_rx env) = (se_tx env, Open [])
     else se_ups env = 0 \<and> (sc_st (se_o env) \<noteq> STATE_CONNECTING \<longrightarrow>
       sc_session auth dest (se_rx env) = (se_tx env @ (case se_send env of Some m \<Rightarrow> m | None \<Rightarrow> []), Waiting)))"
proof -
  obtain env where run: "sc_run es (sc_begin o' stream) = Some env" and ok: "sc_ok (sc_session auth dest) env"
    using sc_run_ok [OF sc_begin_ok [OF assms]] by blast
  show ?thesis
  proof (cases "se_dead env")
    case True
    then show ?thesis using run ok by (auto simp: sc_ok_def Let_def)
  next
    case False
    note D = sc_okD [OF ok False]
    show ?thesis
    proof (cases "sc_st (se_o env) = STATE_UP")
      case True
      then have "se_send env = None" "sc_got (se_o env) = []" using D(4) by (simp_all add: sc_states sc_got_def)
      then show ?thesis using True False run D(2) D(7) [of "[]"] by (simp add: sc_dlg_def)
    next
      case up: False
      have "sc_session auth dest (se_rx env) = (se_tx env @ (case se_send env of Some m \<Rightarrow> m | None \<Rightarrow> []), Waiting)"
        if "sc_st (se_o env) \<noteq> STATE_CONNECTING"
        using D(7) [of "[]"] sc_waits [OF D(1) that up D(6)] by simp
      then show ?thesis using up False run D(2) by simp
    qed
  qed
qed

text \<open>
  C28. Freeing is safe at every moment: after any sequence of events BSocksClient_Free frees
  exactly the parts that are initialised, connector, connection, control or user I/O and
  buffer, each once, and leaves nothing behind.
\<close>

theorem BSocksClient_Free_complete:
  assumes "BSocksClient_Init True auth dest = Some o'" "sc_addr_ok dest" "sc_run es (sc_begin o' stream) = Some env"
  shows "\<exists>o2. BSocksClient_Free (se_o env) = Some o2 \<and> \<not> sc_connector o2 \<and> \<not> sc_con o2 \<and> sc_io o2 = No_io \<and>
    sc_buffer o2 = None"
proof -
  have "sc_ok (sc_session auth dest) env" using sc_run_ok [OF sc_begin_ok [OF assms(1,2)], of es stream] assms(3) by auto
  then have "sc_shape (se_o env)" by (simp add: sc_ok_def Let_def)
  then have "sc_connector (se_o env)" "sc_con (se_o env) \<longleftrightarrow> sc_st (se_o env) \<noteq> STATE_CONNECTING"
     "sc_io (se_o env) = (if sc_st (se_o env) = STATE_CONNECTING then No_io else if sc_st (se_o env) = STATE_UP then Up_io else Control_io)"
    by (simp_all add: sc_shape_def)
  then show ?thesis
    by (cases "sc_st (se_o env) = STATE_CONNECTING"; cases "sc_st (se_o env) = STATE_UP")
      (simp_all add: BSocksClient_Free_def free_up_io_def free_control_io_def con_Free_def connector_Free_def)
qed

definition sc_example :: BSocksClient where
  "sc_example = the (BSocksClient_Init True [Auth_none] (BADDR_IPV4 [10, 0, 0, 1] [0, 80]))"

lemma sc_example_Init: "BSocksClient_Init True [Auth_none] (BADDR_IPV4 [10, 0, 0, 1] [0, 80]) = Some sc_example"
  by (simp add: sc_example_def BSocksClient_Init_def)

theorem BSocksClient_follows_session_witness:
  "\<exists>env. sc_run [Ev_connected False True True, Ev_sent True, Ev_received 5 True] (sc_begin sc_example [5, 0]) = Some env"
  using BSocksClient_follows_session [OF sc_example_Init, of "[Ev_connected False True True, Ev_sent True, Ev_received 5 True]" "[5, 0]"]
  by (auto simp: sc_addr_ok_def)

theorem BSocksClient_Free_complete_witness:
  "\<exists>o2. BSocksClient_Free sc_example = Some o2 \<and> \<not> sc_connector o2"
  using BSocksClient_Free_complete [OF sc_example_Init, of "[]" "[]" "sc_begin sc_example []"]
  by (auto simp: sc_addr_ok_def sc_begin_def)

end
