(* ===== verification/Badvpn_Packets.thy ===== *)
theory Badvpn_Packets
  imports Prelude
begin

text \<open>
  misc/ipv4_proto.h, misc/ipv6_proto.h and misc/udp_proto.h of badvpn: checking and building
  IP and UDP headers. A header is a record whose multi-byte fields hold the value that is
  stored in network byte order; \<open>ipv4_bytes\<close>, \<open>ipv6_bytes\<close> and \<open>udp_bytes\<close> are their images
  in memory.
\<close>

unbundle bit_operations_syntax

section \<open>Headers\<close>

definition IPV4_PROTOCOL_UDP :: u8 where "IPV4_PROTOCOL_UDP = 17"
definition IPV6_NEXT_UDP :: u8 where "IPV6_NEXT_UDP = 17"

record ipv4_header =
  version4_ihl4 :: u8
  ip_ds :: u8
  ip_total_length :: u16
  ip_identification :: u16
  flags3_fragmentoffset13 :: u16
  ip_ttl :: u8
  ip_protocol :: u8
  ip_checksum :: u16
  ip_source :: u32
  ip_destination :: u32

definition ipv4_bytes :: "ipv4_header \<Rightarrow> bytes" where
  "ipv4_bytes h = [version4_ihl4 h, ip_ds h] @ be16 (ip_total_length h) @ be16 (ip_identification h) @
     be16 (flags3_fragmentoffset13 h) @ [ip_ttl h, ip_protocol h] @ be16 (ip_checksum h) @
     be32 (ip_source h) @ be32 (ip_destination h)"

definition badvpn_read_be16 :: "bytes \<Rightarrow> u16" where
  "badvpn_read_be16 p = rd_be16 (p ! 0) (p ! 1)"

definition badvpn_read_be32 :: "bytes \<Rightarrow> u32" where
  "badvpn_read_be32 p = rd_be32 (p ! 0) (p ! 1) (p ! 2) (p ! 3)"

definition ipv4_read :: "bytes \<Rightarrow> ipv4_header" where
  "ipv4_read p = \<lparr>version4_ihl4 = p ! 0, ip_ds = p ! 1, ip_total_length = badvpn_read_be16 (drop 2 p),
     ip_identification = badvpn_read_be16 (drop 4 p), flags3_fragmentoffset13 = badvpn_read_be16 (drop 6 p),
     ip_ttl = p ! 8, ip_protocol = p ! 9, ip_checksum = badvpn_read_be16 (drop 10 p),
     ip_source = badvpn_read_be32 (drop 12 p), ip_destination = badvpn_read_be32 (drop 16 p)\<rparr>"

definition IPV4_GET_VERSION :: "ipv4_header \<Rightarrow> u8" where
  "IPV4_GET_VERSION h = drop_bit 4 (version4_ihl4 h AND 0xF0)"

definition IPV4_GET_IHL :: "ipv4_header \<Rightarrow> u8" where
  "IPV4_GET_IHL h = version4_ihl4 h AND 0x0F"

definition IPV4_MAKE_VERSION_IHL :: "nat \<Rightarrow> u8" where
  "IPV4_MAKE_VERSION_IHL sz = of_nat (sz div 4 + 64)"

record ipv6_header =
  version4_tc4 :: u8
  tc4_fl4 :: u8
  ip6_fl :: u16
  ip6_payload_length :: u16
  ip6_next_header :: u8
  ip6_hop_limit :: u8
  ip6_source :: bytes
  ip6_destination :: bytes

definition ipv6_bytes :: "ipv6_header \<Rightarrow> bytes" where
  "ipv6_bytes h = [version4_tc4 h, tc4_fl4 h] @ be16 (ip6_fl h) @ be16 (ip6_payload_length h) @
     [ip6_next_header h, ip6_hop_limit h] @ ip6_source h @ ip6_destination h"

definition ipv6_read :: "bytes \<Rightarrow> ipv6_header" where
  "ipv6_read p = \<lparr>version4_tc4 = p ! 0, tc4_fl4 = p ! 1, ip6_fl = badvpn_read_be16 (drop 2 p),
     ip6_payload_length = badvpn_read_be16 (drop 4 p), ip6_next_header = p ! 6, ip6_hop_limit = p ! 7,
     ip6_source = take 16 (drop 8 p), ip6_destination = take 16 (drop 24 p)\<rparr>"

record udp_header =
  udp_source_port :: u16
  udp_dest_port :: u16
  udp_length :: u16
  udp_hchecksum :: u16

definition udp_bytes :: "udp_header \<Rightarrow> bytes" where
  "udp_bytes h = be16 (udp_source_port h) @ be16 (udp_dest_port h) @ be16 (udp_length h) @ be16 (udp_hchecksum h)"

definition udp_read :: "bytes \<Rightarrow> udp_header" where
  "udp_read p = \<lparr>udp_source_port = badvpn_read_be16 p, udp_dest_port = badvpn_read_be16 (drop 2 p),
     udp_length = badvpn_read_be16 (drop 4 p), udp_hchecksum = badvpn_read_be16 (drop 6 p)\<rparr>"

section \<open>Checksums\<close>

definition udp_checksum_summer :: "bytes \<Rightarrow> u32" where
  "udp_checksum_summer data =
     fold (\<lambda>i t. t + ucast (badvpn_read_be16 (drop (2 * i) data))) [0..<length data div 2] 0"

text \<open>The loop that folds the carries back in.\<close>

lemma fold_carries_less:
  assumes "drop_bit 16 (t :: u32) \<noteq> 0"
  shows "unat ((t AND 0xFFFF) + drop_bit 16 t) = unat t mod 2 ^ 16 + unat t div 2 ^ 16"
    "unat t mod 2 ^ 16 + unat t div 2 ^ 16 < unat t"
proof -
  have t: "unat t < 2 ^ 32" using unsigned_less [of t] by simp
  have m: "(0xFFFF :: u32) = mask 16" by (simp add: mask_eq_exp_minus_1)
  have lo: "unat (t AND 0xFFFF) = unat t mod 2 ^ 16"
    unfolding m take_bit_eq_mask [symmetric] unsigned_take_bit_eq by (rule take_bit_eq_mod)
  have hi: "unat (drop_bit 16 t) = unat t div 2 ^ 16" unfolding unat_drop_bit_eq by (rule drop_bit_eq_div)
  have "unat t div 2 ^ 16 < 2 ^ 16" using t by (simp add: div_less_iff_less_mult)
  moreover have "unat t mod 2 ^ 16 < 2 ^ 16" by simp
  ultimately have "unat t mod 2 ^ 16 + unat t div 2 ^ 16 < 2 ^ 16 + 2 ^ 16" by (rule add_strict_mono [rotated])
  then have "unat t mod 2 ^ 16 + unat t div 2 ^ 16 < 2 ^ 32" by simp
  then show "unat ((t AND 0xFFFF) + drop_bit 16 t) = unat t mod 2 ^ 16 + unat t div 2 ^ 16"
    by (simp add: unat_word_ariths lo hi)
  have "unat (drop_bit 16 t) \<noteq> 0" using assms by (simp add: unat_eq_0)
  then have "0 < unat t div 2 ^ 16" using hi by linarith
  moreover have "unat t = unat t div 2 ^ 16 * 2 ^ 16 + unat t mod 2 ^ 16" by (rule div_mult_mod_eq [symmetric])
  moreover have "q < q * 2 ^ 16" if "0 < q" for q :: nat using that by simp
  ultimately show "unat t mod 2 ^ 16 + unat t div 2 ^ 16 < unat t"
    by (metis add.commute add_less_cancel_right)
qed

function fold_carries :: "u32 \<Rightarrow> u32" where
  "fold_carries t = (if drop_bit 16 t \<noteq> 0 then fold_carries ((t AND 0xFFFF) + drop_bit 16 t) else t)"
  by auto
termination
proof (relation "measure unat", goal_cases)
  case (2 t)
  then have "drop_bit 16 t \<noteq> 0" .
  note fold_carries_less [OF this]
  then show ?case by (simp only: in_measure)
qed simp

definition ipv4_checksum :: "ipv4_header \<Rightarrow> bytes \<Rightarrow> u16" where
  "ipv4_checksum header extra =
     (let t = fold (\<lambda>i t. t + ucast (badvpn_read_be16 (drop (2 * i) (ipv4_bytes header)))) [0..<20 div 2] 0;
          t = fold (\<lambda>i t. t + ucast (badvpn_read_be16 (drop (2 * i) extra))) [0..<length extra div 2] t
      in ucast (NOT (fold_carries t)))"

text \<open>The end of the two UDP checksums.\<close>

definition udp_checksum_end :: "u32 \<Rightarrow> u16" where
  "udp_checksum_end t =
     (let t = fold_carries t; t = (if t = 0 then 0xFFFF else t) in ucast (NOT t))"

definition udp_payload_sum :: "bytes \<Rightarrow> u32" where
  "udp_payload_sum payload =
     (let n = unat (of_nat (length payload) :: u16) in
      if n mod 2 = 0 then udp_checksum_summer (take n payload)
      else udp_checksum_summer (take (n - 1) payload) +
           udp_checksum_summer (be16 (push_bit 8 (ucast (payload ! (n - 1))))))"

definition udp_checksum :: "udp_header \<Rightarrow> bytes \<Rightarrow> u32 \<Rightarrow> u32 \<Rightarrow> u16" where
  "udp_checksum header payload source_addr dest_addr =
     (let t = udp_checksum_summer (be32 source_addr);
          t = t + udp_checksum_summer (be32 dest_addr);
          t = t + udp_checksum_summer (be16 (ucast IPV4_PROTOCOL_UDP));
          t = t + udp_checksum_summer (be16 (of_nat (8 + length payload)));
          t = t + udp_checksum_summer (udp_bytes header);
          t = t + udp_payload_sum payload
      in udp_checksum_end t)"

definition udp_ip6_checksum :: "udp_header \<Rightarrow> bytes \<Rightarrow> bytes \<Rightarrow> bytes \<Rightarrow> u16" where
  "udp_ip6_checksum header payload source_addr dest_addr =
     (let t = udp_checksum_summer (take 16 source_addr);
          t = t + udp_checksum_summer (take 16 dest_addr);
          t = t + udp_checksum_summer (be32 (of_nat (8 + length payload)));
          t = t + udp_checksum_summer (be32 (ucast IPV6_NEXT_UDP));
          t = t + udp_checksum_summer (udp_bytes header);
          t = t + udp_payload_sum payload
      in udp_checksum_end t)"

section \<open>Checking\<close>

definition ipv4_check :: "bytes \<Rightarrow> (ipv4_header \<times> bytes) option" where
  "ipv4_check data =
     (if length data < 20 then None
      else (let h = ipv4_read data in
            if IPV4_GET_VERSION h \<noteq> 4 then None
            else (let header_len = unat (IPV4_GET_IHL h) * 4 in
                  if header_len < 20 then None
                  else if header_len > length data then None
                  else (let total_length = unat (ip_total_length h) in
                        if total_length < header_len then None
                        else if total_length > length data then None
                        else (let checksum_in_packet = ip_checksum h;
                                  h = h\<lparr>ip_checksum := 0\<rparr>;
                                  checksum_computed = ipv4_checksum h (take (header_len - 20) (drop 20 data));
                                  h = h\<lparr>ip_checksum := checksum_in_packet\<rparr> in
                              if checksum_in_packet \<noteq> checksum_computed then None
                              else Some (h, take (total_length - header_len) (drop header_len data)))))))"

definition ipv6_check :: "bytes \<Rightarrow> (ipv6_header \<times> bytes) option" where
  "ipv6_check data =
     (if length data < 40 then None
      else (let h = ipv6_read data in
            if drop_bit 4 (version4_tc4 h) \<noteq> 6 then None
            else (let payload_length = unat (ip6_payload_length h) in
                  if payload_length > length data - 40 then None
                  else Some (h, take payload_length (drop 40 data)))))"

definition udp_check :: "bytes \<Rightarrow> (udp_header \<times> bytes) option" where
  "udp_check data =
     (if length data < 8 then None
      else (let h = udp_read data; data = drop 8 data; len = unat (udp_length h) in
            if len < 8 then None
            else if len > 8 + length data then None
            else Some (h, take (len - 8) data)))"

section \<open>Checksums as sums modulo 65535\<close>

fun words_sum :: "bytes \<Rightarrow> nat" where
  "words_sum [] = 0"
| "words_sum [a] = 256 * unat a"
| "words_sum (a # b # bs) = 256 * unat a + unat b + words_sum bs"

lemma words_sum_append: "even (length xs) \<Longrightarrow> words_sum (xs @ ys) = words_sum xs + words_sum ys"
  by (induction xs rule: words_sum.induct) simp_all

lemma unat_u8: "unat (a :: u8) < 256"
  using unsigned_less [of a] by simp

lemma unat_u32: "unat (t :: u32) < 2 ^ 32"
  using unsigned_less [of t] by simp

lemma words_sum_le: "words_sum bs \<le> 65535 * ((length bs + 1) div 2)"
proof (induction bs rule: words_sum.induct)
  case (2 a)
  show ?case using unat_u8 [of a] by simp
next
  case (3 a b bs)
  have "(length (a # b # bs) + 1) div 2 = Suc ((length bs + 1) div 2)" by simp
  then show ?case using 3 unat_u8 [of a] unat_u8 [of b] by simp
qed simp

lemma unat_rd_be16: "unat (rd_be16 a b) = 256 * unat a + unat b"
proof -
  have "push_bit 8 (ucast a :: u16) OR ucast b = push_bit 8 (ucast a) + ucast b"
    by (rule disjunctive_add_eq_or [symmetric], rule bit_word_eqI) (auto simp: bit_simps dest: bit_imp_le_length)
  then have "rd_be16 a b = push_bit 8 (ucast a) + ucast b" by (simp add: rd_be16_def)
  moreover have "unat (push_bit 8 (ucast a) :: u16) = 256 * unat a"
    using unat_u8 [of a] by (simp add: push_bit_eq_mult unat_word_ariths unsigned_ucast_eq take_bit_eq_mod)
  moreover have "unat (ucast b :: u16) = unat b"
    using unat_u8 [of b] by (simp add: unsigned_ucast_eq take_bit_eq_mod)
  ultimately show ?thesis using unat_u8 [of a] unat_u8 [of b] by (simp add: unat_word_ariths)
qed

lemma sum_fold:
  "unat (fold (\<lambda>i t. t + ucast (badvpn_read_be16 (drop (2 * i) data))) [0..<length data div 2] t :: u32) =
     (unat t + words_sum (take (2 * (length data div 2)) data)) mod 2 ^ 32"
proof (induction data arbitrary: t rule: words_sum.induct)
  case 1
  then show ?case using unat_u32 [of t] by simp
next
  case (2 a)
  then show ?case using unat_u32 [of t] by simp
next
  case (3 a b bs)
  have l: "length (a # b # bs) div 2 = Suc (length bs div 2)" by simp
  have u: "[0..<Suc n] = 0 # map Suc [0..<n]" for n by (simp only: upt_conv_Cons zero_less_Suc map_Suc_upt)
  have "fold (\<lambda>i t. t + ucast (badvpn_read_be16 (drop (2 * i) (a # b # bs)))) [0..<length (a # b # bs) div 2] t =
      fold (\<lambda>i t. t + ucast (badvpn_read_be16 (drop (2 * i) bs))) [0..<length bs div 2] (t + ucast (rd_be16 a b))"
    unfolding l u by (simp add: fold_map comp_def badvpn_read_be16_def)
  moreover have "unat (t + ucast (rd_be16 a b) :: u32) = (unat t + (256 * unat a + unat b)) mod 2 ^ 32"
  proof -
    have "unat (ucast (rd_be16 a b) :: u32) = 256 * unat a + unat b"
      using unat_u8 [of a] unat_u8 [of b] by (simp add: unsigned_ucast_eq take_bit_eq_mod unat_rd_be16)
    then show ?thesis by (simp add: unat_word_ariths)
  qed
  moreover have "take (2 * (length (a # b # bs) div 2)) (a # b # bs) = a # b # take (2 * (length bs div 2)) bs"
    by (simp add: l)
  ultimately show ?case using 3 [of "t + ucast (rd_be16 a b)"]
    by (simp add: mod_simps add.assoc)
qed

lemma summer_sum: "even (length data) \<Longrightarrow> unat (udp_checksum_summer data) = words_sum data mod 2 ^ 32"
  unfolding udp_checksum_summer_def sum_fold by simp

text \<open>Folding the carries is reduction modulo 65535 to the range from 1 to 65535.\<close>

definition ones_sum :: "nat \<Rightarrow> nat" where
  "ones_sum s = (if s = 0 then 0 else (s - 1) mod 65535 + 1)"

lemma ones_sum_le: "ones_sum s \<le> 65535"
  by (simp add: ones_sum_def Suc_le_eq)

lemma ones_sum_step: "0 < s \<Longrightarrow> 65536 \<le> s \<Longrightarrow> ones_sum (s mod 2 ^ 16 + s div 2 ^ 16) = ones_sum s"
proof -
  assume s: "65536 \<le> s"
  define q where "q = s div 65536"
  define r where "r = s mod 65536"
  have sq: "s = q * 65536 + r" by (simp add: q_def r_def)
  have "0 < q" using s by (simp add: q_def div_greater_zero_iff)
  then have "s - 1 = (r + q - 1) + q * 65535" using sq by simp
  then have "(s - 1) mod 65535 = (r + q - 1) mod 65535" by (simp only: mod_mult_self1)
  then show ?thesis using s \<open>0 < q\<close> unfolding ones_sum_def by (simp flip: q_def r_def)
qed

declare fold_carries.simps [simp del]

lemma fold_carries_sum: "unat (fold_carries t) = ones_sum (unat t)"
proof (induction t rule: fold_carries.induct)
  case (1 t)
  have hi: "unat (drop_bit 16 t) = unat t div 2 ^ 16" unfolding unat_drop_bit_eq by (rule drop_bit_eq_div)
  show ?case
  proof (cases "drop_bit 16 t \<noteq> 0")
    case True
    have "unat t div 2 ^ 16 \<noteq> 0" using True hi by (metis unat_eq_0)
    then have big: "65536 \<le> unat t" by (simp add: div_eq_0_iff)
    have "unat (fold_carries t) = ones_sum (unat ((t AND 0xFFFF) + drop_bit 16 t))"
      using 1 [OF True] True by (subst fold_carries.simps) simp
    also have "\<dots> = ones_sum (unat t mod 2 ^ 16 + unat t div 2 ^ 16)" by (simp only: fold_carries_less(1) [OF True])
    also have "\<dots> = ones_sum (unat t)" using big by (intro ones_sum_step) simp_all
    finally show ?thesis .
  next
    case False
    then have "unat t div 2 ^ 16 = 0" using hi by simp
    then have "unat t < 65536" by (simp add: div_eq_0_iff)
    then show ?thesis using False by (subst fold_carries.simps) (auto simp: ones_sum_def)
  qed
qed

lemma unat_not16: "unat (t :: u32) \<le> 65535 \<Longrightarrow> unat (ucast (NOT t) :: u16) = 65535 - unat t"
proof -
  assume t: "unat t \<le> 65535"
  define w where "w = (ucast t :: u16)"
  have "unat w = unat t" using t by (simp add: w_def unsigned_ucast_eq take_bit_eq_mod)
  moreover have "ucast (NOT t) = NOT w" unfolding w_def by (rule bit_word_eqI) (simp add: bit_simps)
  moreover have "unat (NOT w) = 65535 - unat w"
  proof -
    have "NOT w = -1 - w" by (simp add: not_eq_complement)
    moreover have "unat (-1 - w) = unat (-1 :: u16) - unat w" by (rule unat_sub) (rule word_order.extremum)
    moreover have "unat (-1 :: u16) = 65535" by (simp add: unsigned_minus_1_eq_mask mask_eq_exp_minus_1)
    ultimately show ?thesis by simp
  qed
  ultimately show ?thesis by simp
qed

lemma words_sum_be16 [simp]: "words_sum (be16 w) = unat w"
  using unat_rd_be16 [of "ucast (drop_bit 8 w)" "ucast w"] by (simp add: be16_def rd_be16_be16)

lemma words_sum_be16_append [simp]: "words_sum (be16 w @ bs) = unat w + words_sum bs"
  by (simp add: words_sum_append)

lemma length_ipv4_bytes [simp]: "length (ipv4_bytes h) = 20"
  by (simp add: ipv4_bytes_def)

lemma length_udp_bytes [simp]: "length (udp_bytes h) = 8"
  by (simp add: udp_bytes_def)

lemma unat_ipv4_checksum:
  assumes "even (length extra)" "length extra \<le> 40"
  shows "unat (ipv4_checksum h extra) = 65535 - ones_sum (words_sum (ipv4_bytes h @ extra))"
proof -
  let ?s = "words_sum (ipv4_bytes h @ extra)"
  define t0 where "t0 = (fold (\<lambda>i t. t + ucast (badvpn_read_be16 (drop (2 * i) (ipv4_bytes h)))) [0..<20 div 2] 0 :: u32)"
  define t where "t = fold (\<lambda>i t. t + ucast (badvpn_read_be16 (drop (2 * i) extra))) [0..<length extra div 2] t0"
  have "unat t0 = words_sum (ipv4_bytes h) mod 2 ^ 32"
    using sum_fold [of "ipv4_bytes h" 0] by (simp add: t0_def)
  then have "unat t = (words_sum (ipv4_bytes h) + words_sum extra) mod 2 ^ 32"
    unfolding t_def sum_fold using assms(1) by (simp add: mod_simps)
  then have m: "unat t = ?s mod 2 ^ 32" by (simp add: words_sum_append)
  have "?s < 2 ^ 32"
  proof -
    have "?s \<le> 65535 * ((length (ipv4_bytes h @ extra) + 1) div 2)" by (rule words_sum_le)
    also have "\<dots> \<le> 65535 * 31" using assms(2) by (intro mult_le_mono2) simp
    finally show ?thesis by simp
  qed
  then have t: "unat t = ?s" using m by simp
  have "ipv4_checksum h extra = ucast (NOT (fold_carries t))"
    by (simp add: ipv4_checksum_def Let_def t_def t0_def)
  then show ?thesis using ones_sum_le [of ?s] by (simp add: unat_not16 fold_carries_sum t)
qed

lemma ones_sum_complement: "(s + (65535 - ones_sum s)) mod 65535 = 0"
proof (cases "s = 0")
  case True
  then show ?thesis by (simp add: ones_sum_def)
next
  case False
  define q where "q = (s - 1) div 65535"
  have "s - 1 = q * 65535 + (s - 1) mod 65535" by (simp add: q_def)
  then have s: "s = q * 65535 + ones_sum s" using False by (simp add: ones_sum_def)
  have "s + (65535 - ones_sum s) = (q + 1) * 65535" using s ones_sum_le [of s] by simp
  then show ?thesis by (simp only: mod_mult_self2_is_0)
qed

text \<open>
  C34. The IPv4 header checksum is the one of RFC 1071: with it in its field, the
  one's-complement sum of the sixteen-bit words of the header and its options is zero, so
  every receiver that verifies the sum accepts the header; and the loop that folds the
  carries ends for every sum.
\<close>

theorem ipv4_checksum_rfc1071:
  assumes "even (length extra)" "length extra \<le> 40"
  shows "words_sum (ipv4_bytes (h\<lparr>ip_checksum := ipv4_checksum (h\<lparr>ip_checksum := 0\<rparr>) extra\<rparr>) @ extra) mod 65535 = 0"
proof -
  let ?c = "ipv4_checksum (h\<lparr>ip_checksum := 0\<rparr>) extra" and ?s = "words_sum (ipv4_bytes (h\<lparr>ip_checksum := 0\<rparr>) @ extra)"
  have "words_sum (ipv4_bytes (h\<lparr>ip_checksum := c\<rparr>) @ extra) =
      words_sum (ipv4_bytes (h\<lparr>ip_checksum := 0\<rparr>) @ extra) + unat c" for c
    by (simp add: ipv4_bytes_def words_sum_append)
  then have "words_sum (ipv4_bytes (h\<lparr>ip_checksum := ?c\<rparr>) @ extra) = ?s + unat ?c" .
  then show ?thesis using ones_sum_complement [of ?s] by (simp add: unat_ipv4_checksum [OF assms])
qed

definition example_header :: ipv4_header where
  "example_header = \<lparr>version4_ihl4 = 0x45, ip_ds = 0, ip_total_length = 30, ip_identification = 0,
     flags3_fragmentoffset13 = 0, ip_ttl = 64, ip_protocol = 17, ip_checksum = 0, ip_source = 0x0A000001,
     ip_destination = 0x0A000002\<rparr>"

theorem ipv4_checksum_rfc1071_witness:
  "words_sum (ipv4_bytes (example_header\<lparr>ip_checksum := ipv4_checksum (example_header\<lparr>ip_checksum := 0\<rparr>) []\<rparr>) @ []) mod 65535 = 0"
  by (rule ipv4_checksum_rfc1071) simp_all

text \<open>The words that the UDP checksum covers: pseudo header, header and padded payload.\<close>

definition udp_pseudo_sum :: "udp_header \<Rightarrow> bytes \<Rightarrow> u32 \<Rightarrow> u32 \<Rightarrow> nat" where
  "udp_pseudo_sum h payload src dst =
     words_sum (be32 src @ be32 dst @ be16 17 @ be16 (of_nat (8 + length payload)) @ udp_bytes h @ payload)"

lemma words_sum_odd:
  "odd (length p) \<Longrightarrow> words_sum p = words_sum (take (length p - 1) p) + 256 * unat (p ! (length p - 1))"
proof (induction p rule: words_sum.induct)
  case (3 a b bs)
  then have "bs \<noteq> []" by auto
  then obtain n where n: "length bs = Suc n" by (cases bs) auto
  show ?case using 3 n by simp
qed simp_all

lemma unat_of_nat_u16: "n < 65536 \<Longrightarrow> unat (of_nat n :: u16) = n"
  by (simp add: unsigned_of_nat take_bit_eq_mod)

lemma udp_payload_sum_eq:
  assumes "length payload < 65536"
  shows "unat (udp_payload_sum payload) = words_sum payload"
proof -
  have lt: "words_sum p < 2 ^ 32" if "length p < 65536" for p
  proof -
    have "words_sum p \<le> 65535 * ((length p + 1) div 2)" by (rule words_sum_le)
    also have "\<dots> \<le> 65535 * 32768" using that by (intro mult_le_mono2) simp
    finally show ?thesis by simp
  qed
  show ?thesis
  proof (cases "even (length payload)")
    case True
    then show ?thesis using lt [OF assms] assms by (simp add: udp_payload_sum_def Let_def summer_sum unat_of_nat_u16)
  next
    case False
    let ?q = "take (length payload - 1) payload" and ?l = "payload ! (length payload - 1)"
    have ev: "even (length ?q)" using False by simp
    have l: "unat (push_bit 8 (ucast ?l) :: u16) = 256 * unat ?l"
      using unat_u8 [of ?l] by (simp add: push_bit_eq_mult unat_word_ariths unsigned_ucast_eq take_bit_eq_mod)
    have "unat (udp_payload_sum payload) = (words_sum ?q mod 2 ^ 32 + 256 * unat ?l mod 2 ^ 32) mod 2 ^ 32"
      using False assms summer_sum [OF ev] summer_sum [of "be16 (push_bit 8 (ucast ?l))"] l
      by (simp add: udp_payload_sum_def Let_def unat_word_ariths odd_iff_mod_2_eq_one unat_of_nat_u16)
    also have "\<dots> = words_sum payload mod 2 ^ 32" using words_sum_odd [OF False] by (simp add: mod_simps)
    finally show ?thesis using lt [OF assms] by simp
  qed
qed

lemma words_sum_be32_append: "words_sum (be32 w @ bs) = words_sum (be32 w) + words_sum bs"
  by (rule words_sum_append) simp

lemma unat_summer: "even (length data) \<Longrightarrow> length data \<le> 16 \<Longrightarrow> unat (udp_checksum_summer data) = words_sum data"
proof -
  assume e: "even (length data)" and l: "length data \<le> 16"
  have "words_sum data \<le> 65535 * ((length data + 1) div 2)" by (rule words_sum_le)
  also have "\<dots> \<le> 65535 * 8" using l by (intro mult_le_mono2) simp
  finally show ?thesis using e by (simp add: summer_sum)
qed

lemma unat_udp_checksum_end:
  "unat (udp_checksum_end t) = (if t = 0 then 0 else 65535 - ones_sum (unat t))"
proof (cases "t = 0")
  case True
  then show ?thesis by (simp add: udp_checksum_end_def fold_carries.simps [of 0] unat_not16)
next
  case False
  then have "0 < ones_sum (unat t)" by (simp add: ones_sum_def unat_eq_0)
  then have "fold_carries t \<noteq> 0" using fold_carries_sum [of t] by auto
  then show ?thesis using False ones_sum_le [of "unat t"]
    by (simp add: udp_checksum_end_def unat_not16 fold_carries_sum)
qed

lemma unat_plus_u32: "unat (a :: u32) = x \<Longrightarrow> unat b = y \<Longrightarrow> x + y < 4294967296 \<Longrightarrow> unat (a + b) = x + y"
  by (simp add: unat_word_ariths)

lemma words_sum_bound: "length bs \<le> 2 * n \<Longrightarrow> words_sum bs \<le> 65535 * n"
proof -
  assume "length bs \<le> 2 * n"
  then have "65535 * ((length bs + 1) div 2) \<le> 65535 * n" by (intro mult_le_mono2) simp
  then show ?thesis using words_sum_le [of bs] by linarith
qed

lemma unat_sum6:
  assumes "unat (t1 :: u32) = x1" "unat t2 = x2" "unat t3 = x3" "unat t4 = x4" "unat t5 = x5" "unat t6 = x6"
    "x1 + x2 + x3 + x4 + x5 + x6 < 4294967296"
  shows "unat (t1 + t2 + t3 + t4 + t5 + t6) = x1 + x2 + x3 + x4 + x5 + x6"
  using assms(7) by (intro unat_plus_u32 assms(1-6)) simp_all

lemma unat_udp_checksum:
  assumes "length payload < 65536"
  shows "unat (udp_checksum h payload src dst) = 65535 - ones_sum (udp_pseudo_sum h payload src dst)"
proof -
  let ?l = "be16 (of_nat (8 + length payload))"
  define t where "t = udp_checksum_summer (be32 src) + udp_checksum_summer (be32 dst) + udp_checksum_summer (be16 17) +
      udp_checksum_summer ?l + udp_checksum_summer (udp_bytes h) + udp_payload_sum payload"
  have b: "words_sum (be32 src) \<le> 65535 * 2" "words_sum (be32 dst) \<le> 65535 * 2" "words_sum (be16 17) \<le> 65535 * 1"
    "words_sum ?l \<le> 65535 * 1" "words_sum (udp_bytes h) \<le> 65535 * 4" "words_sum payload \<le> 65535 * 32768"
    using assms by (intro words_sum_bound; simp)+
  have t: "unat t = words_sum (be32 src) + words_sum (be32 dst) + words_sum (be16 17) + words_sum ?l +
      words_sum (udp_bytes h) + words_sum payload"
    unfolding t_def
    by (intro unat_sum6 unat_summer udp_payload_sum_eq assms) (use b in simp_all)
  also have "\<dots> = udp_pseudo_sum h payload src dst"
    unfolding udp_pseudo_sum_def by (simp only: words_sum_append length_codecs length_udp_bytes even_numeral add.assoc)
  finally have s: "unat t = udp_pseudo_sum h payload src dst" .
  have "t \<noteq> 0" using t by auto
  moreover have "udp_checksum h payload src dst = udp_checksum_end t"
    by (simp add: udp_checksum_def Let_def t_def IPV4_PROTOCOL_UDP_def)
  ultimately show ?thesis by (simp add: unat_udp_checksum_end s)
qed

lemma udp_pseudo_sum_pos: "0 < udp_pseudo_sum h payload src dst"
  by (simp add: udp_pseudo_sum_def words_sum_append)

lemma udp_checksum_eq_0:
  assumes "length payload < 65536"
  shows "udp_checksum h payload src dst = 0 \<longleftrightarrow> udp_pseudo_sum h payload src dst mod 65535 = 0"
proof -
  let ?s = "udp_pseudo_sum h payload src dst"
  have "udp_checksum h payload src dst = 0 \<longleftrightarrow> ones_sum ?s = 65535"
    using ones_sum_le [of ?s] unat_udp_checksum [OF assms, of h src dst] by (simp add: unat_eq_0 [symmetric])
  also have "\<dots> \<longleftrightarrow> ?s mod 65535 = 0"
  proof -
    define n where "n = ?s - 1"
    then have s: "?s = Suc n" using udp_pseudo_sum_pos [of h payload src dst] by simp
    show ?thesis unfolding s ones_sum_def by (simp add: mod_Suc)
  qed
  finally show ?thesis .
qed

text \<open>
  C35. The UDP checksum over IPv4. Whatever the datagram, the loop that folds the carries ends
  and the result complements the one's-complement sum of the pseudo header, the header and the
  padded payload, so a datagram that carries it in its field sums to zero for the receiver. But
  the result is zero exactly when that sum is zero modulo 65535, and it is never 0xFFFF: RFC 768
  transmits a computed zero as 0xFFFF, since a zero field says that no checksum was computed,
  and the code compares the sum with zero before the complement instead of after it.
\<close>

theorem udp_checksum_complements_but_sends_zero:
  assumes "length payload < 65536" "udp_hchecksum h = 0"
  shows "udp_pseudo_sum (h\<lparr>udp_hchecksum := udp_checksum h payload src dst\<rparr>) payload src dst mod 65535 = 0 \<and>
    (udp_checksum h payload src dst = 0 \<longleftrightarrow> udp_pseudo_sum h payload src dst mod 65535 = 0) \<and>
    udp_checksum h payload src dst \<noteq> 0xFFFF"
proof -
  let ?s = "udp_pseudo_sum h payload src dst" and ?c = "udp_checksum h payload src dst"
  have "udp_pseudo_sum (h\<lparr>udp_hchecksum := c\<rparr>) payload src dst = ?s + unat c" for c
    using assms(2) by (simp add: udp_pseudo_sum_def udp_bytes_def words_sum_append)
  then have "udp_pseudo_sum (h\<lparr>udp_hchecksum := ?c\<rparr>) payload src dst = ?s + unat ?c" .
  then have 1: "udp_pseudo_sum (h\<lparr>udp_hchecksum := ?c\<rparr>) payload src dst mod 65535 = 0"
    using ones_sum_complement [of ?s] by (simp add: unat_udp_checksum [OF assms(1)])
  have "0 < ones_sum ?s" using udp_pseudo_sum_pos [of h payload src dst] by (simp add: ones_sum_def)
  then have "unat ?c < 65535" using unat_udp_checksum [OF assms(1), of h src dst] by linarith
  moreover have "unat (0xFFFF :: u16) = 65535" by simp
  ultimately have "?c \<noteq> 0xFFFF" by (metis less_irrefl)
  then show ?thesis using 1 udp_checksum_eq_0 [OF assms(1), of h src dst] by blast
qed

definition example_udp_header :: udp_header where
  "example_udp_header = \<lparr>udp_source_port = 0, udp_dest_port = 0, udp_length = 10, udp_hchecksum = 0\<rparr>"

theorem udp_checksum_complements_but_sends_zero_witness:
  "udp_pseudo_sum example_udp_header [0xFF, 0xDA] 0 0 mod 65535 = 0 \<and>
   udp_checksum example_udp_header [0xFF, 0xDA] 0 0 = 0"
proof -
  have "udp_pseudo_sum example_udp_header [0xFF, 0xDA] 0 0 mod 65535 = 0"
    by (simp add: udp_pseudo_sum_def example_udp_header_def udp_bytes_def be16_def be32_def drop_bit_eq_div)
  then show ?thesis
    using udp_checksum_complements_but_sends_zero [of "[0xFF, 0xDA]" example_udp_header 0 0]
    by (simp add: example_udp_header_def)
qed

end
