(* ===== verification/Badvpn_BAddr.thy ===== *)
theory Badvpn_BAddr
  imports Badvpn_BAVL_List
begin

text \<open>
  system/BAddr.h of badvpn: socket addresses and their comparison. An address holds the
  numbers that are stored in network byte order. Link-layer addresses, which tun2socks never
  makes, are left out.
\<close>

section \<open>Addresses\<close>

datatype BAddr = BADDR_TYPE_NONE | BADDR_TYPE_IPV4 (ipv4_ip: u32) (ipv4_port: u16) | BADDR_TYPE_IPV6 (ipv6_ip: bytes) (ipv6_port: u16)

definition BAddr_InitIPv4 :: "u32 \<Rightarrow> u16 \<Rightarrow> BAddr" where
  "BAddr_InitIPv4 ip port = BADDR_TYPE_IPV4 ip port"

definition BAddr_InitIPv6 :: "bytes \<Rightarrow> u16 \<Rightarrow> BAddr" where
  "BAddr_InitIPv6 ip port = BADDR_TYPE_IPV6 (take 16 ip) port"

text \<open>The type field: the constants of the source.\<close>

fun BAddr_type :: "BAddr \<Rightarrow> int" where
  "BAddr_type BADDR_TYPE_NONE = 0"
| "BAddr_type (BADDR_TYPE_IPV4 ip port) = 1"
| "BAddr_type (BADDR_TYPE_IPV6 ip port) = 2"

definition BAddr_ok :: "BAddr \<Rightarrow> bool" where
  "BAddr_ok a \<longleftrightarrow> (case a of BADDR_TYPE_NONE \<Rightarrow> False | BADDR_TYPE_IPV4 ip port \<Rightarrow> True
     | BADDR_TYPE_IPV6 ip port \<Rightarrow> length ip = 16)"

fun memcmp :: "bytes \<Rightarrow> bytes \<Rightarrow> int" where
  "memcmp (a # as) (b # bs) = (if a = b then memcmp as bs else B_COMPARE a b)"
| "memcmp as bs = 0"

fun BAddr_Compare :: "BAddr \<Rightarrow> BAddr \<Rightarrow> bool" where
  "BAddr_Compare (BADDR_TYPE_IPV4 ip1 port1) (BADDR_TYPE_IPV4 ip2 port2) = (ip1 = ip2 \<and> port1 = port2)"
| "BAddr_Compare (BADDR_TYPE_IPV6 ip1 port1) (BADDR_TYPE_IPV6 ip2 port2) =
     (memcmp (take 16 ip1) (take 16 ip2) = 0 \<and> port1 = port2)"
| "BAddr_Compare a b = False"

definition BAddr_CompareOrder :: "BAddr \<Rightarrow> BAddr \<Rightarrow> int" where
  "BAddr_CompareOrder addr1 addr2 =
     (let cmp = B_COMPARE (BAddr_type addr1) (BAddr_type addr2) in
      if cmp \<noteq> 0 then cmp
      else (case (addr1, addr2) of
              (BADDR_TYPE_IPV4 ip1 port1, BADDR_TYPE_IPV4 ip2 port2) \<Rightarrow>
                (let cmp = B_COMPARE ip1 ip2 in if cmp \<noteq> 0 then cmp else B_COMPARE port1 port2)
            | (BADDR_TYPE_IPV6 ip1 port1, BADDR_TYPE_IPV6 ip2 port2) \<Rightarrow>
                (let cmp = memcmp (take 16 ip1) (take 16 ip2) in
                 if cmp \<noteq> 0 then B_COMPARE cmp 0 else B_COMPARE port1 port2)
            | _ \<Rightarrow> 0))"

text \<open>The two comparators that order connections by both their addresses.\<close>

record conaddr =
  local_addr :: BAddr
  remote_addr :: BAddr

definition conaddr_comparator :: "conaddr \<Rightarrow> conaddr \<Rightarrow> int" where
  "conaddr_comparator v1 v2 =
     (let r = BAddr_CompareOrder (remote_addr v1) (remote_addr v2) in
      if r \<noteq> 0 then r else BAddr_CompareOrder (local_addr v1) (local_addr v2))"

definition conaddr_ok :: "conaddr \<Rightarrow> bool" where
  "conaddr_ok c \<longleftrightarrow> BAddr_ok (local_addr c) \<and> BAddr_ok (remote_addr c)"

section \<open>The comparisons are total orders\<close>

lemma memcmp_range: "memcmp as bs = - 1 \<or> memcmp as bs = 0 \<or> memcmp as bs = 1"
  by (induction as bs rule: memcmp.induct) (auto simp: B_COMPARE_def)

lemma memcmp_eq_iff: "length as = length bs \<Longrightarrow> memcmp as bs = 0 \<longleftrightarrow> as = bs"
  by (induction as bs rule: memcmp.induct) simp_all

lemma memcmp_swap: "length as = length bs \<Longrightarrow> memcmp bs as = - memcmp as bs"
  by (induction as bs rule: memcmp.induct) (auto simp: B_COMPARE_def)

lemma memcmp_less_trans:
  "length as = length bs \<Longrightarrow> length bs = length cs \<Longrightarrow> memcmp as bs = - 1 \<Longrightarrow> memcmp bs cs = - 1 \<Longrightarrow> memcmp as cs = - 1"
proof (induction as bs arbitrary: cs rule: memcmp.induct)
  case (1 a as b bs)
  then obtain c cs' where cs: "cs = c # cs'" by (cases cs) auto
  show ?case
  proof (cases "a = b")
    case True
    then show ?thesis using 1 cs by (simp split: if_splits)
  next
    case False
    then show ?thesis using 1 cs by (auto split: if_splits)
  qed
qed simp_all

interpretation memcmp16: comparator_contract "\<lambda>as bs. memcmp (take 16 as) (take 16 bs)" "\<lambda>as. length as = 16"
proof
  fix a b c :: bytes
  show "memcmp (take 16 a) (take 16 b) = - 1 \<or> memcmp (take 16 a) (take 16 b) = 0 \<or> memcmp (take 16 a) (take 16 b) = 1"
    by (rule memcmp_range)
  assume a: "length a = 16" and b: "length b = 16"
  then show "memcmp (take 16 a) (take 16 b) = 0 \<longleftrightarrow> a = b" by (simp add: memcmp_eq_iff)
  show "memcmp (take 16 b) (take 16 a) = - memcmp (take 16 a) (take 16 b)" using a b by (intro memcmp_swap) simp
  assume "length c = 16" "memcmp (take 16 a) (take 16 b) = - 1" "memcmp (take 16 b) (take 16 c) = - 1"
  then show "memcmp (take 16 a) (take 16 c) = - 1" using a b memcmp_less_trans [of a b c] by simp
qed


text \<open>The order on addresses and on pairs of addresses.\<close>

lemma ipv4_contract: "comparator_contract (\<lambda>a b. cmp_then (B_COMPARE (ipv4_ip a) (ipv4_ip b)) (B_COMPARE (ipv4_port a) (ipv4_port b)))
    (\<lambda>a. BAddr_type a = 1)"
  by (rule comparator_lex [OF B_COMPARE_contract B_COMPARE_contract]) (auto elim!: BAddr_type.elims)

lemma ipv6_contract: "comparator_contract
    (\<lambda>a b. cmp_then (memcmp (take 16 (ipv6_ip a)) (take 16 (ipv6_ip b))) (B_COMPARE (ipv6_port a) (ipv6_port b)))
    (\<lambda>a. BAddr_type a = 2 \<and> length (ipv6_ip a) = 16)"
  by (rule comparator_lex [OF memcmp16.comparator_contract_axioms B_COMPARE_contract]) (auto elim!: BAddr_type.elims)

lemma BAddr_CompareOrder_eq:
  "BAddr_CompareOrder a b =
     (if BAddr_type a = 1 \<and> BAddr_type b = 1
      then cmp_then (B_COMPARE (ipv4_ip a) (ipv4_ip b)) (B_COMPARE (ipv4_port a) (ipv4_port b))
      else if BAddr_type a = 2 \<and> BAddr_type b = 2
      then cmp_then (memcmp (take 16 (ipv6_ip a)) (take 16 (ipv6_ip b))) (B_COMPARE (ipv6_port a) (ipv6_port b))
      else B_COMPARE (BAddr_type a) (BAddr_type b))"
  using memcmp_range [of "take 16 (ipv6_ip a)" "take 16 (ipv6_ip b)"]
  by (cases a; cases b) (auto simp: BAddr_CompareOrder_def Let_def cmp_then_def B_COMPARE_def)

lemma BAddr_ok_type: "BAddr_ok a \<longleftrightarrow> BAddr_type a = 1 \<or> BAddr_type a = 2 \<and> length (ipv6_ip a) = 16"
  by (cases a) (simp_all add: BAddr_ok_def)

interpretation compare_addr: comparator_contract BAddr_CompareOrder BAddr_ok
proof
  note v4 = comparator_contract.range [OF ipv4_contract] comparator_contract.eq_iff [OF ipv4_contract]
    comparator_contract.swap [OF ipv4_contract] comparator_contract.less_trans [OF ipv4_contract]
  note v6 = comparator_contract.range [OF ipv6_contract] comparator_contract.eq_iff [OF ipv6_contract]
    comparator_contract.swap [OF ipv6_contract] comparator_contract.less_trans [OF ipv6_contract]
  fix a b c
  show "BAddr_CompareOrder a b = - 1 \<or> BAddr_CompareOrder a b = 0 \<or> BAddr_CompareOrder a b = 1"
    unfolding BAddr_CompareOrder_eq
    using v4(1) [of a b] v6(1) [of a b] B_COMPARE_range [of "BAddr_type a" "BAddr_type b"] by presburger
  assume a: "BAddr_ok a" and b: "BAddr_ok b"
  show "BAddr_CompareOrder a b = 0 \<longleftrightarrow> a = b"
    using a b v4(2) [of a b] v6(2) [of a b] unfolding BAddr_CompareOrder_eq BAddr_ok_type by auto
  show "BAddr_CompareOrder b a = - BAddr_CompareOrder a b"
    using a b v4(3) [of a b] v6(3) [of a b] unfolding BAddr_CompareOrder_eq BAddr_ok_type by (auto simp: B_COMPARE_def)
  assume c: "BAddr_ok c" and "BAddr_CompareOrder a b = - 1" "BAddr_CompareOrder b c = - 1"
  then show "BAddr_CompareOrder a c = - 1"
    using a b v4(4) [of a b c] v6(4) [of a b c] unfolding BAddr_CompareOrder_eq BAddr_ok_type
    by (elim disjE) (simp_all add: B_COMPARE_def)
qed

interpretation compare_conaddr: comparator_contract conaddr_comparator conaddr_ok
proof -
  have e: "conaddr_comparator = (\<lambda>x y. cmp_then (BAddr_CompareOrder (remote_addr x) (remote_addr y))
      (BAddr_CompareOrder (local_addr x) (local_addr y)))"
    by (simp add: fun_eq_iff conaddr_comparator_def cmp_then_def Let_def)
  show "comparator_contract conaddr_comparator conaddr_ok"
    unfolding e by (rule comparator_lex [OF compare_addr.comparator_contract_axioms compare_addr.comparator_contract_axioms])
      (auto simp: conaddr_ok_def)
qed

lemma BAddr_Compare_eq: "BAddr_ok a \<Longrightarrow> BAddr_ok b \<Longrightarrow> BAddr_Compare a b \<longleftrightarrow> a = b"
  by (cases a; cases b) (auto simp: BAddr_ok_def memcmp_eq_iff)

end
