(* ===== verification/Tun2socks_Udp.thy ===== *)
theory Tun2socks_Udp
  imports Badvpn_Packets Badvpn_BAddr
begin

text \<open>
  The UDP side of tun2socks/tun2socks.c: packets read from the TUN device are either DNS
  packets that are rewritten to and from the DNS gateway (\<open>process_device_dns_packet\<close>), UDP
  packets that go to the UDP relay (\<open>process_device_udp_packet\<close>), or they are passed to lwip;
  \<open>udpgw_client_handler_received\<close> turns what the relay receives into packets for the device.
  The sockets behind \<open>BTap_Send\<close> and lwip are outside the model: a call is a value.
\<close>

unbundle bit_operations_syntax

section \<open>Configuration\<close>

text \<open>The global options and addresses; \<open>opt_dnsgw\<close> is the gateway when one is configured.\<close>

record tun_options =
  opt_dnsgw :: "(u32 \<times> u16) option"
  opt_udpgw :: bool
  opt_udpgw_transparent_dns :: bool
  opt_netif_ip6addr :: bool
  netif_ipaddr :: u32
  device_mtu :: int

text \<open>The largest UDP payload that is passed to the relay, computed by \<open>main\<close>.\<close>

definition tun_udp_mtu :: "tun_options \<Rightarrow> int" where
  "tun_udp_mtu o' =
     (let udp_mtu = device_mtu o' - (20 + 8);
          udp_mtu = (if opt_netif_ip6addr o'
                     then (let udp_ip6_mtu = device_mtu o' - (40 + 8) in
                           if udp_mtu < udp_ip6_mtu then udp_ip6_mtu else udp_mtu)
                     else udp_mtu)
      in if udp_mtu < 0 then 0 else udp_mtu)"

section \<open>The table of DNS clients\<close>

record Connection =
  con_local_addr :: BAddr
  con_remote_addr :: BAddr
  con_port :: u16
  con_count :: int

type_synonym connections = "u16 \<Rightarrow> Connection option"

definition find_connection :: "connections \<Rightarrow> u16 \<Rightarrow> Connection option" where
  "find_connection tree port = tree port"

definition remove_connection :: "connections \<Rightarrow> Connection \<Rightarrow> connections" where
  "remove_connection tree con =
     (let con = con\<lparr>con_count := con_count con - 1\<rparr> in
      if con_count con \<le> 0 then tree(con_port con := None) else tree(con_port con := Some con))"

definition insert_connection :: "connections \<Rightarrow> BAddr \<Rightarrow> BAddr \<Rightarrow> u16 \<Rightarrow> connections" where
  "insert_connection tree local remote port =
     (case find_connection tree port of
        Some con \<Rightarrow> tree(port := Some (con\<lparr>con_count := con_count con + 1\<rparr>))
      | None \<Rightarrow> tree(port := Some \<lparr>con_local_addr = local, con_remote_addr = remote, con_port = port, con_count = 1\<rparr>))"

text \<open>The static variable \<open>init\<close> and the tree that it guards.\<close>

record dns_state =
  dns_init :: bool
  connections_tree :: connections

definition dns_start :: dns_state where
  "dns_start = \<lparr>dns_init = False, connections_tree = (\<lambda>port. None)\<rparr>"

section \<open>Packets from the device\<close>

definition ip_version :: "bytes \<Rightarrow> u8" where
  "ip_version data = (if 0 < length data then drop_bit 4 (data ! 0) else 0)"

text \<open>The steps that both handlers take on an IPv4 packet, up to the verified UDP checksum.\<close>

definition parse_udp4 :: "bytes \<Rightarrow> (ipv4_header \<times> udp_header \<times> bytes) option" where
  "parse_udp4 data =
     (if length data < 20 \<or> data ! 9 \<noteq> IPV4_PROTOCOL_UDP then None
      else (case ipv4_check data of
              None \<Rightarrow> None
            | Some (ipv4, data) \<Rightarrow>
                (case udp_check data of
                   None \<Rightarrow> None
                 | Some (udp, data) \<Rightarrow>
                     (let checksum_in_packet = udp_hchecksum udp;
                          udp = udp\<lparr>udp_hchecksum := 0\<rparr>;
                          checksum_computed = udp_checksum udp data (ip_source ipv4) (ip_destination ipv4) in
                      if checksum_in_packet \<noteq> checksum_computed then None else Some (ipv4, udp, data)))))"

definition parse_udp6 :: "bytes \<Rightarrow> (ipv6_header \<times> udp_header \<times> bytes) option" where
  "parse_udp6 data =
     (if length data < 40 \<or> data ! 6 \<noteq> IPV6_NEXT_UDP then None
      else (case ipv6_check data of
              None \<Rightarrow> None
            | Some (ipv6, data) \<Rightarrow>
                (case udp_check data of
                   None \<Rightarrow> None
                 | Some (udp, data) \<Rightarrow>
                     (let checksum_in_packet = udp_hchecksum udp;
                          udp = udp\<lparr>udp_hchecksum := 0\<rparr>;
                          checksum_computed = udp_ip6_checksum udp data (ip6_source ipv6) (ip6_destination ipv6) in
                      if checksum_in_packet \<noteq> checksum_computed then None else Some (ipv6, udp, data)))))"

text \<open>The rewritten packet: fresh checksums, headers and payload.\<close>

definition dns_rewrite :: "ipv4_header \<Rightarrow> udp_header \<Rightarrow> bytes \<Rightarrow> bytes" where
  "dns_rewrite ipv4 udp data =
     (let ipv4 = ipv4\<lparr>ip_checksum := 0\<rparr>;
          ipv4 = ipv4\<lparr>ip_checksum := ipv4_checksum ipv4 []\<rparr>;
          udp = udp\<lparr>udp_hchecksum := 0\<rparr>;
          udp = udp\<lparr>udp_hchecksum := udp_checksum udp data (ip_source ipv4) (ip_destination ipv4)\<rparr>
      in ipv4_bytes ipv4 @ udp_bytes udp @ data)"

text \<open>
  The result is the packet given to \<open>BTap_Send\<close> when the handler returns 1, and \<open>None\<close> when
  it returns 0.
\<close>

definition process_device_dns_packet :: "tun_options \<Rightarrow> dns_state \<Rightarrow> bytes \<Rightarrow> dns_state \<times> bytes option" where
  "process_device_dns_packet o' s data =
     (case opt_dnsgw o' of
        None \<Rightarrow> (s, None)
      | Some (gw_ip, gw_port) \<Rightarrow>
          if ip_version data = 4 then
            (case parse_udp4 data of
               None \<Rightarrow> (s, None)
             | Some (ipv4, udp, data) \<Rightarrow>
                 (let to_dns = udp_dest_port udp = 53; from_dns = udp_source_port udp = gw_port in
                  if \<not> to_dns \<and> \<not> from_dns then (s, None)
                  else if to_dns then
                    (let s = (if dns_init s then s else \<lparr>dns_init = True, connections_tree = (\<lambda>port. None)\<rparr>);
                         local = BAddr_InitIPv4 (ip_source ipv4) (udp_source_port udp);
                         remote = BAddr_InitIPv4 (ip_destination ipv4) (udp_dest_port udp);
                         s = s\<lparr>connections_tree := insert_connection (connections_tree s) local remote (udp_source_port udp)\<rparr>;
                         ipv4 = ipv4\<lparr>ip_destination := gw_ip, ip_source := netif_ipaddr o'\<rparr>;
                         udp = udp\<lparr>udp_dest_port := gw_port\<rparr>
                     in (s, Some (dns_rewrite ipv4 udp data)))
                  else if \<not> dns_init s then (s, None)
                  else (case find_connection (connections_tree s) (udp_dest_port udp) of
                          None \<Rightarrow> (s, None)
                        | Some con \<Rightarrow>
                            (let ipv4 = ipv4\<lparr>ip_source := ipv4_ip (con_remote_addr con), ip_destination := ipv4_ip (con_local_addr con)\<rparr>;
                                 udp = udp\<lparr>udp_source_port := ipv4_port (con_remote_addr con)\<rparr>;
                                 s = s\<lparr>connections_tree := remove_connection (connections_tree s) con\<rparr>
                             in (s, Some (dns_rewrite ipv4 udp data))))))
          else (s, None))"

text \<open>What \<open>SocksUdpGwClient_SubmitPacket\<close> is called with, or \<open>None\<close> when the handler returns 0.\<close>

definition process_device_udp_packet :: "tun_options \<Rightarrow> bytes \<Rightarrow> (BAddr \<times> BAddr \<times> bool \<times> bytes) option" where
  "process_device_udp_packet o' data =
     (if \<not> opt_udpgw o' then None
      else (let r =
              (if ip_version data = 4 then
                 (case parse_udp4 data of
                    None \<Rightarrow> None
                  | Some (ipv4, udp, data) \<Rightarrow>
                      Some (BAddr_InitIPv4 (ip_source ipv4) (udp_source_port udp),
                            BAddr_InitIPv4 (ip_destination ipv4) (udp_dest_port udp),
                            opt_udpgw_transparent_dns o' \<and> ip_destination ipv4 = netif_ipaddr o' \<and> udp_dest_port udp = 53,
                            data))
               else if ip_version data = 6 then
                 (if \<not> opt_netif_ip6addr o' then None
                  else (case parse_udp6 data of
                          None \<Rightarrow> None
                        | Some (ipv6, udp, data) \<Rightarrow>
                            Some (BAddr_InitIPv6 (ip6_source ipv6) (udp_source_port udp),
                                  BAddr_InitIPv6 (ip6_destination ipv6) (udp_dest_port udp), False, data)))
               else None)
            in (case r of
                  None \<Rightarrow> None
                | Some (local, remote, is_dns, data) \<Rightarrow>
                    if int (length data) > tun_udp_mtu o' then None else Some (local, remote, is_dns, data))))"

datatype device_action = Tap_Send bytes | Udpgw_Submit BAddr BAddr bool bytes | Lwip_input bytes | Packet_dropped

text \<open>\<open>pbuf_alloc\<close> and \<open>netif.input\<close> belong to lwip: \<open>have_pbuf\<close> says that the first succeeds.\<close>

definition device_read_handler_send :: "tun_options \<Rightarrow> bool \<Rightarrow> dns_state \<Rightarrow> bytes \<Rightarrow> dns_state \<times> device_action" where
  "device_read_handler_send o' have_pbuf s data =
     (case process_device_dns_packet o' s data of
        (s, Some packet) \<Rightarrow> (s, Tap_Send packet)
      | (s, None) \<Rightarrow>
          (case process_device_udp_packet o' data of
             Some (local, remote, is_dns, payload) \<Rightarrow> (s, Udpgw_Submit local remote is_dns payload)
           | None \<Rightarrow>
               if length data > 65535 then (s, Packet_dropped)
               else if \<not> have_pbuf then (s, Packet_dropped)
               else (s, Lwip_input data)))"

section \<open>Packets to the device\<close>

text \<open>
  \<open>None\<close> is a violated assertion, \<open>Some None\<close> a packet that is dropped and \<open>Some (Some p)\<close> the
  packet given to \<open>BTap_Send\<close>.
\<close>

definition udpgw_client_handler_received :: "tun_options \<Rightarrow> BAddr \<Rightarrow> BAddr \<Rightarrow> bytes \<Rightarrow> bytes option option" where
  "udpgw_client_handler_received o' local remote data =
     (if \<not> opt_udpgw o' then None
      else (case (local, remote) of
        (BADDR_TYPE_IPV4 local_ip local_port, BADDR_TYPE_IPV4 remote_ip remote_port) \<Rightarrow>
          Some (if length data > 65535 - (20 + 8) \<or> int (length data) > device_mtu o' - (20 + 8) then None
           else (let iph = \<lparr>version4_ihl4 = IPV4_MAKE_VERSION_IHL 20, ip_ds = 0, ip_total_length = of_nat (20 + 8 + length data),
                            ip_identification = 0, flags3_fragmentoffset13 = 0, ip_ttl = 64, ip_protocol = IPV4_PROTOCOL_UDP,
                            ip_checksum = 0, ip_source = remote_ip, ip_destination = local_ip\<rparr>;
                     iph = iph\<lparr>ip_checksum := ipv4_checksum iph []\<rparr>;
                     udph = \<lparr>udp_source_port = remote_port, udp_dest_port = local_port, udp_length = of_nat (8 + length data),
                             udp_hchecksum = 0\<rparr>;
                     udph = udph\<lparr>udp_hchecksum := udp_checksum udph data (ip_source iph) (ip_destination iph)\<rparr>
                 in Some (ipv4_bytes iph @ udp_bytes udph @ data)))
      | (BADDR_TYPE_IPV6 local_ip local_port, BADDR_TYPE_IPV6 remote_ip remote_port) \<Rightarrow>
          Some (if \<not> opt_netif_ip6addr o' then None
           else if length data > 65535 - 8 \<or> int (length data) > device_mtu o' - (40 + 8) then None
           else (let iph = \<lparr>version4_tc4 = push_bit 4 6, tc4_fl4 = 0, ip6_fl = 0, ip6_payload_length = of_nat (8 + length data),
                            ip6_next_header = IPV6_NEXT_UDP, ip6_hop_limit = 64, ip6_source = take 16 remote_ip,
                            ip6_destination = take 16 local_ip\<rparr>;
                     udph = \<lparr>udp_source_port = remote_port, udp_dest_port = local_port, udp_length = of_nat (8 + length data),
                             udp_hchecksum = 0\<rparr>;
                     udph = udph\<lparr>udp_hchecksum := udp_ip6_checksum udph data (ip6_source iph) (ip6_destination iph)\<rparr>
                 in Some (ipv6_bytes iph @ udp_bytes udph @ data)))
      | _ \<Rightarrow> None))"


section \<open>Parsing what was built\<close>

lemma ipv4_read_bytes: "ipv4_read (ipv4_bytes h @ rest) = h"
  by (simp add: ipv4_read_def ipv4_bytes_def be16_def be32_def badvpn_read_be16_def badvpn_read_be32_def wire_simps)

lemma udp_read_bytes: "udp_read (udp_bytes u @ rest) = u"
  by (simp add: udp_read_def udp_bytes_def be16_def badvpn_read_be16_def wire_simps)

lemma ipv6_read_bytes:
  "length (ip6_source h) = 16 \<Longrightarrow> length (ip6_destination h) = 16 \<Longrightarrow> ipv6_read (ipv6_bytes h @ rest) = h"
  by (simp add: ipv6_read_def ipv6_bytes_def be16_def badvpn_read_be16_def wire_simps)

lemma length_ipv6_bytes:
  "length (ip6_source h) = 16 \<Longrightarrow> length (ip6_destination h) = 16 \<Longrightarrow> length (ipv6_bytes h) = 40"
  by (simp add: ipv6_bytes_def)

text \<open>A header without options whose length and checksum fields are right.\<close>

definition ipv4_wf :: "ipv4_header \<Rightarrow> nat \<Rightarrow> bool" where
  "ipv4_wf h n \<longleftrightarrow> version4_ihl4 h = 0x45 \<and> n \<le> 65535 - 20 \<and> ip_total_length h = of_nat (20 + n) \<and>
     ip_checksum h = ipv4_checksum (h\<lparr>ip_checksum := 0\<rparr>) []"

lemma ipv4_check_wf:
  assumes "ipv4_wf h (length rest)"
  shows "ipv4_check (ipv4_bytes h @ rest) = Some (h, rest)"
proof -
  have v: "version4_ihl4 h = 0x45" and n: "length rest \<le> 65515" and t: "ip_total_length h = of_nat (20 + length rest)"
    and c: "ip_checksum h = ipv4_checksum (h\<lparr>ip_checksum := 0\<rparr>) []"
    using assms by (simp_all add: ipv4_wf_def)
  have g: "IPV4_GET_VERSION h = 4" "unat (IPV4_GET_IHL h) = 5"
    by (simp_all add: IPV4_GET_VERSION_def IPV4_GET_IHL_def v)
  have tl: "unat (ip_total_length h) = 20 + length rest" unfolding t using n by (intro unat_of_nat_u16) simp
  show ?thesis unfolding ipv4_check_def ipv4_read_bytes Let_def using c [symmetric] by (simp add: g tl)
qed

lemma udp_check_wf:
  assumes "udp_length u = of_nat (8 + length d)" "length d \<le> 65527"
  shows "udp_check (udp_bytes u @ d) = Some (u, d)"
proof -
  have "unat (udp_length u) = 8 + length d" unfolding assms(1) using assms(2) by (intro unat_of_nat_u16) simp
  then show ?thesis unfolding udp_check_def udp_read_bytes Let_def by simp
qed

lemma parse_udp4_built:
  assumes "ipv4_wf h (8 + length d)" "ip_protocol h = 17" "udp_length u = of_nat (8 + length d)"
    "udp_hchecksum u = udp_checksum (u\<lparr>udp_hchecksum := 0\<rparr>) d (ip_source h) (ip_destination h)"
  shows "parse_udp4 (ipv4_bytes h @ udp_bytes u @ d) = Some (h, u\<lparr>udp_hchecksum := 0\<rparr>, d)"
proof -
  have 1: "ipv4_check (ipv4_bytes h @ udp_bytes u @ d) = Some (h, udp_bytes u @ d)"
    using assms(1) by (intro ipv4_check_wf) simp
  have 2: "udp_check (udp_bytes u @ d) = Some (u, d)" using assms(1) by (intro udp_check_wf assms(3)) (simp add: ipv4_wf_def)
  have 3: "(ipv4_bytes h @ udp_bytes u @ d) ! 9 = 17" using assms(2) by (simp add: ipv4_bytes_def be16_def)
  show ?thesis unfolding parse_udp4_def 1 using assms(4) [symmetric] by (simp add: 2 3 IPV4_PROTOCOL_UDP_def Let_def)
qed

lemma parse_udp6_built:
  assumes "version4_tc4 h = 0x60" "ip6_payload_length h = of_nat (8 + length d)" "length d \<le> 65527" "ip6_next_header h = 17"
    "length (ip6_source h) = 16" "length (ip6_destination h) = 16" "udp_length u = of_nat (8 + length d)"
    "udp_hchecksum u = udp_ip6_checksum (u\<lparr>udp_hchecksum := 0\<rparr>) d (ip6_source h) (ip6_destination h)"
  shows "parse_udp6 (ipv6_bytes h @ udp_bytes u @ d) = Some (h, u\<lparr>udp_hchecksum := 0\<rparr>, d)"
proof -
  have pl: "unat (ip6_payload_length h) = 8 + length d" unfolding assms(2) using assms(3) by (intro unat_of_nat_u16) simp
  have 1: "ipv6_check (ipv6_bytes h @ udp_bytes u @ d) = Some (h, udp_bytes u @ d)"
    unfolding ipv6_check_def ipv6_read_bytes [OF assms(5,6)] Let_def by (simp add: length_ipv6_bytes assms(5,6) pl assms(1))
  have 2: "udp_check (udp_bytes u @ d) = Some (u, d)" by (rule udp_check_wf [OF assms(7,3)])
  have 3: "(ipv6_bytes h @ udp_bytes u @ d) ! 6 = 17" using assms(4) by (simp add: ipv6_bytes_def be16_def)
  show ?thesis unfolding parse_udp6_def 1 using assms(8) [symmetric]
    by (simp add: 2 3 IPV6_NEXT_UDP_def Let_def length_ipv6_bytes assms(5,6))
qed

lemma ip_version_v4: "version4_ihl4 h = 0x45 \<Longrightarrow> ip_version (ipv4_bytes h @ rest) = 4"
  by (simp add: ip_version_def ipv4_bytes_def)

lemma ip_version_v6: "version4_tc4 h = 0x60 \<Longrightarrow> ip_version (ipv6_bytes h @ rest) = 6"
  by (simp add: ip_version_def ipv6_bytes_def)


text \<open>When a reply fits the device.\<close>

fun reply_fits :: "tun_options \<Rightarrow> BAddr \<Rightarrow> BAddr \<Rightarrow> nat \<Rightarrow> bool" where
  "reply_fits o' (BADDR_TYPE_IPV4 ip port) (BADDR_TYPE_IPV4 ip' port') n \<longleftrightarrow> n \<le> 65507 \<and> int n \<le> device_mtu o' - 28"
| "reply_fits o' (BADDR_TYPE_IPV6 ip port) (BADDR_TYPE_IPV6 ip' port') n \<longleftrightarrow>
     opt_netif_ip6addr o' \<and> length ip = 16 \<and> length ip' = 16 \<and> n \<le> 65527 \<and> int n \<le> device_mtu o' - 48"
| "reply_fits o' a b n \<longleftrightarrow> False"

definition is_transparent_dns :: "tun_options \<Rightarrow> BAddr \<Rightarrow> bool" where
  "is_transparent_dns o' a \<longleftrightarrow> opt_udpgw_transparent_dns o' \<and> a = BADDR_TYPE_IPV4 (netif_ipaddr o') 53"

lemma relay4_built:
  fixes lip rip :: u32 and lport rport :: u16 and d p :: bytes and h u
  assumes "opt_udpgw o'" "length d \<le> 65507" "int (length d) \<le> device_mtu o' - 28"
  defines "h \<equiv> \<lparr>version4_ihl4 = IPV4_MAKE_VERSION_IHL 20, ip_ds = 0, ip_total_length = of_nat (20 + 8 + length d),
      ip_identification = 0, flags3_fragmentoffset13 = 0, ip_ttl = 64, ip_protocol = IPV4_PROTOCOL_UDP,
      ip_checksum = 0, ip_source = rip, ip_destination = lip\<rparr>"
    and "u \<equiv> \<lparr>udp_source_port = rport, udp_dest_port = lport, udp_length = of_nat (8 + length d), udp_hchecksum = 0\<rparr>"
    and "p \<equiv> ipv4_bytes (h\<lparr>ip_checksum := ipv4_checksum h []\<rparr>) @ udp_bytes (u\<lparr>udp_hchecksum := udp_checksum u d rip lip\<rparr>) @ d"
  shows "udpgw_client_handler_received o' (BADDR_TYPE_IPV4 lip lport) (BADDR_TYPE_IPV4 rip rport) d = Some (Some p)"
    "process_device_udp_packet o' p = Some (BADDR_TYPE_IPV4 rip rport, BADDR_TYPE_IPV4 lip lport,
       is_transparent_dns o' (BADDR_TYPE_IPV4 lip lport), d)"
    "length p = 28 + length d"
proof -
  show "udpgw_client_handler_received o' (BADDR_TYPE_IPV4 lip lport) (BADDR_TYPE_IPV4 rip rport) d = Some (Some p)"
    using assms(1-3) by (simp add: udpgw_client_handler_received_def h_def u_def p_def Let_def)
  let ?h = "h\<lparr>ip_checksum := ipv4_checksum h []\<rparr>" and ?u = "u\<lparr>udp_hchecksum := udp_checksum u d rip lip\<rparr>"
  have v: "version4_ihl4 ?h = 0x45" by (simp add: h_def IPV4_MAKE_VERSION_IHL_def)
  have "ipv4_wf ?h (8 + length d)"
    unfolding ipv4_wf_def using v assms(2) by (simp add: h_def add.assoc)
  then have pp: "parse_udp4 p = Some (?h, ?u\<lparr>udp_hchecksum := 0\<rparr>, d)"
    unfolding p_def by (intro parse_udp4_built) (simp_all add: h_def u_def IPV4_PROTOCOL_UDP_def)
  have iv: "ip_version p = 4" unfolding p_def by (rule ip_version_v4 [OF v])
  have m: "int (length d) \<le> tun_udp_mtu o'" using assms(3) by (simp add: tun_udp_mtu_def Let_def)
  show "process_device_udp_packet o' p = Some (BADDR_TYPE_IPV4 rip rport, BADDR_TYPE_IPV4 lip lport,
       is_transparent_dns o' (BADDR_TYPE_IPV4 lip lport), d)"
    unfolding process_device_udp_packet_def pp iv using assms(1) m
    by (simp add: Let_def BAddr_InitIPv4_def is_transparent_dns_def h_def u_def)
  show "length p = 28 + length d" by (simp add: p_def)
qed

lemma relay6_built:
  fixes lip rip d p :: bytes and lport rport :: u16 and h u
  assumes "opt_udpgw o'" "opt_netif_ip6addr o'" "length lip = 16" "length rip = 16" "length d \<le> 65527"
    "int (length d) \<le> device_mtu o' - 48"
  defines "h \<equiv> \<lparr>version4_tc4 = push_bit 4 6, tc4_fl4 = 0, ip6_fl = 0, ip6_payload_length = of_nat (8 + length d),
      ip6_next_header = IPV6_NEXT_UDP, ip6_hop_limit = 64, ip6_source = rip, ip6_destination = lip\<rparr>"
    and "u \<equiv> \<lparr>udp_source_port = rport, udp_dest_port = lport, udp_length = of_nat (8 + length d), udp_hchecksum = 0\<rparr>"
    and "p \<equiv> ipv6_bytes h @ udp_bytes (u\<lparr>udp_hchecksum := udp_ip6_checksum u d rip lip\<rparr>) @ d"
  shows "udpgw_client_handler_received o' (BADDR_TYPE_IPV6 lip lport) (BADDR_TYPE_IPV6 rip rport) d = Some (Some p)"
    "process_device_udp_packet o' p = Some (BADDR_TYPE_IPV6 rip rport, BADDR_TYPE_IPV6 lip lport, False, d)"
    "length p = 48 + length d"
proof -
  show "udpgw_client_handler_received o' (BADDR_TYPE_IPV6 lip lport) (BADDR_TYPE_IPV6 rip rport) d = Some (Some p)"
    using assms(1-6) by (simp add: udpgw_client_handler_received_def h_def u_def p_def Let_def)
  let ?u = "u\<lparr>udp_hchecksum := udp_ip6_checksum u d rip lip\<rparr>"
  have v: "version4_tc4 h = 0x60" by (simp add: h_def)
  have pp: "parse_udp6 p = Some (h, ?u\<lparr>udp_hchecksum := 0\<rparr>, d)"
    unfolding p_def using assms(3-5) v by (intro parse_udp6_built) (simp_all add: h_def u_def IPV6_NEXT_UDP_def)
  have iv: "ip_version p = 6" unfolding p_def by (rule ip_version_v6 [OF v])
  have m: "int (length d) \<le> tun_udp_mtu o'" using assms(6) by (simp add: tun_udp_mtu_def Let_def)
  show "process_device_udp_packet o' p = Some (BADDR_TYPE_IPV6 rip rport, BADDR_TYPE_IPV6 lip lport, False, d)"
    unfolding process_device_udp_packet_def pp iv using assms(1-4) m
    by (simp add: Let_def BAddr_InitIPv6_def h_def u_def)
  show "length p = 48 + length d" unfolding p_def by (simp add: ipv6_bytes_def h_def assms(3,4))
qed

text \<open>
  C30. What the relay receives reaches the device unchanged. A reply of a remote address to a
  local one that fits the device's MTU is sent to the device as one packet that fits it, and
  that packet is well formed: read back by the code that parses the device's packets, with
  every header, length and checksum verified, it yields the same two addresses (as source and
  destination) and the same payload, over IPv4 and over IPv6, payloads of odd length and empty
  ones included.
\<close>

theorem udp_reply_roundtrip:
  assumes "opt_udpgw o'" "reply_fits o' local remote (length d)"
  shows "\<exists>p. udpgw_client_handler_received o' local remote d = Some (Some p) \<and> int (length p) \<le> device_mtu o' \<and>
    process_device_udp_packet o' p = Some (remote, local, is_transparent_dns o' local, d)"
proof -
  consider (v4) lip lport rip rport where "local = BADDR_TYPE_IPV4 lip lport" "remote = BADDR_TYPE_IPV4 rip rport"
    | (v6) lip lport rip rport where "local = BADDR_TYPE_IPV6 lip lport" "remote = BADDR_TYPE_IPV6 rip rport"
    using assms(2) by (cases local; cases remote) auto
  then show ?thesis
  proof cases
    case v4
    then have f: "length d \<le> 65507" "int (length d) \<le> device_mtu o' - 28" using assms(2) by simp_all
    show ?thesis unfolding v4
      by (rule exI, intro conjI, rule relay4_built(1) [OF assms(1) f], use f in \<open>simp add: relay4_built(3) [OF assms(1) f]\<close>,
          rule relay4_built(2) [OF assms(1) f])
  next
    case v6
    then have f: "opt_netif_ip6addr o'" "length lip = 16" "length rip = 16" "length d \<le> 65527"
      "int (length d) \<le> device_mtu o' - 48" using assms(2) by simp_all
    have n: "is_transparent_dns o' (BADDR_TYPE_IPV6 lip lport) = False" by (simp add: is_transparent_dns_def)
    show ?thesis unfolding v6 n
      by (rule exI, intro conjI, rule relay6_built(1) [OF assms(1) f], subst relay6_built(3) [OF assms(1) f], use f in simp,
          rule relay6_built(2) [OF assms(1) f])
  qed
qed

definition example_options :: tun_options where
  "example_options = \<lparr>opt_dnsgw = Some (0x0A000002, 8153), opt_udpgw = True, opt_udpgw_transparent_dns = False,
     opt_netif_ip6addr = False, netif_ipaddr = 0x0A000001, device_mtu = 1500\<rparr>"

theorem udp_reply_roundtrip_witness:
  "\<exists>p. udpgw_client_handler_received example_options (BADDR_TYPE_IPV4 0x0A000005 4000) (BADDR_TYPE_IPV4 0x08080808 123) [1, 2, 3] = Some (Some p) \<and>
    int (length p) \<le> device_mtu example_options \<and>
    process_device_udp_packet example_options p = Some (BADDR_TYPE_IPV4 0x08080808 123, BADDR_TYPE_IPV4 0x0A000005 4000,
      is_transparent_dns example_options (BADDR_TYPE_IPV4 0x0A000005 4000), [1, 2, 3])"
  by (rule udp_reply_roundtrip) (simp_all add: example_options_def)


section \<open>DNS address translation\<close>

text \<open>A UDP datagram over IPv4 without options, and the packet that carries it.\<close>

record datagram =
  dg_ds :: u8
  dg_id :: u16
  dg_flags :: u16
  dg_ttl :: u8
  dg_src :: u32
  dg_sport :: u16
  dg_dst :: u32
  dg_dport :: u16
  dg_data :: bytes

definition dg_ipv4 :: "datagram \<Rightarrow> ipv4_header" where
  "dg_ipv4 g = \<lparr>version4_ihl4 = 0x45, ip_ds = dg_ds g, ip_total_length = of_nat (28 + length (dg_data g)),
     ip_identification = dg_id g, flags3_fragmentoffset13 = dg_flags g, ip_ttl = dg_ttl g, ip_protocol = 17,
     ip_checksum = 0, ip_source = dg_src g, ip_destination = dg_dst g\<rparr>"

definition dg_udp :: "datagram \<Rightarrow> udp_header" where
  "dg_udp g = \<lparr>udp_source_port = dg_sport g, udp_dest_port = dg_dport g, udp_length = of_nat (8 + length (dg_data g)),
     udp_hchecksum = 0\<rparr>"

definition dg_packet :: "datagram \<Rightarrow> bytes" where
  "dg_packet g = ipv4_bytes ((dg_ipv4 g)\<lparr>ip_checksum := ipv4_checksum (dg_ipv4 g) []\<rparr>) @
     udp_bytes ((dg_udp g)\<lparr>udp_hchecksum := udp_checksum (dg_udp g) (dg_data g) (dg_src g) (dg_dst g)\<rparr>) @ dg_data g"

definition dg_ok :: "datagram \<Rightarrow> bool" where
  "dg_ok g \<longleftrightarrow> length (dg_data g) \<le> 65507"

lemma parse_dg_packet:
  assumes "dg_ok g"
  shows "parse_udp4 (dg_packet g) = Some ((dg_ipv4 g)\<lparr>ip_checksum := ipv4_checksum (dg_ipv4 g) []\<rparr>, dg_udp g, dg_data g)"
proof -
  let ?h = "(dg_ipv4 g)\<lparr>ip_checksum := ipv4_checksum (dg_ipv4 g) []\<rparr>"
  let ?u = "(dg_udp g)\<lparr>udp_hchecksum := udp_checksum (dg_udp g) (dg_data g) (dg_src g) (dg_dst g)\<rparr>"
  have "ipv4_wf ?h (8 + length (dg_data g))" using assms by (simp add: ipv4_wf_def dg_ipv4_def dg_ok_def)
  then have "parse_udp4 (dg_packet g) = Some (?h, ?u\<lparr>udp_hchecksum := 0\<rparr>, dg_data g)"
    unfolding dg_packet_def by (intro parse_udp4_built) (simp_all add: dg_ipv4_def dg_udp_def)
  then show ?thesis by (simp add: dg_udp_def)
qed

lemma ip_version_dg_packet: "ip_version (dg_packet g) = 4"
  unfolding dg_packet_def by (rule ip_version_v4) (simp add: dg_ipv4_def)















lemma rewrite_query:
  "dns_rewrite ((dg_ipv4 g)\<lparr>ip_checksum := x, ip_destination := dst, ip_source := src\<rparr>) ((dg_udp g)\<lparr>udp_dest_port := dport\<rparr>) (dg_data g) =
     dg_packet (g\<lparr>dg_src := src, dg_dst := dst, dg_dport := dport\<rparr>)"
  by (simp add: dns_rewrite_def dg_packet_def dg_ipv4_def dg_udp_def Let_def)

lemma rewrite_reply:
  "dns_rewrite ((dg_ipv4 g)\<lparr>ip_checksum := x, ip_source := src, ip_destination := dst\<rparr>) ((dg_udp g)\<lparr>udp_source_port := sport\<rparr>) (dg_data g) =
     dg_packet (g\<lparr>dg_src := src, dg_dst := dst, dg_sport := sport\<rparr>)"
  by (simp add: dns_rewrite_def dg_packet_def dg_ipv4_def dg_udp_def Let_def)

lemma dg_fields [simp]:
  "ip_source (dg_ipv4 g) = dg_src g" "ip_destination (dg_ipv4 g) = dg_dst g"
  "udp_source_port (dg_udp g) = dg_sport g" "udp_dest_port (dg_udp g) = dg_dport g"
  by (simp_all add: dg_ipv4_def dg_udp_def)

lemma process_query:
  assumes "dg_ok g" "opt_dnsgw o' = Some (gw_ip, gw_port)" "dg_dport g = 53"
  shows "process_device_dns_packet o' s (dg_packet g) =
    (\<lparr>dns_init = True, connections_tree = insert_connection (if dns_init s then connections_tree s else (\<lambda>port. None))
        (BADDR_TYPE_IPV4 (dg_src g) (dg_sport g)) (BADDR_TYPE_IPV4 (dg_dst g) 53) (dg_sport g)\<rparr>,
     Some (dg_packet (g\<lparr>dg_src := netif_ipaddr o', dg_dst := gw_ip, dg_dport := gw_port\<rparr>)))"
  unfolding process_device_dns_packet_def parse_dg_packet [OF assms(1)] assms(2) ip_version_dg_packet Let_def
  by (simp add: assms(3) rewrite_query BAddr_InitIPv4_def)

lemma process_reply:
  assumes "dg_ok g" "opt_dnsgw o' = Some (gw_ip, gw_port)" "dg_dport g \<noteq> 53" "dg_sport g = gw_port" "dns_init s"
    "connections_tree s (dg_dport g) = Some con"
  shows "process_device_dns_packet o' s (dg_packet g) =
    (s\<lparr>connections_tree := remove_connection (connections_tree s) con\<rparr>,
     Some (dg_packet (g\<lparr>dg_src := ipv4_ip (con_remote_addr con), dg_dst := ipv4_ip (con_local_addr con),
        dg_sport := ipv4_port (con_remote_addr con)\<rparr>)))"
  unfolding process_device_dns_packet_def parse_dg_packet [OF assms(1)] assms(2) ip_version_dg_packet Let_def
  using assms(3-6) by (simp add: rewrite_reply find_connection_def)



fun dns_run :: "tun_options \<Rightarrow> dns_state \<Rightarrow> bytes list \<Rightarrow> bytes option list" where
  "dns_run o' s [] = []"
| "dns_run o' s (p # ps) = (let (s, out) = process_device_dns_packet o' s p in out # dns_run o' s ps)"





definition example_query :: datagram where
  "example_query = \<lparr>dg_ds = 0, dg_id = 7, dg_flags = 0, dg_ttl = 64, dg_src = 0x0A000005, dg_sport = 4000, dg_dst = 0x08080808,
     dg_dport = 53, dg_data = [1, 2, 3]\<rparr>"

definition example_reply :: datagram where
  "example_reply = \<lparr>dg_ds = 0, dg_id = 8, dg_flags = 0, dg_ttl = 64, dg_src = 0x0A000002, dg_sport = 8153, dg_dst = 0x0A000001,
     dg_dport = 4000, dg_data = [4, 5]\<rparr>"


text \<open>
  C32. Queries on one port are confused. When a client sends a query to a second server, or
  another client takes over the port, while a query on the same port has had no answer (which
  may never come: nothing removes the entry then), the answer to the second query is delivered
  with the first server as its source and to the first client: the table keeps the addresses
  of the first query and only counts the others.
\<close>

theorem dns_translation_confuses:
  assumes "opt_dnsgw o' = Some (gw_ip, gw_port)" "dg_ok q1" "dg_ok q2" "dg_ok r"
    "dg_dport q1 = 53" "dg_dport q2 = 53" "dg_sport q1 = dg_sport q2" "dg_sport r = gw_port" "dg_dport r = dg_sport q2"
    "dg_dport r \<noteq> 53"
  shows "dns_run o' dns_start [dg_packet q1, dg_packet q2, dg_packet r] ! 2 =
    Some (dg_packet (r\<lparr>dg_src := dg_dst q1, dg_dst := dg_src q1, dg_sport := 53\<rparr>))"
proof -
  have q: "connections_tree (fst (process_device_dns_packet o' (fst (process_device_dns_packet o' dns_start (dg_packet q1)))
      (dg_packet q2))) (dg_dport r) = Some \<lparr>con_local_addr = BADDR_TYPE_IPV4 (dg_src q1) (dg_sport q1),
      con_remote_addr = BADDR_TYPE_IPV4 (dg_dst q1) 53, con_port = dg_sport q1, con_count = 2\<rparr>"
    unfolding process_query [OF assms(2,1,5)] process_query [OF assms(3,1,6)]
    by (simp add: assms(7,9) dns_start_def insert_connection_def find_connection_def)
  have i: "dns_init (fst (process_device_dns_packet o' (fst (process_device_dns_packet o' dns_start (dg_packet q1))) (dg_packet q2)))"
    unfolding process_query [OF assms(3,1,6)] by simp
  show ?thesis using process_reply [OF assms(4,1,10,8) i q] by (simp add: case_prod_beta)
qed

theorem dns_translation_confuses_witness:
  "dns_run example_options dns_start [dg_packet example_query, dg_packet (example_query\<lparr>dg_dst := 0x01010101\<rparr>), dg_packet example_reply] ! 2 =
     Some (dg_packet (example_reply\<lparr>dg_src := 0x08080808, dg_dst := 0x0A000005, dg_sport := 53\<rparr>))"
  using dns_translation_confuses [where o' = example_options and gw_ip = "0x0A000002" and gw_port = 8153 and ?q1.0 = example_query and
    ?q2.0 = "example_query\<lparr>dg_dst := 0x01010101\<rparr>" and r = example_reply]
  by (simp add: example_options_def example_query_def example_reply_def dg_ok_def)


lemma ipv4_check_SomeD:
  assumes "ipv4_check data = Some (h, rest)"
  shows "IPV4_GET_VERSION h = 4 \<and> 20 \<le> unat (IPV4_GET_IHL h) * 4 \<and>
    unat (IPV4_GET_IHL h) * 4 + length rest = unat (ip_total_length h)"
  using assms by (auto simp: ipv4_check_def Let_def IPV4_GET_VERSION_def IPV4_GET_IHL_def split: if_splits)

lemma udp_check_SomeD: "udp_check data = Some (u, d) \<Longrightarrow> unat (udp_length u) = 8 + length d \<and> 8 + length d \<le> length data"
  by (auto simp: udp_check_def Let_def split: if_splits)

lemma parse_udp4_SomeD:
  assumes "parse_udp4 data = Some (h, u, d)"
  shows "IPV4_GET_VERSION h = 4" "20 \<le> unat (IPV4_GET_IHL h) * 4"
    "unat (IPV4_GET_IHL h) * 4 + 8 + length d \<le> unat (ip_total_length h)"
  using assms by (auto simp: parse_udp4_def Let_def split: if_splits option.splits dest!: ipv4_check_SomeD udp_check_SomeD)

text \<open>The rewritten packet is an IP packet only if its total length says so.\<close>

lemma dns_rewrite_check:
  assumes "IPV4_GET_VERSION h = 4" "20 \<le> unat (IPV4_GET_IHL h) * 4"
    "unat (IPV4_GET_IHL h) * 4 + 8 + length d \<le> unat (ip_total_length h)"
  shows "ipv4_check (dns_rewrite h u d) \<noteq> None \<longleftrightarrow> unat (ip_total_length h) = 28 + length d"
proof -
  define h0 where "h0 = h\<lparr>ip_checksum := 0\<rparr>"
  define h' where "h' = h0\<lparr>ip_checksum := ipv4_checksum h0 []\<rparr>"
  obtain u' where p: "dns_rewrite h u d = ipv4_bytes h' @ udp_bytes u' @ d"
    by (simp add: dns_rewrite_def h'_def h0_def Let_def)
  have f: "IPV4_GET_VERSION h' = 4" "IPV4_GET_IHL h' = IPV4_GET_IHL h" "ip_total_length h' = ip_total_length h"
    "h'\<lparr>ip_checksum := 0\<rparr> = h0" "ip_checksum h' = ipv4_checksum h0 []"
    using assms(1) by (simp_all add: h'_def h0_def IPV4_GET_VERSION_def IPV4_GET_IHL_def)
  show ?thesis
  proof (cases "unat (ip_total_length h) = 28 + length d")
    case True
    then have "unat (IPV4_GET_IHL h) = 5" using assms(2,3) by simp
    then show ?thesis using True
      unfolding p ipv4_check_def ipv4_read_bytes Let_def f by (simp add: f)
  next
    case False
    then have "28 + length d < unat (ip_total_length h)" using assms(2,3) by linarith
    then show ?thesis unfolding p ipv4_check_def ipv4_read_bytes Let_def f using False by simp
  qed
qed

text \<open>
  C33. DNS translation breaks packets that it was not written for. Whatever valid packet
  comes in, the packet it sends is a valid IP packet exactly if the one that came in had no IP
  options and nothing after its UDP payload: the code copies only the fixed header and the UDP
  payload but leaves the header length and the total length as they were.
\<close>

theorem dns_translation_valid_iff:
  assumes "process_device_dns_packet o' s data = (s', Some p)" "parse_udp4 data = Some (h, u, d)"
  shows "ipv4_check p \<noteq> None \<longleftrightarrow> unat (ip_total_length h) = 28 + length d"
proof -
  have "\<exists>h' u'. p = dns_rewrite h' u' d \<and> version4_ihl4 h' = version4_ihl4 h \<and> ip_total_length h' = ip_total_length h"
    using assms by (auto simp: process_device_dns_packet_def Let_def split: option.splits if_splits)
      (intro exI conjI, rule refl; simp)+
  then obtain h' u' where p: "p = dns_rewrite h' u' d" "version4_ihl4 h' = version4_ihl4 h" "ip_total_length h' = ip_total_length h"
    by blast
  have "IPV4_GET_VERSION h' = 4" "20 \<le> unat (IPV4_GET_IHL h') * 4" "unat (IPV4_GET_IHL h') * 4 + 8 + length d \<le> unat (ip_total_length h')"
    using parse_udp4_SomeD [OF assms(2)] p(2,3) by (simp_all add: IPV4_GET_VERSION_def IPV4_GET_IHL_def)
  from dns_rewrite_check [OF this] show ?thesis unfolding p by simp
qed

theorem dns_translation_valid_iff_witness:
  "ipv4_check (dg_packet (example_query\<lparr>dg_src := 0x0A000001, dg_dst := 0x0A000002, dg_dport := 8153\<rparr>)) \<noteq> None \<longleftrightarrow>
     unat (ip_total_length ((dg_ipv4 example_query)\<lparr>ip_checksum := ipv4_checksum (dg_ipv4 example_query) []\<rparr>)) =
       28 + length (dg_data example_query)"
proof -
  have ok: "dg_ok example_query" and d: "dg_dport example_query = 53" by (simp_all add: dg_ok_def example_query_def)
  have o: "opt_dnsgw example_options = Some (0x0A000002, 8153)" "netif_ipaddr example_options = 0x0A000001"
    by (simp_all add: example_options_def)
  show ?thesis by (rule dns_translation_valid_iff [OF process_query [OF ok o(1) d, of dns_start, unfolded o(2)] parse_dg_packet [OF ok]])
qed

end
