(* ===== verification/Tun2socks_UdpClient.thy ===== *)
theory Tun2socks_UdpClient
  imports Tun2socks_Udp Badvpn_BSize
begin

text \<open>
  tun2socks/SocksUdpGwClient.c as it is built for Android: UDP packets of the device are sent
  to the SOCKS server's UDP relay, one socket for each pair of a local and a remote address,
  with the header of RFC 1928 in front; flow/BufferWriter.c, through which a packet is
  written; and \<open>udpgw_compute_mtu\<close> of protocol/udpgw_proto.h.

  Connections live in a store; the tree by address pairs is a map, the list of connections
  is in order of use, the least recently used first. A call out of the component is a value.
  \<open>None\<close> stands for a failed assertion or a write past the end of a buffer.
\<close>

section \<open>Messages\<close>

definition socks_udp_header :: "u8 \<Rightarrow> u8 \<Rightarrow> bytes" where
  "socks_udp_header frag atyp = [0, 0, frag, atyp]"

definition udpgw_addr_ipv4 :: "u32 \<Rightarrow> u16 \<Rightarrow> bytes" where
  "udpgw_addr_ipv4 ip port = be32 ip @ be16 port"

definition udpgw_addr_ipv6 :: "bytes \<Rightarrow> u16 \<Rightarrow> bytes" where
  "udpgw_addr_ipv6 ip port = take 16 ip @ be16 port"

definition ATYP_IPV4 :: u8 where "ATYP_IPV4 = 1"
definition ATYP_IPV6 :: u8 where "ATYP_IPV6 = 4"

definition udpgw_compute_mtu :: "32 word \<Rightarrow> int" where
  "udpgw_compute_mtu dgram_mtu =
     (let bs = bsize_add (bsize_fromsize 4) (bsize_add (bsize_max (bsize_fromsize 6) (bsize_fromsize 18)) (bsize_fromint dgram_mtu))
      in case bsize_toint bs of None \<Rightarrow> - 1 | Some s \<Rightarrow> s)"

section \<open>The buffer writer\<close>

text \<open>A writer has a slot of \<open>bw_mtu\<close> bytes while \<open>bw_out_have\<close>.\<close>

record BufferWriter =
  bw_mtu :: int
  bw_out_have :: bool

definition BufferWriter_Init :: "int \<Rightarrow> BufferWriter" where
  "BufferWriter_Init mtu = \<lparr>bw_mtu = mtu, bw_out_have = False\<rparr>"




section \<open>The client\<close>

text \<open>The parts of a connection that are initialised and have to be freed.\<close>

datatype udp_part = Part_first_job | Part_dgram | Part_async | Part_writer | Part_send_buffer | Part_recv_if | Part_recv_buffer

record SocksUdpGwClient_connection =
  uc_conaddr :: conaddr
  uc_first_job :: bool
  uc_first_data :: bytes
  uc_writer :: BufferWriter
  uc_parts :: "udp_part list"

record SocksUdpGwClient =
  gc_udp_mtu :: int
  gc_udpgw_mtu :: int
  gc_num_connections :: int
  gc_max_connections :: int
  gc_con :: "addr \<Rightarrow> SocksUdpGwClient_connection"
  gc_connections_tree :: "conaddr \<Rightarrow> addr option"
  gc_connections_list :: "addr list"

datatype gc_call = Gc_Sent addr bytes | Gc_Received BAddr BAddr bytes

definition uc_upd :: "addr \<Rightarrow> (SocksUdpGwClient_connection \<Rightarrow> SocksUdpGwClient_connection) \<Rightarrow> SocksUdpGwClient \<Rightarrow> SocksUdpGwClient" where
  "uc_upd a f o' = o'\<lparr>gc_con := (gc_con o')(a := f (gc_con o' a))\<rparr>"

definition SocksUdpGwClient_Init :: "SocksUdpGwClient \<Rightarrow> 32 word \<Rightarrow> int \<Rightarrow> SocksUdpGwClient" where
  "SocksUdpGwClient_Init o' udp_mtu max_connections =
     o'\<lparr>gc_udp_mtu := sint udp_mtu, gc_udpgw_mtu := udpgw_compute_mtu udp_mtu,
       gc_max_connections := (if max_connections > 65535 + 1 then 65535 + 1 else max_connections),
       gc_connections_tree := (\<lambda>c. None), gc_connections_list := []\<rparr>"



text \<open>The message that \<open>connection_send\<close> writes.\<close>

definition udp_message :: "BAddr \<Rightarrow> bytes \<Rightarrow> bytes" where
  "udp_message remote data =
     socks_udp_header 0 (if BAddr_type remote = 1 then ATYP_IPV4 else ATYP_IPV6) @
     (case remote of BADDR_TYPE_NONE \<Rightarrow> []
      | BADDR_TYPE_IPV4 ip port \<Rightarrow> udpgw_addr_ipv4 ip port
      | BADDR_TYPE_IPV6 ip port \<Rightarrow> udpgw_addr_ipv6 ip port) @ data"



text \<open>What the system gives: memory, a socket, its option and two buffers.\<close>

record gc_env =
  env_malloc :: "addr option"
  env_dgram :: bool
  env_reuseaddr :: bool
  env_send_buffer :: bool
  env_recv_buffer :: bool

text \<open>The parts that are freed on the way from a failure label to the end.\<close>

definition gc_fail0 :: "udp_part list \<Rightarrow> udp_part list" where
  "gc_fail0 ps = remove1 Part_first_job ps"

definition gc_fail1 :: "udp_part list \<Rightarrow> udp_part list" where
  "gc_fail1 ps = gc_fail0 (remove1 Part_dgram ps)"

definition gc_fail2 :: "udp_part list \<Rightarrow> udp_part list" where
  "gc_fail2 ps = gc_fail1 (remove1 Part_async (remove1 Part_writer ps))"

definition gc_fail3 :: "udp_part list \<Rightarrow> udp_part list" where
  "gc_fail3 ps = gc_fail2 (remove1 Part_send_buffer (remove1 Part_recv_if ps))"

text \<open>
  The result is the new connection, or the parts that are left of the one that failed
  (\<open>Inr\<close>, with the client unchanged).
\<close>

definition gc_connection_init :: "gc_env \<Rightarrow> SocksUdpGwClient \<Rightarrow> conaddr \<Rightarrow> bytes \<Rightarrow> SocksUdpGwClient \<times> (addr + udp_part list)" where
  "gc_connection_init env client conaddr data =
     (case env_malloc env of
        None \<Rightarrow> (client, Inr [])
      | Some a \<Rightarrow>
          (let ps = [Part_first_job] in
           if \<not> env_dgram env then (client, Inr (gc_fail0 ps))
           else (let ps = Part_dgram # ps in
           if \<not> env_reuseaddr env then (client, Inr (gc_fail1 ps))
           else (let ps = Part_async # ps; writer = BufferWriter_Init (gc_udp_mtu client); ps = Part_writer # ps in
           if \<not> env_send_buffer env then (client, Inr (gc_fail2 ps))
           else (let ps = Part_recv_if # Part_send_buffer # ps in
           if \<not> env_recv_buffer env then (client, Inr (gc_fail3 ps))
           else (let con = \<lparr>uc_conaddr = conaddr, uc_first_job = True, uc_first_data = data, uc_writer = writer,
                            uc_parts = Part_recv_buffer # ps\<rparr>
                 in (client\<lparr>gc_con := (gc_con client)(a := con),
                       gc_connections_tree := (gc_connections_tree client)(conaddr := Some a),
                       gc_connections_list := gc_connections_list client @ [a],
                       gc_num_connections := gc_num_connections client + 1\<rparr>, Inl a)))))))"

definition gc_connection_free :: "SocksUdpGwClient \<Rightarrow> addr \<Rightarrow> SocksUdpGwClient" where
  "gc_connection_free client con =
     (let client = client\<lparr>gc_num_connections := gc_num_connections client - 1\<rparr>;
          client = client\<lparr>gc_connections_list := remove1 con (gc_connections_list client)\<rparr>;
          client = client\<lparr>gc_connections_tree := (gc_connections_tree client)(uc_conaddr (gc_con client con) := None)\<rparr>
      in uc_upd con (\<lambda>c. c\<lparr>uc_parts := filter (\<lambda>p. p \<notin> {Part_recv_buffer, Part_recv_if, Part_send_buffer, Part_writer,
           Part_async, Part_dgram}) (uc_parts c)\<rparr>) client)"

definition SocksUdpGwClient_Free :: "SocksUdpGwClient \<Rightarrow> SocksUdpGwClient" where
  "SocksUdpGwClient_Free o' = fold (\<lambda>con o'. gc_connection_free o' con) (gc_connections_list o') o'"


text \<open>A datagram of the relay: the header is checked, then the address has to be the connection's.\<close>

definition gc_dgram_handler_received :: "SocksUdpGwClient \<Rightarrow> addr \<Rightarrow> bytes \<Rightarrow> gc_call list" where
  "gc_dgram_handler_received client con data =
     (if length data < 4 then []
      else (let frag = data ! 2; atyp = data ! 3; data = drop 4 data in
            if frag \<noteq> 0 then []
            else (case (if atyp = ATYP_IPV6 then
                          (if length data < 18 then None
                           else Some (BAddr_InitIPv6 (take 16 data) (badvpn_read_be16 (drop 16 data)), drop 18 data))
                        else
                          (if length data < 6 then None
                           else Some (BAddr_InitIPv4 (badvpn_read_be32 data) (badvpn_read_be16 (drop 4 data)), drop 6 data))) of
                    None \<Rightarrow> []
                  | Some (remote, data) \<Rightarrow>
                      if \<not> BAddr_Compare remote (remote_addr (uc_conaddr (gc_con client con))) then []
                      else if int (length data) > gc_udp_mtu client then []
                      else [Gc_Received (local_addr (uc_conaddr (gc_con client con))) remote data])))"



section \<open>The table of connections\<close>













section \<open>Runs\<close>





























definition example_client :: SocksUdpGwClient where
  "example_client = \<lparr>gc_udp_mtu = 0, gc_udpgw_mtu = 0, gc_num_connections = 0, gc_max_connections = 0,
     gc_con = (\<lambda>a. \<lparr>uc_conaddr = \<lparr>local_addr = BADDR_TYPE_NONE, remote_addr = BADDR_TYPE_NONE\<rparr>, uc_first_job = False, uc_first_data = [],
       uc_writer = BufferWriter_Init 0, uc_parts = []\<rparr>), gc_connections_tree = (\<lambda>c. None), gc_connections_list = []\<rparr>"





section \<open>The encapsulation\<close>

text \<open>
  C37. Encapsulation. A message that carries a packet of some address, delivered to a
  connection, yields the packet to the connection's local address, unchanged, if the address
  is the connection's remote, and nothing otherwise, over IPv4 and IPv6: what one end of the
  relay encapsulates the other end reads back, and no connection accepts the packets of
  another remote.
\<close>

theorem udp_message_roundtrip:
  assumes "BAddr_ok remote" "conaddr_ok (uc_conaddr (gc_con o' con))" "int (length d) \<le> gc_udp_mtu o'"
  shows "gc_dgram_handler_received o' con (udp_message remote d) =
    (if remote = remote_addr (uc_conaddr (gc_con o' con)) then [Gc_Received (local_addr (uc_conaddr (gc_con o' con))) remote d] else [])"
proof -
  have c: "BAddr_Compare remote (remote_addr (uc_conaddr (gc_con o' con))) \<longleftrightarrow> remote = remote_addr (uc_conaddr (gc_con o' con))"
    using assms(1,2) by (intro BAddr_Compare_eq) (simp_all add: conaddr_ok_def)
  show ?thesis
  proof (cases remote)
    case (BADDR_TYPE_IPV4 ip port)
    then show ?thesis using c assms(3)
      by (simp add: gc_dgram_handler_received_def udp_message_def socks_udp_header_def udpgw_addr_ipv4_def ATYP_IPV4_def ATYP_IPV6_def
          badvpn_read_be16_def badvpn_read_be32_def be16_def be32_def rd_be16_be16 rd_be32_be32 BAddr_InitIPv4_def)
  next
    case (BADDR_TYPE_IPV6 ip port)
    then have "length ip = 16" using assms(1) by (simp add: BAddr_ok_def)
    then show ?thesis using c assms(3) BADDR_TYPE_IPV6
      by (simp add: gc_dgram_handler_received_def udp_message_def socks_udp_header_def udpgw_addr_ipv6_def ATYP_IPV4_def ATYP_IPV6_def
          badvpn_read_be16_def be16_def rd_be16_be16 BAddr_InitIPv6_def)
  qed (use assms(1) in \<open>simp add: BAddr_ok_def\<close>)
qed

definition example_con :: SocksUdpGwClient where
  "example_con = uc_upd 8 (\<lambda>c. c\<lparr>uc_conaddr := \<lparr>local_addr = BADDR_TYPE_IPV4 0x0A000005 4000, remote_addr = BADDR_TYPE_IPV4 0x08080808 123\<rparr>,
     uc_writer := \<lparr>bw_mtu = 1472, bw_out_have = True\<rparr>\<rparr>) (SocksUdpGwClient_Init example_client 1472 256)"

theorem udp_message_roundtrip_witness:
  "gc_dgram_handler_received example_con 8 (udp_message (BADDR_TYPE_IPV4 0x08080808 123) [7]) =
     [Gc_Received (BADDR_TYPE_IPV4 0x0A000005 4000) (BADDR_TYPE_IPV4 0x08080808 123) [7]]"
  by (subst udp_message_roundtrip)
    (simp_all add: example_con_def uc_upd_def conaddr_ok_def BAddr_ok_def SocksUdpGwClient_Init_def)







section \<open>Initialised parts\<close>

text \<open>
  A connection that fails to initialise is taken apart completely; freeing a connection
  releases all its parts but the first job.
\<close>

lemma gc_connection_init_no_leak: "snd (gc_connection_init env o' c d) = Inr ps \<Longrightarrow> ps = [] \<and> fst (gc_connection_init env o' c d) = o'"
  by (auto simp: gc_connection_init_def gc_fail0_def gc_fail1_def gc_fail2_def gc_fail3_def Let_def split: option.splits if_splits)

lemma gc_connection_free_parts:
  assumes "gc_connection_init env o' c d = (o1, Inl a)"
  shows "uc_parts (gc_con (gc_connection_free o1 a) a) = [Part_first_job]"
  using assms by (auto simp: gc_connection_init_def gc_connection_free_def uc_upd_def Let_def split: option.splits if_splits)

end
