(* ===== verification/Redsocks_Core.thy ===== *)
theory Redsocks_Core
  imports Prelude
begin

text \<open>
  redsocks.c: a redirected TCP connection (the client) and the connection to the proxy (the
  relay), and the code that relays bytes between them once the proxy handshake is done.

  A libevent bufferevent is the pair of its byte buffers with its watermarks, its enabled
  events and what was shut down on its socket. Freeing a client is a result of its own:
  \<open>Alive c\<close>, \<open>Dropped\<close>, and \<open>Invalid\<close> for an access to a client that was freed.
  bufferevent_write_buffer and bufferevent_enable fail only when memory or the event queue
  is exhausted; they are modelled as succeeding.
\<close>

section \<open>Data\<close>

record bufferevent =
  bev_input :: bytes
  bev_output :: bytes
  bev_read_on :: bool
  bev_write_on :: bool
  wm_read_low :: nat
  wm_read_high :: nat
  wm_write_low :: nat
  wm_write_high :: nat
  bev_shut_rd :: bool
  bev_shut_wr :: bool

definition EV_READ :: u16 where "EV_READ = 2"
definition EV_WRITE :: u16 where "EV_WRITE = 4"

record redsocks_client =
  rc_client :: bufferevent
  rc_relay :: "bufferevent option"
  rc_state :: int
  client_evshut :: u16
  relay_evshut :: u16

datatype rc_side = Client | Relay
datatype rc_how = SHUT_RD | SHUT_WR | SHUT_RDWR

datatype rc_result = Alive redsocks_client | Dropped | Invalid

fun rc_bev :: "rc_side \<Rightarrow> redsocks_client \<Rightarrow> bufferevent option" where
  "rc_bev Client c = Some (rc_client c)"
| "rc_bev Relay c = rc_relay c"

fun rc_upd :: "rc_side \<Rightarrow> (bufferevent \<Rightarrow> bufferevent) \<Rightarrow> redsocks_client \<Rightarrow> redsocks_client" where
  "rc_upd Client f c = c\<lparr>rc_client := f (rc_client c)\<rparr>"
| "rc_upd Relay f c = c\<lparr>rc_relay := map_option f (rc_relay c)\<rparr>"

fun rc_evshut :: "rc_side \<Rightarrow> redsocks_client \<Rightarrow> u16" where
  "rc_evshut Client c = client_evshut c"
| "rc_evshut Relay c = relay_evshut c"

fun rc_evshut_or :: "rc_side \<Rightarrow> u16 \<Rightarrow> redsocks_client \<Rightarrow> redsocks_client" where
  "rc_evshut_or Client w c = c\<lparr>client_evshut := client_evshut c OR w\<rparr>"
| "rc_evshut_or Relay w c = c\<lparr>relay_evshut := relay_evshut c OR w\<rparr>"

fun other_side :: "rc_side \<Rightarrow> rc_side" where
  "other_side Client = Relay"
| "other_side Relay = Client"

text \<open>bufferevent_write_buffer (to, from->input): the whole input moves behind the output.\<close>

definition write_input :: "rc_side \<Rightarrow> rc_side \<Rightarrow> redsocks_client \<Rightarrow> redsocks_client" where
  "write_input from to c =
     (case rc_bev from c of
        None \<Rightarrow> c
      | Some f \<Rightarrow> rc_upd from (\<lambda>b. b\<lparr>bev_input := []\<rparr>) (rc_upd to (\<lambda>b. b\<lparr>bev_output := bev_output b @ bev_input f\<rparr>) c))"

section \<open>Shutting down and relaying\<close>

definition REDSOCKS_RELAY_HALFBUFF :: nat where
  "REDSOCKS_RELAY_HALFBUFF = 4096"

definition redsocks_shutdown :: "rc_side \<Rightarrow> rc_how \<Rightarrow> redsocks_client \<Rightarrow> rc_result" where
  "redsocks_shutdown buffev how c =
     (let evhow = (case how of SHUT_RD \<Rightarrow> EV_READ | SHUT_WR \<Rightarrow> EV_WRITE | SHUT_RDWR \<Rightarrow> EV_READ OR EV_WRITE);
          c = (if \<not> (how = SHUT_RD \<and> rc_evshut buffev c AND EV_WRITE \<noteq> 0)
               then rc_upd buffev (\<lambda>b. b\<lparr>bev_shut_rd := bev_shut_rd b \<or> how \<noteq> SHUT_WR,
                                         bev_shut_wr := bev_shut_wr b \<or> how \<noteq> SHUT_RD\<rparr>) c
               else c);
          c = rc_upd buffev (\<lambda>b. b\<lparr>bev_read_on := bev_read_on b \<and> evhow AND EV_READ = 0,
                                    bev_write_on := bev_write_on b \<and> evhow AND EV_WRITE = 0\<rparr>) c;
          c = rc_evshut_or buffev evhow c
      in if relay_evshut c = EV_READ OR EV_WRITE \<and> client_evshut c = EV_READ OR EV_WRITE
         then Dropped else Alive c)"

definition redsocks_relay_readcb :: "rc_side \<Rightarrow> rc_side \<Rightarrow> redsocks_client \<Rightarrow> rc_result" where
  "redsocks_relay_readcb from to c =
     (case rc_bev to c of
        None \<Rightarrow> Invalid
      | Some t \<Rightarrow>
          if length (bev_output t) < wm_write_high t then Alive (write_input from to c)
          else Alive (rc_upd from (\<lambda>b. b\<lparr>bev_read_on := False\<rparr>) c))"

definition redsocks_relay_writecb :: "rc_side \<Rightarrow> rc_side \<Rightarrow> redsocks_client \<Rightarrow> rc_result" where
  "redsocks_relay_writecb from to c =
     (case (rc_bev from c, rc_bev to c) of
        (Some f, Some t) \<Rightarrow>
          (let from_eof = (rc_evshut from c AND EV_READ \<noteq> 0) in
           if length (bev_input f) = 0 \<and> from_eof then redsocks_shutdown to SHUT_WR c
           else if length (bev_output t) < wm_write_high t
           then Alive (rc_upd from (\<lambda>b. b\<lparr>bev_read_on := True\<rparr>) (write_input from to c))
           else Alive c)
      | _ \<Rightarrow> Invalid)"

text \<open>The four callbacks installed by redsocks_start_relay.\<close>

definition redsocks_relay_relayreadcb :: "redsocks_client \<Rightarrow> rc_result" where
  "redsocks_relay_relayreadcb c = redsocks_relay_readcb Relay Client c"

definition redsocks_relay_relaywritecb :: "redsocks_client \<Rightarrow> rc_result" where
  "redsocks_relay_relaywritecb c = redsocks_relay_writecb Client Relay c"

definition redsocks_relay_clientreadcb :: "redsocks_client \<Rightarrow> rc_result" where
  "redsocks_relay_clientreadcb c = redsocks_relay_readcb Client Relay c"

definition redsocks_relay_clientwritecb :: "redsocks_client \<Rightarrow> rc_result" where
  "redsocks_relay_clientwritecb c = redsocks_relay_writecb Relay Client c"

definition redsocks_start_relay :: "redsocks_client \<Rightarrow> redsocks_client" where
  "redsocks_start_relay c =
     (let wm = (\<lambda>b. b\<lparr>wm_read_low := 0, wm_write_low := 0,
                     wm_read_high := REDSOCKS_RELAY_HALFBUFF, wm_write_high := REDSOCKS_RELAY_HALFBUFF\<rparr>);
          on = (\<lambda>b. b\<lparr>bev_read_on := True, bev_write_on := True\<rparr>)
      in rc_upd Relay on (rc_upd Client on (rc_upd Client wm (rc_upd Relay wm c))))"

text \<open>\<open>eof\<close> is the condition \<open>what == (EVBUFFER_READ|EVBUFFER_EOF)\<close>.\<close>

definition redsocks_event_error :: "rc_side \<Rightarrow> bool \<Rightarrow> redsocks_client \<Rightarrow> rc_result" where
  "redsocks_event_error buffev eof c =
     (if eof then
        (let antiev = other_side buffev; have_antiev = (rc_bev antiev c \<noteq> None) in
         case redsocks_shutdown buffev SHUT_RD c of
           Alive c \<Rightarrow>
             (if have_antiev then
                (case rc_bev antiev c of
                   Some a \<Rightarrow> if length (bev_output a) = 0 then redsocks_shutdown antiev SHUT_WR c else Alive c
                 | None \<Rightarrow> Invalid)
              else Alive c)
         | Dropped \<Rightarrow> (if have_antiev then Invalid else Dropped)
         | Invalid \<Rightarrow> Invalid)
      else Dropped)"

section \<open>Handshake helpers\<close>

definition sizes_equal :: "nat \<Rightarrow> nat \<Rightarrow> bool" where
  "sizes_equal a b = (a = b)"

definition sizes_greater_equal :: "nat \<Rightarrow> nat \<Rightarrow> bool" where
  "sizes_greater_equal a b = (a \<ge> b)"

text \<open>Read \<open>expected\<close> bytes off an input buffer; \<open>None\<close> drops the client.\<close>

definition redsocks_read_expected ::
  "bytes \<Rightarrow> (nat \<Rightarrow> nat \<Rightarrow> bool) \<Rightarrow> nat \<Rightarrow> (bytes \<times> bytes) option" where
  "redsocks_read_expected input comparator expected =
     (if comparator (length input) expected then Some (take expected input, drop expected input) else None)"

text \<open>
  The message maker is the message it makes: \<open>None\<close> for no maker, \<open>Some None\<close> for a maker
  that failed.
\<close>

definition redsocks_write_helper_ex_plain ::
  "redsocks_client \<Rightarrow> bytes option option \<Rightarrow> int \<Rightarrow> nat \<Rightarrow> nat \<Rightarrow> rc_result" where
  "redsocks_write_helper_ex_plain c mkmessage state wm_low wm_high =
     (let fin = (\<lambda>c. Alive (rc_upd Relay (\<lambda>b. b\<lparr>wm_read_low := wm_low, wm_read_high := wm_high,
                    bev_read_on := True\<rparr>) (c\<lparr>rc_state := state\<rparr>)))
      in case mkmessage of
           None \<Rightarrow> fin c
         | Some None \<Rightarrow> Dropped
         | Some (Some msg) \<Rightarrow> fin (rc_upd Relay (\<lambda>b. b\<lparr>bev_output := bev_output b @ msg\<rparr>) c))"

definition redsocks_write_helper ::
  "redsocks_client \<Rightarrow> bytes option option \<Rightarrow> int \<Rightarrow> nat \<Rightarrow> rc_result" where
  "redsocks_write_helper c mkmessage state wm_only =
     redsocks_write_helper_ex_plain c mkmessage state wm_only wm_only"


section \<open>The relay between the two sockets\<close>

text \<open>
  What libevent does with the two bufferevents while relaying. \<open>EvRead s d\<close>: the socket
  of side \<open>s\<close> had data \<open>d\<close>; reading happens only while enabled, below the read
  watermark, and before the end of the stream. \<open>EvWrite s n\<close>: the socket took \<open>n\<close> bytes
  of the output (none only if there are none); the write callback runs once the output is
  down to the low watermark. \<open>EvEof s\<close>: end of stream while reading, which disables
  reading. \<open>EvError s\<close>: any other error. The ghost fields are the bytes read from and
  written to each socket.
\<close>

datatype relay_event = EvRead rc_side bytes | EvWrite rc_side nat | EvEof rc_side | EvError rc_side

record relay_env =
  re_result :: rc_result
  re_rx :: "rc_side \<Rightarrow> bytes"
  re_tx :: "rc_side \<Rightarrow> bytes"

fun relay_readcb :: "rc_side \<Rightarrow> redsocks_client \<Rightarrow> rc_result" where
  "relay_readcb Client c = redsocks_relay_clientreadcb c"
| "relay_readcb Relay c = redsocks_relay_relayreadcb c"

fun relay_writecb :: "rc_side \<Rightarrow> redsocks_client \<Rightarrow> rc_result" where
  "relay_writecb Client c = redsocks_relay_clientwritecb c"
| "relay_writecb Relay c = redsocks_relay_relaywritecb c"

fun relay_event_step :: "relay_event \<Rightarrow> redsocks_client \<Rightarrow> relay_env \<Rightarrow> relay_env" where
  "relay_event_step (EvRead s d) c env =
     (case rc_bev s c of
        Some b \<Rightarrow>
          if bev_read_on b \<and> rc_evshut s c AND EV_READ = 0 \<and> d \<noteq> [] \<and> length (bev_input b) < wm_read_high b then
            (let c = rc_upd s (\<lambda>b. b\<lparr>bev_input := bev_input b @ d\<rparr>) c
             in env\<lparr>re_rx := (re_rx env)(s := re_rx env s @ d), re_result := relay_readcb s c\<rparr>)
          else env
      | None \<Rightarrow> env)"
| "relay_event_step (EvWrite s n) c env =
     (case rc_bev s c of
        Some b \<Rightarrow>
          if bev_write_on b \<and> n \<le> length (bev_output b) \<and> (n = 0 \<longrightarrow> bev_output b = []) then
            (let c = rc_upd s (\<lambda>b. b\<lparr>bev_output := drop n (bev_output b)\<rparr>) c
             in env\<lparr>re_tx := (re_tx env)(s := re_tx env s @ take n (bev_output b)),
                    re_result := if length (bev_output b) - n \<le> wm_write_low b then relay_writecb s c else Alive c\<rparr>)
          else env
      | None \<Rightarrow> env)"
| "relay_event_step (EvEof s) c env =
     (case rc_bev s c of
        Some b \<Rightarrow>
          if bev_read_on b then
            env\<lparr>re_result := redsocks_event_error s True (rc_upd s (\<lambda>b. b\<lparr>bev_read_on := False\<rparr>) c)\<rparr>
          else env
      | None \<Rightarrow> env)"
| "relay_event_step (EvError s) c env = env\<lparr>re_result := redsocks_event_error s False c\<rparr>"

definition relay_step :: "relay_event \<Rightarrow> relay_env \<Rightarrow> relay_env" where
  "relay_step e env = (case re_result env of Alive c \<Rightarrow> relay_event_step e c env | _ \<Rightarrow> env)"

definition relay_begin :: "redsocks_client \<Rightarrow> relay_env" where
  "relay_begin c = \<lparr>re_result = Alive (redsocks_start_relay c), re_rx = (\<lambda>_. []), re_tx = (\<lambda>_. [])\<rparr>"

subsection \<open>The invariant\<close>

text \<open>\<open>rd_on s\<close>, \<open>wr_on s\<close>: the reading (writing) side of \<open>s\<close> is shut.\<close>

definition rd_on :: "rc_side \<Rightarrow> redsocks_client \<Rightarrow> bool" where
  "rd_on s c \<longleftrightarrow> rc_evshut s c AND EV_READ \<noteq> 0"

definition wr_on :: "rc_side \<Rightarrow> redsocks_client \<Rightarrow> bool" where
  "wr_on s c \<longleftrightarrow> rc_evshut s c AND EV_WRITE \<noteq> 0"

definition evshut_ok :: "u16 \<Rightarrow> bool" where
  "evshut_ok w \<longleftrightarrow> w = 0 \<or> w = 2 \<or> w = 4 \<or> w = 6"


text \<open>One direction of the relay, from side \<open>s\<close> to the other side.\<close>

definition dir_ok :: "rc_side \<Rightarrow> redsocks_client \<Rightarrow> bytes \<Rightarrow> bytes \<Rightarrow> bool" where
  "dir_ok s c rx tx \<longleftrightarrow> (case (rc_bev s c, rc_bev (other_side s) c) of
      (Some f, Some t) \<Rightarrow>
       tx @ bev_output t @ bev_input f = rx \<and>
       (bev_output t = [] \<longrightarrow> bev_input f = []) \<and>
       (wr_on (other_side s) c \<longrightarrow> rd_on s c) \<and> (wr_on (other_side s) c \<longrightarrow> bev_output t = []) \<and>
       (rd_on s c \<longrightarrow> bev_output t = [] \<longrightarrow> wr_on (other_side s) c) \<and>
       (bev_read_on f \<or> rd_on s c \<or> bev_output t \<noteq> []) \<and>
       (bev_write_on t \<longleftrightarrow> \<not> wr_on (other_side s) c) \<and>
       wm_write_high t = REDSOCKS_RELAY_HALFBUFF \<and> wm_write_low t = 0
    | _ \<Rightarrow> False)"

definition relay_inv :: "redsocks_client \<Rightarrow> (rc_side \<Rightarrow> bytes) \<Rightarrow> (rc_side \<Rightarrow> bytes) \<Rightarrow> bool" where
  "relay_inv c rx tx \<longleftrightarrow> evshut_ok (client_evshut c) \<and> evshut_ok (relay_evshut c) \<and>
     \<not> (rd_on Client c \<and> wr_on Client c \<and> rd_on Relay c \<and> wr_on Relay c) \<and>
     (\<forall>s. dir_ok s c (rx s) (tx (other_side s)))"

text \<open>How a run may end: dropped for an error, or with everything delivered.\<close>

definition all_delivered :: "(rc_side \<Rightarrow> bytes) \<Rightarrow> (rc_side \<Rightarrow> bytes) \<Rightarrow> bool" where
  "all_delivered rx tx \<longleftrightarrow> tx Relay = rx Client \<and> tx Client = rx Relay"

fun env_ok :: "bool \<Rightarrow> relay_env \<Rightarrow> bool" where
  "env_ok err env = (case re_result env of
     Alive c \<Rightarrow> relay_inv c (re_rx env) (re_tx env)
   | Dropped \<Rightarrow> err \<or> all_delivered (re_rx env) (re_tx env)
   | Invalid \<Rightarrow> False)"

lemma other_other [simp]: "other_side (other_side s) = s" "other_side s \<noteq> s" "s \<noteq> other_side s"
  by (cases s; simp)+

lemma side_cases: "t = s \<or> t = other_side s"
  by (cases s; cases t) simp_all

lemma rc_upd_sel [simp]:
  "rc_bev s (rc_upd s f c) = map_option f (rc_bev s c)"
  "rc_bev (other_side s) (rc_upd s f c) = rc_bev (other_side s) c"
  "rc_bev s (rc_upd (other_side s) f c) = rc_bev s c"
  "rc_evshut t (rc_upd s f c) = rc_evshut t c"
  "rc_bev t (rc_evshut_or s w c) = rc_bev t c"
  "rc_evshut s (rc_evshut_or s w c) = rc_evshut s c OR w"
  "rc_evshut (other_side s) (rc_evshut_or s w c) = rc_evshut (other_side s) c"
  "rc_evshut s (rc_evshut_or (other_side s) w c) = rc_evshut s c"
  by (cases s; cases t; simp)+


text \<open>The state after a shutdown, dropped when both sides are completely shut.\<close>

definition shut_state :: "rc_side \<Rightarrow> rc_how \<Rightarrow> redsocks_client \<Rightarrow> redsocks_client" where
  "shut_state s how c =
     (let evhow = (case how of SHUT_RD \<Rightarrow> EV_READ | SHUT_WR \<Rightarrow> EV_WRITE | SHUT_RDWR \<Rightarrow> EV_READ OR EV_WRITE);
          c = (if \<not> (how = SHUT_RD \<and> rc_evshut s c AND EV_WRITE \<noteq> 0)
               then rc_upd s (\<lambda>b. b\<lparr>bev_shut_rd := bev_shut_rd b \<or> how \<noteq> SHUT_WR,
                                    bev_shut_wr := bev_shut_wr b \<or> how \<noteq> SHUT_RD\<rparr>) c
               else c);
          c = rc_upd s (\<lambda>b. b\<lparr>bev_read_on := bev_read_on b \<and> evhow AND EV_READ = 0,
                               bev_write_on := bev_write_on b \<and> evhow AND EV_WRITE = 0\<rparr>) c
      in rc_evshut_or s evhow c)"


lemma ev_bits [simp]:
  "EV_READ AND EV_READ = EV_READ" "EV_READ AND EV_WRITE = 0" "EV_WRITE AND EV_WRITE = EV_WRITE"
  "EV_WRITE AND EV_READ = 0" "EV_READ \<noteq> 0" "EV_WRITE \<noteq> 0"
  by (simp_all add: EV_READ_def EV_WRITE_def)



lemma shutdown_shut_state:
  "redsocks_shutdown s how c =
     (if relay_evshut (shut_state s how c) = EV_READ OR EV_WRITE \<and> client_evshut (shut_state s how c) = EV_READ OR EV_WRITE
      then Dropped else Alive (shut_state s how c))"
  unfolding redsocks_shutdown_def Let_def shut_state_def by (rule refl)








lemma relay_cb_simps:
  "relay_readcb s c = redsocks_relay_readcb s (other_side s) c"
  "relay_writecb s c = redsocks_relay_writecb (other_side s) s c"
  by (cases s; simp add: redsocks_relay_clientreadcb_def redsocks_relay_relayreadcb_def
      redsocks_relay_clientwritecb_def redsocks_relay_relaywritecb_def)+

lemma half_pos [simp]: "0 < REDSOCKS_RELAY_HALFBUFF"
  by (simp add: REDSOCKS_RELAY_HALFBUFF_def)




lemma env_ok_of_case:
  assumes "(case r of Alive c' \<Rightarrow> relay_inv c' rx tx | Dropped \<Rightarrow> all_delivered rx tx | Invalid \<Rightarrow> False)"
  shows "env_ok err \<lparr>re_result = r, re_rx = rx, re_tx = tx\<rparr>"
  using assms by (auto split: rc_result.splits)







text \<open>An idle connection of the kind redsocks_start_relay is called on.\<close>

definition idle_bev :: bufferevent where
  "idle_bev = \<lparr>bev_input = [], bev_output = [], bev_read_on = True, bev_write_on = False, wm_read_low = 0,
     wm_read_high = 0, wm_write_low = 0, wm_write_high = 0, bev_shut_rd = False, bev_shut_wr = False\<rparr>"

definition idle_client :: redsocks_client where
  "idle_client = \<lparr>rc_client = idle_bev, rc_relay = Some idle_bev, rc_state = 0, client_evshut = 0, relay_evshut = 0\<rparr>"

lemmas relay_eval = relay_step_def relay_begin_def idle_client_def idle_bev_def redsocks_start_relay_def
  REDSOCKS_RELAY_HALFBUFF_def redsocks_relay_clientreadcb_def redsocks_relay_relayreadcb_def
  redsocks_relay_clientwritecb_def redsocks_relay_relaywritecb_def redsocks_relay_readcb_def
  redsocks_relay_writecb_def redsocks_event_error_def redsocks_shutdown_def write_input_def
  EV_READ_def EV_WRITE_def Let_def


subsection \<open>End of stream before the first write callback\<close>

text \<open>A socket whose writing is disabled stays so and takes no more bytes.\<close>

definition write_off :: "rc_side \<Rightarrow> rc_result \<Rightarrow> bool" where
  "write_off s r \<longleftrightarrow> (case r of Alive c \<Rightarrow> (\<forall>b. rc_bev s c = Some b \<longrightarrow> \<not> bev_write_on b) | _ \<Rightarrow> True)"

lemma rc_upd_write_off:
  assumes "write_off s (Alive c)" "\<And>b. bev_write_on (f b) \<Longrightarrow> bev_write_on b"
  shows "write_off s (Alive (rc_upd t f c))"
  using assms by (cases s; cases t) (auto simp: write_off_def)

lemma write_input_off: "write_off s (Alive c) \<Longrightarrow> write_off s (Alive (write_input from to c))"
  by (auto simp: write_input_def split: option.split intro!: rc_upd_write_off)

lemma shutdown_off: "write_off s (Alive c) \<Longrightarrow> write_off s (redsocks_shutdown t how c)"
proof -
  assume "write_off s (Alive c)"
  then have "write_off s (Alive (shut_state t how c))"
  proof -
    have e: "write_off s (Alive (rc_evshut_or t w d)) = write_off s (Alive d)" for w d
      by (simp add: write_off_def)
    show ?thesis using \<open>write_off s (Alive c)\<close>
      unfolding shut_state_def Let_def e by (auto intro!: rc_upd_write_off)
  qed
  moreover have "redsocks_shutdown t how c = Dropped \<or> redsocks_shutdown t how c = Alive (shut_state t how c)"
    by (simp add: shutdown_shut_state)
  ultimately show ?thesis by (auto simp: write_off_def)
qed

lemma readcb_off: "write_off s (Alive c) \<Longrightarrow> write_off s (redsocks_relay_readcb from to c)"
  by (auto simp: redsocks_relay_readcb_def split: option.split intro: write_input_off rc_upd_write_off)
    (simp add: write_off_def)

lemma writecb_off: "write_off s (Alive c) \<Longrightarrow> write_off s (redsocks_relay_writecb from to c)"
  by (auto simp: redsocks_relay_writecb_def Let_def split: option.split
      intro!: write_input_off rc_upd_write_off shutdown_off) (simp_all add: write_off_def)

lemma event_error_off: "write_off s (Alive c) \<Longrightarrow> write_off s (redsocks_event_error t eof c)"
proof -
  assume c: "write_off s (Alive c)"
  have "write_off s (redsocks_shutdown t SHUT_RD c)" by (rule shutdown_off [OF c])
  then show ?thesis
    by (auto simp: redsocks_event_error_def Let_def split: rc_result.split option.split intro: shutdown_off)
      (simp_all add: write_off_def)
qed

lemma step_off:
  assumes "write_off s (re_result env)"
  shows "write_off s (re_result (relay_step e env)) \<and> re_tx (relay_step e env) s = re_tx env s"
proof (cases "re_result env")
  case (Alive c)
  have c: "write_off s (Alive c)" using assms Alive by simp
  show ?thesis
  proof (cases e)
    case (EvRead t d)
    have "write_off s (Alive (rc_upd t (\<lambda>b. b\<lparr>bev_input := bev_input b @ d\<rparr>) c))"
      by (rule rc_upd_write_off [OF c]) simp
    then show ?thesis using EvRead Alive c
      by (auto simp: relay_step_def Let_def relay_cb_simps split: option.split intro: readcb_off)
  next
    case (EvWrite t n)
    have w: "write_off s (Alive (rc_upd t (\<lambda>b. b\<lparr>bev_output := drop n (bev_output b)\<rparr>) c))"
      by (rule rc_upd_write_off [OF c]) simp
    have "t = s \<Longrightarrow> rc_bev t c = Some b \<Longrightarrow> \<not> bev_write_on b" for b using c by (simp add: write_off_def)
    then show ?thesis using EvWrite Alive c w
      by (auto simp: relay_step_def Let_def relay_cb_simps split: option.split intro: writecb_off)
  next
    case (EvEof t)
    have "write_off s (Alive (rc_upd t (\<lambda>b. b\<lparr>bev_read_on := False\<rparr>) c))"
      by (rule rc_upd_write_off [OF c]) simp
    then show ?thesis using EvEof Alive c
      by (auto simp: relay_step_def split: option.split intro: event_error_off)
  next
    case (EvError t)
    then show ?thesis using Alive c by (auto simp: relay_step_def intro: event_error_off)
  qed
qed (use assms in \<open>simp_all add: relay_step_def\<close>)

lemma run_off:
  "write_off s (re_result env) \<Longrightarrow> re_tx (fold relay_step es env) s = re_tx env s"
  by (induction es arbitrary: env) (use step_off in \<open>auto\<close>)

text \<open>
  C14. Data that arrived during the proxy handshake can be lost. If relaying starts while
  the client's input already holds data, and the client's end of stream is seen before the
  relay's first write callback, then the relay's socket is shut for writing at once because
  its output is empty: the pending data stays in the input buffer, and whatever happens
  afterwards not one byte of it reaches the proxy.
\<close>

theorem redsocks_eof_loses_pending_input:
  assumes "rc_relay c = Some r" "client_evshut c = 0" "relay_evshut c = 0"
    and "bev_input (rc_client c) = d" "bev_output r = []"
  shows "(\<exists>c'. re_result (relay_step (EvEof Client) (relay_begin c)) = Alive c' \<and>
      bev_input (rc_client c') = d \<and> wr_on Relay c') \<and>
    re_tx (fold relay_step es (relay_step (EvEof Client) (relay_begin c))) Relay = []"
proof -
  let ?env = "relay_step (EvEof Client) (relay_begin c)"
  have 1: "\<exists>c' b. re_result ?env = Alive c' \<and> bev_input (rc_client c') = d \<and> wr_on Relay c' \<and>
      rc_relay c' = Some b \<and> \<not> bev_write_on b" and 2: "re_tx ?env Relay = []"
    using assms by (simp_all add: relay_eval wr_on_def)
  then have "write_off Relay (re_result ?env)" by (auto simp: write_off_def)
  from run_off [OF this] 1 2 show ?thesis by auto
qed

theorem redsocks_eof_loses_pending_input_witness:
  "\<exists>c'. re_result (relay_step (EvEof Client) (relay_begin
       (idle_client\<lparr>rc_client := idle_bev\<lparr>bev_input := [71, 69, 84]\<rparr>\<rparr>))) = Alive c' \<and>
     bev_input (rc_client c') = [71, 69, 84] \<and>
     re_tx (fold relay_step [EvWrite Relay 0, EvEof Relay] (relay_step (EvEof Client) (relay_begin
       (idle_client\<lparr>rc_client := idle_bev\<lparr>bev_input := [71, 69, 84]\<rparr>\<rparr>)))) Relay = []"
proof -
  let ?c = "idle_client\<lparr>rc_client := idle_bev\<lparr>bev_input := [71, 69, 84]\<rparr>\<rparr>"
  have "rc_relay ?c = Some idle_bev" "client_evshut ?c = 0" "relay_evshut ?c = 0"
    "bev_input (rc_client ?c) = [71, 69, 84]" "bev_output idle_bev = []"
    by (simp_all add: idle_client_def idle_bev_def)
  from redsocks_eof_loses_pending_input [OF this, of "[EvWrite Relay 0, EvEof Relay]"] show ?thesis by blast
qed

end
