(* ===== verification/Redsocks_Accept.thy ===== *)
theory Redsocks_Accept
  imports Redsocks_Core
begin

text \<open>
  Accepting clients in redsocks.c: the checks on a configured instance (redsocks_onexit), the
  accept handler with its back-off when the process is out of file descriptors
  (redsocks_accept_client, redsocks_accept_backoff, redsocks_close_internal), and the start of
  the connection to the proxy (redsocks_relay_connected, redsocks_connect_relay). System calls
  are inputs: an environment record says how each call of the handler ends.
\<close>

section \<open>Instances\<close>

record redsocks_config =
  cfg_type :: "string option"
  min_backoff_ms :: u16
  max_backoff_ms :: u16

definition relay_subsystems :: "string list" where
  "relay_subsystems = [''http-connect'', ''http-relay'', ''socks4'', ''socks5'']"

text \<open>
  What redsocks_onexit decides: the error it reports, if any, and whether the instance was
  put into the list of instances.
\<close>

definition redsocks_onexit :: "redsocks_config \<Rightarrow> string option \<times> bool" where
  "redsocks_onexit config =
     (let (err, added) = (case cfg_type config of
            Some t \<Rightarrow> if t \<in> set relay_subsystems then (None, True)
                      else (Some ''invalid `type` for redsocks'', False)
          | None \<Rightarrow> (Some ''no `type` for redsocks'', False));
          err = (if err = None \<and> min_backoff_ms config = 0
                 then Some ''`min_accept_backoff` must be positive, 0 ms is too low'' else err);
          err = (if err = None \<and> max_backoff_ms config = 0
                 then Some ''`max_accept_backoff` must be positive, 0 ms is too low'' else err);
          err = (if err = None \<and> \<not> min_backoff_ms config < max_backoff_ms config
                 then Some ''`min_accept_backoff` must be less than `max_accept_backoff`'' else err)
      in (err, added))"

text \<open>
  A tracked event remembers when it was inserted (in microseconds). The flag of an operation
  says whether the libevent call succeeded.
\<close>

record tracked_event =
  te_initialized :: bool
  te_fd :: int
  te_inserted :: "int option"

definition no_event :: tracked_event where
  "no_event = \<lparr>te_initialized = False, te_fd = 0, te_inserted = None\<rparr>"

definition tracked_event_set :: "int \<Rightarrow> tracked_event" where
  "tracked_event_set fd = \<lparr>te_initialized = True, te_fd = fd, te_inserted = None\<rparr>"

definition tracked_event_add :: "bool \<Rightarrow> int \<Rightarrow> tracked_event \<Rightarrow> tracked_event" where
  "tracked_event_add ok now tev = (if ok then tev\<lparr>te_inserted := Some now\<rparr> else tev)"

definition tracked_event_del :: "bool \<Rightarrow> tracked_event \<Rightarrow> tracked_event" where
  "tracked_event_del ok tev = (if ok then tev\<lparr>te_inserted := None\<rparr> else tev)"

text \<open>
  An instance: its two events, the delay of the back-off timer, and its clients by the
  descriptors their bufferevents own (the client's and, when connecting, the relay's).
\<close>

record redsocks_instance =
  ri_config :: redsocks_config
  ri_listener :: tracked_event
  ri_accept_backoff :: tracked_event
  ri_backoff_delay :: int
  accept_backoff_ms :: u16
  ri_clients :: "(int \<times> int option) list"

definition clamp_value :: "'a::ord \<Rightarrow> 'a \<Rightarrow> 'a \<Rightarrow> 'a" where
  "clamp_value val min_val max_val =
     (let val = (if val < min_val then min_val else val) in if val > max_val then max_val else val)"




section \<open>Accepting a client\<close>

datatype accept_result = Accepted int | Out_of_descriptors | Accept_error

record accept_env =
  ae_now :: int
  ae_accept :: accept_result
  ae_random :: nat
  ae_event_del :: bool
  ae_event_add :: bool
  ae_getsockname :: bool
  ae_getdestaddr :: bool
  ae_setsockopt :: bool
  ae_calloc :: bool
  ae_time :: bool
  ae_bufferevent_new :: bool
  ae_bufferevent_enable :: bool

datatype accept_act = Close_fd int | Connect_relay int

text \<open>
  The descriptors redsocks_drop_client closes, the client's and then the relay's; it also
  unlinks the client.
\<close>

definition redsocks_drop_client ::
  "int \<times> int option \<Rightarrow> redsocks_instance \<Rightarrow> redsocks_instance \<times> accept_act list" where
  "redsocks_drop_client client self =
     (self\<lparr>ri_clients := remove1 client (ri_clients self)\<rparr>,
      Close_fd (fst client) # (case snd client of Some fd \<Rightarrow> [Close_fd fd] | None \<Rightarrow> []))"

text \<open>
  The label \<open>fail\<close>. A client that was allocated but has no bufferevent yet owns no
  descriptor and is in no list, so dropping it has no visible effect; \<open>client\<close> is a client
  that has one.
\<close>

definition accept_fail ::
  "int option \<Rightarrow> int \<Rightarrow> redsocks_instance \<Rightarrow> redsocks_instance \<times> accept_act list" where
  "accept_fail client client_fd self =
     (let (self, acts) = (case client of Some fd \<Rightarrow> redsocks_drop_client (fd, None) self
                                        | None \<Rightarrow> (self, []))
      in (self, acts @ (if client_fd \<noteq> -1 then [Close_fd client_fd] else [])))"

definition redsocks_accept_client ::
  "accept_env \<Rightarrow> redsocks_instance \<Rightarrow> redsocks_instance \<times> accept_act list" where
  "redsocks_accept_client env self =
     (case ae_accept env of
        Accept_error \<Rightarrow> accept_fail None (-1) self
      | Out_of_descriptors \<Rightarrow>
          (let ms = word_of_int (uint (accept_backoff_ms self) * 2 + 1);
               ms = clamp_value ms (min_backoff_ms (ri_config self)) (max_backoff_ms (ri_config self));
               delay = int (ae_random env) mod uint ms + 1;
               self = self\<lparr>accept_backoff_ms := ms,
                           ri_listener := tracked_event_del (ae_event_del env) (ri_listener self),
                           ri_accept_backoff :=
                             tracked_event_add (ae_event_add env) (ae_now env) (ri_accept_backoff self),
                           ri_backoff_delay := delay\<rparr>
           in accept_fail None (-1) self)
      | Accepted client_fd \<Rightarrow>
          (let self = self\<lparr>accept_backoff_ms := 0\<rparr> in
           if \<not> ae_getsockname env then accept_fail None client_fd self
           else if \<not> ae_getdestaddr env then accept_fail None client_fd self
           else if \<not> ae_setsockopt env then accept_fail None client_fd self
           else if \<not> ae_calloc env then accept_fail None client_fd self
           else if \<not> ae_time env then accept_fail None client_fd self
           else if \<not> ae_bufferevent_new env then accept_fail None client_fd self
           else (let self = self\<lparr>ri_clients := (client_fd, None) # ri_clients self\<rparr> in
                 if \<not> ae_bufferevent_enable env then accept_fail (Some client_fd) (-1) self
                 else (self, [Connect_relay client_fd]))))"

section \<open>Starting and ending an instance\<close>

fun drop_all :: "(int \<times> int option) list \<Rightarrow> redsocks_instance \<Rightarrow> redsocks_instance \<times> accept_act list" where
  "drop_all [] self = (self, [])"
| "drop_all (c # cs) self =
     (let (self, acts) = redsocks_drop_client c self; (self, acts') = drop_all cs self
      in (self, acts @ acts'))"

text \<open>What redsocks_fini_instance does to the descriptors; the instance itself is freed.\<close>

definition redsocks_fini_instance :: "bool \<Rightarrow> redsocks_instance \<Rightarrow> redsocks_instance \<times> accept_act list" where
  "redsocks_fini_instance del_ok self =
     (let (self, acts) = drop_all (ri_clients self) self;
          (self, acts') =
            (if te_initialized (ri_listener self)
             then (let tev = (if te_inserted (ri_listener self) \<noteq> None
                              then tracked_event_del del_ok (ri_listener self) else ri_listener self)
                   in (self\<lparr>ri_listener := no_event\<rparr>, [Close_fd (te_fd tev)]))
             else (self, []));
          self = (if te_initialized (ri_accept_backoff self)
                  then self\<lparr>ri_accept_backoff := no_event\<rparr> else self)
      in (self, acts @ acts'))"

record init_env =
  ie_now :: int
  ie_socket :: int
  ie_setsockopt :: bool
  ie_bind :: bool
  ie_nonblock :: bool
  ie_listen :: bool
  ie_event_add :: bool
  ie_event_del :: bool

definition init_fail ::
  "init_env \<Rightarrow> int \<Rightarrow> redsocks_instance \<Rightarrow> bool \<times> redsocks_instance \<times> accept_act list" where
  "init_fail env fd self =
     (let (self, acts) = redsocks_fini_instance (ie_event_del env) self
      in (False, self, acts @ (if fd \<noteq> -1 then [Close_fd fd] else [])))"

definition redsocks_init_instance ::
  "init_env \<Rightarrow> redsocks_instance \<Rightarrow> bool \<times> redsocks_instance \<times> accept_act list" where
  "redsocks_init_instance env self =
     (let fd = ie_socket env in
      if fd = -1 then init_fail env fd self
      else if \<not> ie_setsockopt env then init_fail env fd self
      else if \<not> ie_bind env then init_fail env fd self
      else if \<not> ie_nonblock env then init_fail env fd self
      else if \<not> ie_listen env then init_fail env fd self
      else (let self = self\<lparr>ri_listener := tracked_event_set fd,
                            ri_accept_backoff := tracked_event_set (-1)\<rparr> in
            if \<not> ie_event_add env then init_fail env (-1) self
            else (True, self\<lparr>ri_listener := tracked_event_add True (ie_now env) (ri_listener self)\<rparr>, [])))"

section \<open>Connecting the relay\<close>

text \<open>
  \<open>connect\<close> is red_connect_relay: the bufferevent of the connection being made, or nothing.
  When the connection is made, the write callback of the relay type runs: \<open>writecb\<close>.
\<close>

definition redsocks_connect_relay :: "bufferevent option \<Rightarrow> redsocks_client \<Rightarrow> rc_result" where
  "redsocks_connect_relay connect c =
     (case connect of None \<Rightarrow> Dropped | Some b \<Rightarrow> Alive (c\<lparr>rc_relay := Some b\<rparr>))"

definition redsocks_relay_connected ::
  "bool \<Rightarrow> (redsocks_client \<Rightarrow> rc_result) \<Rightarrow> redsocks_client \<Rightarrow> rc_result" where
  "redsocks_relay_connected connected_ok writecb c = (if \<not> connected_ok then Dropped else writecb c)"

section \<open>Properties\<close>

lemma onexit_ok:
  "fst (redsocks_onexit config) = None \<Longrightarrow> 0 < min_backoff_ms config \<and> min_backoff_ms config < max_backoff_ms config"
  by (auto simp: redsocks_onexit_def Let_def word_neq_0_conv split: option.splits if_splits)

lemma clamp_bounds:
  fixes x :: "'a::linorder"
  assumes "lo < hi"
  shows "lo \<le> clamp_value x lo hi" "clamp_value x lo hi \<le> hi" "lo \<le> x \<Longrightarrow> x \<le> hi \<Longrightarrow> clamp_value x lo hi = x"
    "clamp_value x lo hi = max lo (min hi x)"
  using assms by (auto simp: clamp_value_def Let_def max_def min_def)

text \<open>
  C15. Back-off is sound: for an instance whose configuration was accepted, when accept runs
  out of descriptors the new back-off lies between the configured bounds, the timer's delay
  between 1 ms and the back-off (so the remainder is never taken by zero), and, the event
  calls succeeding, listening stops and the timer is set; and as long as twice the old
  back-off fits 16 bits, the new one is twice the old one plus one, clamped to the bounds.
\<close>

theorem redsocks_accept_backoff_bounds:
  assumes "fst (redsocks_onexit (ri_config self)) = None" "ae_accept env = Out_of_descriptors"
    and "ae_event_del env" "ae_event_add env"
    and "redsocks_accept_client env self = (self', acts)"
  shows "min_backoff_ms (ri_config self) \<le> accept_backoff_ms self' \<and>
    accept_backoff_ms self' \<le> max_backoff_ms (ri_config self) \<and>
    1 \<le> ri_backoff_delay self' \<and> ri_backoff_delay self' \<le> uint (accept_backoff_ms self') \<and>
    te_inserted (ri_listener self') = None \<and>
    te_inserted (ri_accept_backoff self') = Some (ae_now env) \<and> acts = [] \<and>
    (uint (accept_backoff_ms self) < 2 ^ 15 \<longrightarrow> uint (accept_backoff_ms self') =
       max (uint (min_backoff_ms (ri_config self)))
         (min (uint (max_backoff_ms (ri_config self))) (2 * uint (accept_backoff_ms self) + 1)))"
proof -
  let ?lo = "min_backoff_ms (ri_config self)" and ?hi = "max_backoff_ms (ri_config self)"
  define v where "v = (word_of_int (uint (accept_backoff_ms self) * 2 + 1) :: u16)"
  define ms where "ms = clamp_value v ?lo ?hi"
  have lohi: "0 < ?lo" "?lo < ?hi" using onexit_ok [OF assms(1)] by simp_all
  note cl = clamp_bounds [OF lohi(2), of v, folded ms_def]
  have "0 < ms" using lohi(1) cl(1) by (rule order_less_le_trans)
  then have pos: "0 < uint ms" by (simp add: word_less_def)
  have s': "accept_backoff_ms self' = ms" "ri_backoff_delay self' = int (ae_random env) mod uint ms + 1"
    "te_inserted (ri_listener self') = None" "te_inserted (ri_accept_backoff self') = Some (ae_now env)"
    "acts = []"
    using assms(2-5) by (auto simp: redsocks_accept_client_def accept_fail_def Let_def v_def ms_def
      tracked_event_add_def tracked_event_del_def)
  have mod: "0 \<le> int (ae_random env) mod uint ms" "int (ae_random env) mod uint ms < uint ms"
    using pos by simp_all
  have "uint ms = max (uint ?lo) (min (uint ?hi) (2 * uint (accept_backoff_ms self) + 1))"
    if small: "uint (accept_backoff_ms self) < 2 ^ 15"
  proof -
    have "0 \<le> uint (accept_backoff_ms self)" by simp
    then have "uint v = 2 * uint (accept_backoff_ms self) + 1"
      using small by (simp add: v_def uint_word_of_int del: of_int_add)
    then show ?thesis using cl(4) by (auto simp: max_def min_def word_le_def split: if_splits)
  qed
  then show ?thesis using s' cl(1,2) mod by auto
qed

definition default_instance :: "u16 \<Rightarrow> redsocks_instance" where
  "default_instance ms = \<lparr>ri_config = \<lparr>cfg_type = Some ''socks5'', min_backoff_ms = 100, max_backoff_ms = 60000\<rparr>,
     ri_listener = tracked_event_add True 0 (tracked_event_set 3), ri_accept_backoff = tracked_event_set (-1),
     ri_backoff_delay = 0, accept_backoff_ms = ms, ri_clients = []\<rparr>"

definition no_descriptors :: accept_env where
  "no_descriptors = \<lparr>ae_now = 1000, ae_accept = Out_of_descriptors, ae_random = 12345, ae_event_del = True,
     ae_event_add = True, ae_getsockname = True, ae_getdestaddr = True, ae_setsockopt = True, ae_calloc = True,
     ae_time = True, ae_bufferevent_new = True, ae_bufferevent_enable = True\<rparr>"

theorem redsocks_accept_backoff_bounds_witness:
  "\<exists>self'. redsocks_accept_client no_descriptors (default_instance 0) = (self', []) \<and>
     accept_backoff_ms self' \<le> 60000 \<and> 100 \<le> accept_backoff_ms self'"
proof -
  obtain self' acts where r: "redsocks_accept_client no_descriptors (default_instance 0) = (self', acts)"
    by fastforce
  have "fst (redsocks_onexit (ri_config (default_instance 0))) = None"
    by (simp add: default_instance_def redsocks_onexit_def relay_subsystems_def)
  from redsocks_accept_backoff_bounds [OF this _ _ _ r]
  show ?thesis using r by (simp add: no_descriptors_def default_instance_def)
qed


definition closed_fds :: "accept_act list \<Rightarrow> int list" where
  "closed_fds acts = List.map_filter (\<lambda>a. case a of Close_fd fd \<Rightarrow> Some fd | Connect_relay _ \<Rightarrow> None) acts"

lemma closed_fds_simps [simp]:
  "closed_fds [] = []" "closed_fds (Close_fd fd # acts) = fd # closed_fds acts"
  "closed_fds (Connect_relay fd # acts) = closed_fds acts"
  "closed_fds (acts @ acts') = closed_fds acts @ closed_fds acts'"
  by (simp_all add: closed_fds_def List.map_filter_def)

text \<open>
  C17. A descriptor that was accepted is never leaked and never closed twice, however the
  calls of the handler end: either it is owned by a new client of the instance and the relay
  is being connected for it, or it has been closed exactly once and the clients of the
  instance are those before.
\<close>

theorem redsocks_accept_client_owns_or_closes:
  assumes "ae_accept env = Accepted fd" "fd \<noteq> -1" "redsocks_accept_client env self = (self', acts)"
  shows "ri_clients self' = (fd, None) # ri_clients self \<and> acts = [Connect_relay fd] \<or>
    ri_clients self' = ri_clients self \<and> acts = [Close_fd fd]"
  using assms by (auto simp: redsocks_accept_client_def accept_fail_def redsocks_drop_client_def Let_def
    split: if_splits)

theorem redsocks_accept_client_owns_or_closes_witness:
  "ri_clients (fst (redsocks_accept_client (no_descriptors\<lparr>ae_accept := Accepted 7, ae_calloc := False\<rparr>)
      (default_instance 0))) = []"
  using redsocks_accept_client_owns_or_closes [of "no_descriptors\<lparr>ae_accept := Accepted 7, ae_calloc := False\<rparr>" 7
      "default_instance 0"]
  by (simp add: redsocks_accept_client_def accept_fail_def no_descriptors_def default_instance_def)

fun owned_fds :: "(int \<times> int option) list \<Rightarrow> int list" where
  "owned_fds [] = []"
| "owned_fds ((fd, r) # cs) = fd # (case r of Some fd' \<Rightarrow> [fd'] | None \<Rightarrow> []) @ owned_fds cs"

lemma drop_all_closes:
  "drop_all cs self = (self', acts) \<Longrightarrow>
   closed_fds acts = owned_fds cs \<and> ri_clients self' = fold remove1 cs (ri_clients self) \<and>
   ri_listener self' = ri_listener self \<and> ri_accept_backoff self' = ri_accept_backoff self"
proof (induction cs arbitrary: self self' acts)
  case Nil
  then show ?case by simp
next
  case (Cons c cs)
  obtain fd r where c: "c = (fd, r)" by fastforce
  obtain s1 a1 where s1: "drop_all cs (self\<lparr>ri_clients := remove1 c (ri_clients self)\<rparr>) = (s1, a1)" by fastforce
  then show ?case using Cons.prems Cons.IH [OF s1]
    by (auto simp: redsocks_drop_client_def c split: option.splits)
qed

lemma fold_remove1_self: "fold remove1 cs cs = []"
  by (induction cs) simp_all

text \<open>
  C18. Initialisation of an instance without clients either succeeds, with the listening
  descriptor owned by the inserted listener event and nothing closed, or fails with every
  descriptor it opened closed exactly once and the events cleared; and ending an instance
  closes exactly the descriptors of its clients and of its listener and leaves it without
  clients.
\<close>

theorem redsocks_instance_descriptors:
  assumes "ri_clients self = []" "\<not> te_initialized (ri_listener self)" "\<not> te_initialized (ri_accept_backoff self)"
    and "redsocks_init_instance env self = (ok, self', acts)"
    and "redsocks_fini_instance del_ok inst = (inst', acts')"
  shows "(if ok then ie_socket env \<noteq> -1 \<and> te_fd (ri_listener self') = ie_socket env \<and>
             te_inserted (ri_listener self') = Some (ie_now env) \<and> acts = []
          else closed_fds acts = (if ie_socket env = -1 then [] else [ie_socket env]) \<and>
             \<not> te_initialized (ri_listener self') \<and> \<not> te_initialized (ri_accept_backoff self')) \<and>
    ri_clients inst' = [] \<and> \<not> te_initialized (ri_listener inst') \<and> \<not> te_initialized (ri_accept_backoff inst') \<and>
    closed_fds acts' = owned_fds (ri_clients inst) @
      (if te_initialized (ri_listener inst) then [te_fd (ri_listener inst)] else [])"
proof -
  obtain i1 a1 where d: "drop_all (ri_clients inst) inst = (i1, a1)" by fastforce
  note dd = drop_all_closes [OF d]
  have "ri_clients inst' = [] \<and> \<not> te_initialized (ri_listener inst') \<and> \<not> te_initialized (ri_accept_backoff inst') \<and>
    closed_fds acts' = owned_fds (ri_clients inst) @
      (if te_initialized (ri_listener inst) then [te_fd (ri_listener inst)] else [])"
    using assms(5) d dd
    by (auto simp: redsocks_fini_instance_def no_event_def tracked_event_del_def fold_remove1_self Let_def
        split: if_splits)
  moreover have "if ok then ie_socket env \<noteq> -1 \<and> te_fd (ri_listener self') = ie_socket env \<and>
             te_inserted (ri_listener self') = Some (ie_now env) \<and> acts = []
          else closed_fds acts = (if ie_socket env = -1 then [] else [ie_socket env]) \<and>
             \<not> te_initialized (ri_listener self') \<and> \<not> te_initialized (ri_accept_backoff self')"
    using assms(1-4)
    by (auto simp: redsocks_init_instance_def init_fail_def redsocks_fini_instance_def no_event_def
        tracked_event_add_def tracked_event_set_def Let_def split: if_splits)
  ultimately show ?thesis by simp
qed

definition fresh_instance :: redsocks_instance where
  "fresh_instance = (default_instance 0)\<lparr>ri_listener := no_event, ri_accept_backoff := no_event\<rparr>"

definition bind_fails :: init_env where
  "bind_fails = \<lparr>ie_now = 5, ie_socket = 4, ie_setsockopt = True, ie_bind = False, ie_nonblock = True,
     ie_listen = True, ie_event_add = True, ie_event_del = True\<rparr>"

theorem redsocks_instance_descriptors_witness:
  "closed_fds (snd (snd (redsocks_init_instance bind_fails fresh_instance))) = [4]"
proof -
  obtain ok self' acts where i: "redsocks_init_instance bind_fails fresh_instance = (ok, self', acts)"
    using prod_cases3 by blast
  obtain inst' acts' where f: "redsocks_fini_instance True fresh_instance = (inst', acts')" by fastforce
  have "\<not> ok" using i by (auto simp: redsocks_init_instance_def bind_fails_def init_fail_def Let_def
    split: prod.splits)
  with redsocks_instance_descriptors [OF _ _ _ i f] have "closed_fds acts = [4]"
    by (simp add: fresh_instance_def default_instance_def no_event_def bind_fails_def)
  then show ?thesis by (simp add: i)
qed


end
