(* ===== verification/Redsocks_Socks.thy ===== *)
theory Redsocks_Socks
  imports Redsocks_Core Dialogue
begin

text \<open>
  socks5.c and socks4.c: the handshakes with a SOCKS proxy, run by redsocks on the
  bufferevent of the relay. The client's payload is what the C code keeps behind the
  redsocks_client structure. A callback ends with the handshake still running, with relaying
  started, with the client dropped, or with a failed assertion.

  The section on handshakes describes libevent's part: bytes arrive in chunks of any size,
  never past the read watermark, and output is written in chunks of any size. Its locale
  states what a handshake's callbacks promise and concludes that the handshake is exactly the
  parser of the proxy's byte stream that its specification describes; both protocols are
  instances.
\<close>

section \<open>Handshakes over a relay bufferevent\<close>

datatype 'p hs_result = Handshake redsocks_client 'p | Relaying redsocks_client | Hs_dropped | Hs_failed

definition hs_of :: "'p \<Rightarrow> rc_result \<Rightarrow> 'p hs_result" where
  "hs_of p r = (case r of Alive c \<Rightarrow> Handshake c p | Dropped \<Rightarrow> Hs_dropped | Invalid \<Rightarrow> Hs_failed)"

definition relay_input :: "redsocks_client \<Rightarrow> bytes" where
  "relay_input c = (case rc_relay c of Some b \<Rightarrow> bev_input b | None \<Rightarrow> [])"

definition set_relay_input :: "bytes \<Rightarrow> redsocks_client \<Rightarrow> redsocks_client" where
  "set_relay_input bs c = rc_upd Relay (\<lambda>b. b\<lparr>bev_input := bs\<rparr>) c"

section \<open>SOCKS 5\<close>

definition socks5_new :: int where "socks5_new = 0"
definition socks5_method_sent :: int where "socks5_method_sent = 1"
definition socks5_auth_sent :: int where "socks5_auth_sent = 2"
definition socks5_request_sent :: int where "socks5_request_sent = 3"
definition socks5_skip_domain :: int where "socks5_skip_domain = 4"
definition socks5_skip_address :: int where "socks5_skip_address = 5"

lemmas socks5_states = socks5_new_def socks5_method_sent_def socks5_auth_sent_def
  socks5_request_sent_def socks5_skip_domain_def socks5_skip_address_def

definition socks5_ver :: u8 where "socks5_ver = 5"
definition socks5_auth_none :: u8 where "socks5_auth_none = 0"
definition socks5_auth_password :: u8 where "socks5_auth_password = 2"
definition socks5_auth_invalid :: u8 where "socks5_auth_invalid = 255"
definition socks5_password_ver :: u8 where "socks5_password_ver = 1"
definition socks5_password_passed :: u8 where "socks5_password_passed = 0"
definition socks5_addrtype_ipv4 :: u8 where "socks5_addrtype_ipv4 = 1"
definition socks5_addrtype_domain :: u8 where "socks5_addrtype_domain = 3"
definition socks5_addrtype_ipv6 :: u8 where "socks5_addrtype_ipv6 = 4"
definition socks5_status_succeeded :: u8 where "socks5_status_succeeded = 0"
definition socks5_cmd_connect :: u8 where "socks5_cmd_connect = 1"

lemmas socks5_consts = socks5_ver_def socks5_auth_none_def socks5_auth_password_def
  socks5_auth_invalid_def socks5_password_ver_def socks5_password_passed_def
  socks5_addrtype_ipv4_def socks5_addrtype_domain_def socks5_addrtype_ipv6_def
  socks5_status_succeeded_def socks5_cmd_connect_def

text \<open>
  The payload, with the parts of the instance's configuration and of the client's addresses
  that the handshake reads: login, password and the destination (address and port as they
  are in memory, in network byte order).
\<close>

record socks5_client =
  do_password :: bool
  to_skip :: nat
  s5_login :: "bytes option"
  s5_password :: "bytes option"
  s5_dest_addr :: bytes
  s5_dest_port :: bytes

definition socks5_strstatus :: "string list" where
  "socks5_strstatus = [''ok'', ''server failure'', ''connection not allowed by ruleset'',
     ''network unreachable'', ''host unreachable'', ''connection refused'', ''TTL expired'',
     ''command not supported'', ''address type not supported'']"

definition socks5_status_to_str :: "int \<Rightarrow> string" where
  "socks5_status_to_str socks5_status =
     (if 0 \<le> socks5_status \<and> socks5_status < int (length socks5_strstatus)
      then socks5_strstatus ! nat socks5_status else [])"

definition socks5_is_valid_cred :: "bytes option \<Rightarrow> bytes option \<Rightarrow> bool" where
  "socks5_is_valid_cred login password =
     (case (login, password) of
        (Some l, Some p) \<Rightarrow> if length l > 255 then False else if length p > 255 then False else True
      | _ \<Rightarrow> False)"

definition socks5_client_init ::
  "redsocks_client \<Rightarrow> socks5_client \<Rightarrow> redsocks_client \<times> socks5_client" where
  "socks5_client_init c p =
     (c\<lparr>rc_state := socks5_new\<rparr>, p\<lparr>do_password := socks5_is_valid_cred (s5_login p) (s5_password p)\<rparr>)"

definition socks5_mkmethods_plain :: "bool \<Rightarrow> bytes" where
  "socks5_mkmethods_plain pw =
     [socks5_ver, 1 + (if pw then 1 else 0), socks5_auth_none] @ (if pw then [socks5_auth_password] else [])"

definition socks5_mkmethods :: "socks5_client \<Rightarrow> bytes option" where
  "socks5_mkmethods p = Some (socks5_mkmethods_plain (do_password p))"

definition socks5_mkpassword_plain :: "bytes \<Rightarrow> bytes \<Rightarrow> bytes" where
  "socks5_mkpassword_plain login password =
     (let ulen = length login; plen = length password in
      [socks5_password_ver, of_nat ulen] @ login @ [of_nat plen] @ password)"

text \<open>A missing login or password would be a null pointer given to strlen.\<close>

definition socks5_mkpassword :: "socks5_client \<Rightarrow> bytes option" where
  "socks5_mkpassword p =
     (case (s5_login p, s5_password p) of
        (Some l, Some pw) \<Rightarrow> Some (socks5_mkpassword_plain l pw) | _ \<Rightarrow> None)"

definition socks5_mkcommand_plain :: "u8 \<Rightarrow> bytes \<Rightarrow> bytes \<Rightarrow> bytes" where
  "socks5_mkcommand_plain socks5_cmd addr port =
     [socks5_ver, socks5_cmd, 0, socks5_addrtype_ipv4] @ addr @ port"

definition socks5_mkconnect :: "socks5_client \<Rightarrow> bytes option" where
  "socks5_mkconnect p = Some (socks5_mkcommand_plain socks5_cmd_connect (s5_dest_addr p) (s5_dest_port p))"

definition socks5_write_cb :: "redsocks_client \<Rightarrow> socks5_client \<Rightarrow> socks5_client hs_result" where
  "socks5_write_cb c p =
     (if rc_state c = socks5_new
      then hs_of p (redsocks_write_helper c (Some (socks5_mkmethods p)) socks5_method_sent 2)
      else Handshake c p)"

definition socks5_is_known_auth_method :: "u8 \<Rightarrow> u8 \<Rightarrow> bool \<Rightarrow> string option" where
  "socks5_is_known_auth_method ver meth pw =
     (if ver \<noteq> socks5_ver then Some ''Socks5 server reported unexpected auth methods reply version...''
      else if meth = socks5_auth_invalid then Some ''Socks5 server refused all our auth methods.''
      else if meth \<noteq> socks5_auth_none \<and> \<not> (meth = socks5_auth_password \<and> pw)
      then Some ''Socks5 server requested unexpected auth method...''
      else None)"

definition socks5_read_auth_methods :: "redsocks_client \<Rightarrow> socks5_client \<Rightarrow> socks5_client hs_result" where
  "socks5_read_auth_methods c p =
     (case redsocks_read_expected (relay_input c) sizes_equal 2 of
        None \<Rightarrow> Hs_dropped
      | Some (reply, rest) \<Rightarrow>
          (let c = set_relay_input rest c; ver = reply ! 0; meth = reply ! 1;
               error = socks5_is_known_auth_method ver meth (do_password p) in
           if error \<noteq> None then Hs_dropped
           else if meth = socks5_auth_none
           then hs_of p (redsocks_write_helper c (Some (socks5_mkconnect p)) socks5_request_sent 4)
           else if meth = socks5_auth_password
           then (case socks5_mkpassword p of
                   None \<Rightarrow> Hs_failed
                 | Some msg \<Rightarrow> hs_of p (redsocks_write_helper c (Some (Some msg)) socks5_auth_sent 2))
           else Handshake c p))"

definition socks5_read_auth_reply :: "redsocks_client \<Rightarrow> socks5_client \<Rightarrow> socks5_client hs_result" where
  "socks5_read_auth_reply c p =
     (case redsocks_read_expected (relay_input c) sizes_equal 2 of
        None \<Rightarrow> Hs_dropped
      | Some (reply, rest) \<Rightarrow>
          (let c = set_relay_input rest c in
           if reply ! 0 \<noteq> socks5_password_ver then Hs_dropped
           else if reply ! 1 = socks5_password_passed
           then hs_of p (redsocks_write_helper c (Some (socks5_mkconnect p)) socks5_request_sent 4)
           else Hs_dropped))"

definition socks5_read_reply :: "redsocks_client \<Rightarrow> socks5_client \<Rightarrow> socks5_client hs_result" where
  "socks5_read_reply c p =
     (case redsocks_read_expected (relay_input c) sizes_greater_equal 4 of
        None \<Rightarrow> Hs_dropped
      | Some (reply, rest) \<Rightarrow>
          (let c = set_relay_input rest c; addrtype = reply ! 3 in
           if reply ! 0 \<noteq> socks5_ver then Hs_dropped
           else if reply ! 1 = socks5_status_succeeded
           then (if addrtype = socks5_addrtype_ipv4
                 then hs_of (p\<lparr>to_skip := 6\<rparr>) (redsocks_write_helper c None socks5_skip_address 6)
                 else if addrtype = socks5_addrtype_ipv6
                 then hs_of (p\<lparr>to_skip := 18\<rparr>) (redsocks_write_helper c None socks5_skip_address 18)
                 else if addrtype = socks5_addrtype_domain
                 then hs_of p (redsocks_write_helper c None socks5_skip_domain 1)
                 else Hs_dropped)
           else Hs_dropped))"

definition socks5_read_cb :: "redsocks_client \<Rightarrow> socks5_client \<Rightarrow> socks5_client hs_result" where
  "socks5_read_cb c p =
     (if rc_state c = socks5_method_sent then socks5_read_auth_methods c p
      else if rc_state c = socks5_auth_sent then socks5_read_auth_reply c p
      else if rc_state c = socks5_request_sent then socks5_read_reply c p
      else if rc_state c = socks5_skip_domain then
        (case redsocks_read_expected (relay_input c) sizes_greater_equal 1 of
           None \<Rightarrow> Hs_dropped
         | Some (data, rest) \<Rightarrow>
             (let c = set_relay_input rest c; size = data ! 0; p = p\<lparr>to_skip := unat size + 2\<rparr>
              in hs_of p (redsocks_write_helper c None socks5_skip_address (to_skip p))))
      else if rc_state c = socks5_skip_address then
        (case redsocks_read_expected (relay_input c) sizes_greater_equal (to_skip p) of
           None \<Rightarrow> Hs_dropped
         | Some (data, rest) \<Rightarrow> Relaying (redsocks_start_relay (set_relay_input rest c)))
      else Hs_dropped)"

section \<open>SOCKS 4\<close>

definition socks4_new :: int where "socks4_new = 0"
definition socks4_request_sent :: int where "socks4_request_sent = 1"
definition socks4_reply_came :: int where "socks4_reply_came = 2"

lemmas socks4_states = socks4_new_def socks4_request_sent_def socks4_reply_came_def

definition socks4_ver :: u8 where "socks4_ver = 4"
definition socks4_cmd_connect :: u8 where "socks4_cmd_connect = 1"
definition socks4_status_ok :: u8 where "socks4_status_ok = 90"

lemmas socks4_consts = socks4_ver_def socks4_cmd_connect_def socks4_status_ok_def

text \<open>socks4 keeps no payload; this is what it reads of configuration and destination.\<close>

record socks4_client =
  s4_login :: "bytes option"
  s4_dest_addr :: bytes
  s4_dest_port :: bytes

definition socks4_client_init :: "redsocks_client \<Rightarrow> redsocks_client" where
  "socks4_client_init c = c\<lparr>rc_state := socks4_new\<rparr>"

definition socks4_read_cb :: "redsocks_client \<Rightarrow> socks4_client \<Rightarrow> socks4_client hs_result" where
  "socks4_read_cb c p =
     (if \<not> rc_state c \<ge> socks4_request_sent then Hs_failed
      else if rc_state c = socks4_request_sent then
        (case redsocks_read_expected (relay_input c) sizes_greater_equal 8 of
           None \<Rightarrow> Hs_dropped
         | Some (reply, rest) \<Rightarrow>
             (let c = (set_relay_input rest c)\<lparr>rc_state := socks4_reply_came\<rparr> in
              if reply ! 0 \<noteq> 0 then Hs_dropped
              else if reply ! 1 = socks4_status_ok then Relaying (redsocks_start_relay c)
              else Hs_dropped))
      else Handshake c p)"

definition socks4_mkconnect :: "socks4_client \<Rightarrow> bytes option" where
  "socks4_mkconnect p =
     (let username = (case s4_login p of Some l \<Rightarrow> l | None \<Rightarrow> [])
      in Some ([socks4_ver, socks4_cmd_connect] @ s4_dest_port p @ s4_dest_addr p @ username @ [0]))"

definition socks4_write_cb :: "redsocks_client \<Rightarrow> socks4_client \<Rightarrow> socks4_client hs_result" where
  "socks4_write_cb c p =
     (if rc_state c = socks4_new
      then hs_of p (redsocks_write_helper c (Some (socks4_mkconnect p)) socks4_request_sent 8)
      else if rc_state c \<ge> socks4_request_sent
      then Handshake (rc_upd Relay (\<lambda>b. b\<lparr>bev_write_on := False\<rparr>) c) p
      else Handshake c p)"


section \<open>The handshake and the two streams\<close>

text \<open>
  \<open>HsRead n\<close>: up to \<open>n\<close> of the pending bytes of the proxy arrive, no more than the read
  watermark allows; the read callback runs once the input has reached the low watermark.
  \<open>HsWrite n\<close>: the socket takes up to \<open>n\<close> bytes of the output; the write callback runs when
  nothing is left. Once relaying has started, or the client is gone, nothing happens here.
\<close>

datatype hs_event = HsRead nat | HsWrite nat

record 'p hs_env =
  hs_res :: "'p hs_result"
  hs_pending :: bytes
  hs_rx :: bytes
  hs_tx :: bytes

definition read_room :: "bufferevent \<Rightarrow> nat \<Rightarrow> nat" where
  "read_room b n = (if wm_read_high b = 0 then n else min n (wm_read_high b - length (bev_input b)))"

fun hs_step ::
  "(redsocks_client \<Rightarrow> 'p \<Rightarrow> 'p hs_result) \<Rightarrow> (redsocks_client \<Rightarrow> 'p \<Rightarrow> 'p hs_result) \<Rightarrow>
   hs_event \<Rightarrow> 'p hs_env \<Rightarrow> 'p hs_env" where
  "hs_step readcb writecb (HsRead n) env =
     (case hs_res env of
        Handshake c p \<Rightarrow>
          (case rc_relay c of
             None \<Rightarrow> env
           | Some b \<Rightarrow>
               (let d = take (read_room b n) (hs_pending env); c' = set_relay_input (bev_input b @ d) c in
                if \<not> bev_read_on b \<or> d = [] then env
                else env\<lparr>hs_res := (if wm_read_low b \<le> length (bev_input b @ d) then readcb c' p else Handshake c' p),
                         hs_pending := drop (length d) (hs_pending env), hs_rx := hs_rx env @ d\<rparr>))
      | _ \<Rightarrow> env)"
| "hs_step readcb writecb (HsWrite n) env =
     (case hs_res env of
        Handshake c p \<Rightarrow>
          (case rc_relay c of
             None \<Rightarrow> env
           | Some b \<Rightarrow>
               (let c' = rc_upd Relay (\<lambda>b. b\<lparr>bev_output := drop n (bev_output b)\<rparr>) c in
                if \<not> bev_write_on b then env
                else env\<lparr>hs_res := (if length (bev_output b) \<le> n then writecb c' p else Handshake c' p),
                         hs_tx := hs_tx env @ take n (bev_output b)\<rparr>))
      | _ \<Rightarrow> env)"

fun reading :: "hs_event \<Rightarrow> bool" where
  "reading (HsRead n) = (0 < n)"
| "reading (HsWrite n) = False"

lemma hs_step_stream: "hs_rx (hs_step r w e env) @ hs_pending (hs_step r w e env) = hs_rx env @ hs_pending env"
proof (cases e)
  case (HsRead n)
  show ?thesis unfolding HsRead
    by (cases "hs_res env") (auto simp: Let_def min_def split: option.split simp flip: append_take_drop_id [of "length (hs_pending env)"])
qed (auto simp: Let_def split: hs_result.split option.split)

lemma hs_step_final: "hs_res (hs_step r w e env) = Handshake c p \<Longrightarrow> \<exists>c p. hs_res env = Handshake c p"
  by (cases e; cases "hs_res env") auto

lemma hs_fold_final:
  "hs_res (fold (hs_step r w) es env) = Handshake c p \<Longrightarrow> \<exists>c p. hs_res env = Handshake c p"
proof (induction es arbitrary: env)
  case (Cons e es)
  then obtain c p where "hs_res (hs_step r w e env) = Handshake c p" by fastforce
  then show ?case by (rule hs_step_final)
qed auto

text \<open>
  What a read callback owes when exactly the needed bytes are there: it consumes them, says
  what the dialogue says next, and asks for as much as the dialogue needs next.
\<close>

definition read_ok ::
  "(int \<Rightarrow> 'p \<Rightarrow> nat) \<Rightarrow> (int \<Rightarrow> 'p \<Rightarrow> bool) \<Rightarrow> (int \<Rightarrow> 'p \<Rightarrow> bytes \<Rightarrow> bytes \<times> dialogue_end) \<Rightarrow>
   redsocks_client \<Rightarrow> 'p \<Rightarrow> bufferevent \<Rightarrow> 'p hs_result \<Rightarrow> bool" where
  "read_ok need valid dialogue c p b r =
     (case r of
        Handshake c' p' \<Rightarrow> (\<exists>b' m. rc_relay c' = Some b' \<and> valid (rc_state c') p' \<and> bev_input b' = [] \<and>
          bev_read_on b' \<and> wm_read_low b' = need (rc_state c') p' \<and> wm_read_high b' = need (rc_state c') p' \<and>
          bev_output b' = bev_output b @ m \<and>
          (\<forall>bs. dialogue (rc_state c) p (bev_input b @ bs) = says m (dialogue (rc_state c') p' bs)))
      | Relaying c' \<Rightarrow> (\<exists>b'. rc_relay c' = Some b' \<and> bev_input b' = [] \<and> bev_output b' = bev_output b \<and>
          (\<forall>bs. dialogue (rc_state c) p (bev_input b @ bs) = ([], Open bs)))
      | Hs_dropped \<Rightarrow> (\<forall>bs. dialogue (rc_state c) p (bev_input b @ bs) = ([], Refused))
      | Hs_failed \<Rightarrow> False)"

lemma read_ok_simps:
  "read_ok need valid dialogue c p b Hs_dropped \<longleftrightarrow> (\<forall>bs. dialogue (rc_state c) p (bev_input b @ bs) = ([], Refused))"
  "read_ok need valid dialogue c p b (Relaying c') \<longleftrightarrow>
     (\<exists>b'. rc_relay c' = Some b' \<and> bev_input b' = [] \<and> bev_output b' = bev_output b \<and>
          (\<forall>bs. dialogue (rc_state c) p (bev_input b @ bs) = ([], Open bs)))"
  "read_ok need valid dialogue c p b (Handshake c' p') \<longleftrightarrow>
     (\<exists>b' m. rc_relay c' = Some b' \<and> valid (rc_state c') p' \<and> bev_input b' = [] \<and>
          bev_read_on b' \<and> wm_read_low b' = need (rc_state c') p' \<and> wm_read_high b' = need (rc_state c') p' \<and>
          bev_output b' = bev_output b @ m \<and>
          (\<forall>bs. dialogue (rc_state c) p (bev_input b @ bs) = says m (dialogue (rc_state c') p' bs)))"
  by (simp_all add: read_ok_def)

text \<open>
  What an observer of the handshake sees: the session's view of the bytes read so far is the
  messages written or still buffered, and the state the session is in.
\<close>

definition follows :: "(bytes \<Rightarrow> bytes \<times> dialogue_end) \<Rightarrow> 'p hs_env \<Rightarrow> bool" where
  "follows session env =
     (case hs_res env of
        Handshake c p \<Rightarrow> (\<exists>b. rc_relay c = Some b \<and> session (hs_rx env) = (hs_tx env @ bev_output b, Waiting))
      | Relaying c \<Rightarrow> (\<exists>b. rc_relay c = Some b \<and> bev_input b = [] \<and>
          session (hs_rx env) = (hs_tx env @ bev_output b, Open []))
      | Hs_dropped \<Rightarrow> snd (session (hs_rx env)) = Refused
      | Hs_failed \<Rightarrow> False)"

locale handshake =
  fixes readcb writecb :: "redsocks_client \<Rightarrow> 'p \<Rightarrow> 'p hs_result"
    and need :: "int \<Rightarrow> 'p \<Rightarrow> nat" and valid :: "int \<Rightarrow> 'p \<Rightarrow> bool"
    and dialogue :: "int \<Rightarrow> 'p \<Rightarrow> bytes \<Rightarrow> bytes \<times> dialogue_end"
  assumes need_pos: "valid s p \<Longrightarrow> 0 < need s p"
    and waits: "valid s p \<Longrightarrow> length bs < need s p \<Longrightarrow> dialogue s p bs = ([], Waiting)"
    and reads: "valid (rc_state c) p \<Longrightarrow> rc_relay c = Some b \<Longrightarrow> length (bev_input b) = need (rc_state c) p \<Longrightarrow>
      bev_read_on b \<Longrightarrow>
      read_ok need valid dialogue c p b (readcb c p)"
    and writes: "valid (rc_state c) p \<Longrightarrow> rc_relay c = Some b \<Longrightarrow>
      \<exists>w. writecb c p = Handshake (c\<lparr>rc_relay := Some (b\<lparr>bev_write_on := w\<rparr>)\<rparr>) p"
begin

fun hs_inv :: "(bytes \<Rightarrow> bytes \<times> dialogue_end) \<Rightarrow> 'p hs_env \<Rightarrow> bool" where
  "hs_inv session env = (case hs_res env of
     Handshake c p \<Rightarrow> (case rc_relay c of None \<Rightarrow> False | Some b \<Rightarrow>
       valid (rc_state c) p \<and> bev_read_on b \<and> wm_read_low b = need (rc_state c) p \<and>
       wm_read_high b = need (rc_state c) p \<and> length (bev_input b) < need (rc_state c) p \<and>
       (\<forall>bs. session (hs_rx env @ bs) =
          says (hs_tx env @ bev_output b) (dialogue (rc_state c) p (bev_input b @ bs))))
   | Relaying c \<Rightarrow> (case rc_relay c of None \<Rightarrow> False | Some b \<Rightarrow>
       bev_input b = [] \<and> (\<forall>bs. session (hs_rx env @ bs) = (hs_tx env @ bev_output b, Open bs)))
   | Hs_dropped \<Rightarrow> (\<exists>m. \<forall>bs. session (hs_rx env @ bs) = (m, Refused))
   | Hs_failed \<Rightarrow> False)"

declare hs_inv.simps [simp del]

lemma hs_inv_read:
  assumes inv: "hs_inv session env"
  shows "hs_inv session (hs_step readcb writecb (HsRead n) env)"
proof (cases "\<exists>c p. hs_res env = Handshake c p")
  case False
  then show ?thesis using inv by (cases "hs_res env") auto
next
  case True
  then obtain c p where c: "hs_res env = Handshake c p" by blast
  obtain b where b: "rc_relay c = Some b" and v: "valid (rc_state c) p" and on: "bev_read_on b"
    and wm: "wm_read_low b = need (rc_state c) p" "wm_read_high b = need (rc_state c) p"
    and len: "length (bev_input b) < need (rc_state c) p"
    and dlg: "\<And>bs. session (hs_rx env @ bs) =
          says (hs_tx env @ bev_output b) (dialogue (rc_state c) p (bev_input b @ bs))"
    using inv c by (auto simp: hs_inv.simps split: option.splits)
  define d where "d = take (read_room b n) (hs_pending env)"
  define c' where "c' = set_relay_input (bev_input b @ d) c"
  define b' where "b' = b\<lparr>bev_input := bev_input b @ d\<rparr>"
  have c': "rc_relay c' = Some b'" "rc_state c' = rc_state c"
    using b by (simp_all add: c'_def b'_def set_relay_input_def)
  have dl: "length (bev_input b) + length d \<le> need (rc_state c) p"
    using wm(2) len need_pos [OF v] by (simp add: d_def read_room_def)
  show ?thesis
  proof (cases "d = []")
    case True
    then have "hs_step readcb writecb (HsRead n) env = env"
      using c b by (simp add: Let_def flip: d_def)
    then show ?thesis using inv by simp
  next
    case False
    define env' where "env' = hs_step readcb writecb (HsRead n) env"
    have e': "env' = env\<lparr>hs_res := (if wm_read_low b \<le> length (bev_input b @ d) then readcb c' p else Handshake c' p),
        hs_pending := drop (length d) (hs_pending env), hs_rx := hs_rx env @ d\<rparr>"
      using c b on False by (simp add: env'_def c'_def Let_def flip: d_def)
    have dlg': "session (hs_rx env' @ bs) =
          says (hs_tx env @ bev_output b) (dialogue (rc_state c) p (bev_input b' @ bs))" for bs
      using dlg [of "d @ bs"] by (simp add: e' b'_def)
    show ?thesis
    proof (cases "wm_read_low b \<le> length (bev_input b @ d)")
      case True
      then have full: "length (bev_input b') = need (rc_state c') p" using dl wm c' by (simp add: b'_def)
      have r: "hs_res env' = readcb c' p" "hs_tx env' = hs_tx env" using True by (simp_all add: e')
      have v': "valid (rc_state c') p" "bev_read_on b'" using v c' on by (simp_all add: b'_def)
      note R = reads [OF v'(1) c'(1) full v'(2), unfolded read_ok_def]
      have out: "bev_output b' = bev_output b" by (simp add: b'_def)
      show ?thesis
      proof (cases "readcb c' p")
        case (Handshake c2 p2)
        then obtain b2 m where b2: "rc_relay c2 = Some b2" "valid (rc_state c2) p2" "bev_input b2 = []"
          "bev_read_on b2" "wm_read_low b2 = need (rc_state c2) p2" "wm_read_high b2 = need (rc_state c2) p2"
          "bev_output b2 = bev_output b' @ m"
          "\<And>bs. dialogue (rc_state c') p (bev_input b' @ bs) = says m (dialogue (rc_state c2) p2 bs)"
          using R by auto
        then show ?thesis using r Handshake dlg' out c'(2) need_pos [OF b2(2)]
          unfolding env'_def [symmetric] by (simp add: hs_inv.simps)
      next
        case (Relaying c2)
        then show ?thesis using R r dlg' out c'(2) unfolding env'_def [symmetric] by (auto simp: hs_inv.simps)
      next
        case Hs_dropped
        then show ?thesis using R r dlg' c'(2) unfolding env'_def [symmetric] by (auto simp: hs_inv.simps)
      next
        case Hs_failed
        then show ?thesis using R by simp
      qed
    next
      case F: False
      then have r: "hs_res env' = Handshake c' p" "hs_tx env' = hs_tx env" by (simp_all add: e')
      have b': "bev_read_on b'" "wm_read_low b' = wm_read_low b" "wm_read_high b' = wm_read_high b"
        "length (bev_input b') < need (rc_state c) p" "bev_output b' = bev_output b"
        using on F wm by (simp_all add: b'_def)
      show ?thesis using r c' v b' wm dlg' unfolding env'_def [symmetric] by (simp add: hs_inv.simps)
    qed
  qed
qed

lemma hs_inv_write:
  assumes inv: "hs_inv session env"
  shows "hs_inv session (hs_step readcb writecb (HsWrite n) env)"
proof (cases "\<exists>c p. hs_res env = Handshake c p")
  case False
  then show ?thesis using inv by (cases "hs_res env") auto
next
  case True
  then obtain c p where c: "hs_res env = Handshake c p" by blast
  obtain b where b: "rc_relay c = Some b" and v: "valid (rc_state c) p"
    using inv c by (auto simp: hs_inv.simps split: option.splits)
  define b' where "b' = b\<lparr>bev_output := drop n (bev_output b)\<rparr>"
  define c' where "c' = rc_upd Relay (\<lambda>b. b\<lparr>bev_output := drop n (bev_output b)\<rparr>) c"
  have c': "rc_relay c' = Some b'" "rc_state c' = rc_state c"
    using b by (simp_all add: c'_def b'_def)
  obtain w where w: "writecb c' p = Handshake (c'\<lparr>rc_relay := Some (b'\<lparr>bev_write_on := w\<rparr>)\<rparr>) p"
    using writes [OF _ c'(1)] v c'(2) by metis
  show ?thesis
  proof (cases "bev_write_on b")
    case True
    then have e: "hs_step readcb writecb (HsWrite n) env =
        env\<lparr>hs_res := (if length (bev_output b) \<le> n then writecb c' p else Handshake c' p),
            hs_tx := hs_tx env @ take n (bev_output b)\<rparr>"
      using c b by (simp add: c'_def Let_def)
    show ?thesis unfolding e using inv c b c' w
      by (cases "length (bev_output b) \<le> n") (simp_all add: hs_inv.simps b'_def)
  next
    case False
    then have "hs_step readcb writecb (HsWrite n) env = env" using c b by (simp add: Let_def)
    then show ?thesis using inv by simp
  qed
qed

lemma hs_inv_run: "hs_inv session env \<Longrightarrow> hs_inv session (fold (hs_step readcb writecb) es env)"
proof (induction es arbitrary: env)
  case (Cons e es)
  then have "hs_inv session (hs_step readcb writecb e env)"
    by (cases e) (simp_all only: hs_inv_read hs_inv_write)
  then show ?case using Cons.IH by simp
qed simp

lemma hs_run:
  assumes "hs_inv session env" and "env' = fold (hs_step readcb writecb) es env"
  shows "follows session env'"
proof -
  have inv: "hs_inv session env'" using hs_inv_run [OF assms(1)] assms(2) by simp
  show ?thesis
  proof (cases "hs_res env'")
    case (Handshake c p)
    then obtain b where b: "rc_relay c = Some b" "valid (rc_state c) p" "length (bev_input b) < need (rc_state c) p"
      "\<And>bs. session (hs_rx env' @ bs) =
          says (hs_tx env' @ bev_output b) (dialogue (rc_state c) p (bev_input b @ bs))"
      using inv by (auto simp: hs_inv.simps split: option.splits)
    then show ?thesis using Handshake b(4) [of "[]"] waits [OF b(2,3)] by (simp add: follows_def)
  next
    case (Relaying c)
    then obtain b where b: "rc_relay c = Some b" "bev_input b = []"
      "\<And>bs. session (hs_rx env' @ bs) = (hs_tx env' @ bev_output b, Open bs)"
      using inv by (auto simp: hs_inv.simps split: option.splits)
    then show ?thesis using Relaying b(3) [of "[]"] by (simp add: follows_def)
  next
    case Hs_dropped
    then obtain m where "\<And>bs. session (hs_rx env' @ bs) = (m, Refused)"
      using inv by (auto simp: hs_inv.simps)
    from this [of "[]"] show ?thesis using Hs_dropped by (simp add: follows_def)
  next
    case Hs_failed
    then show ?thesis using inv by (simp add: hs_inv.simps)
  qed
qed

lemma hs_progress:
  assumes inv: "hs_inv session env" and c: "hs_res env = Handshake c p" and n: "reading e" and p: "hs_pending env \<noteq> []"
  shows "length (hs_pending (hs_step readcb writecb e env)) < length (hs_pending env)"
proof -
  obtain n where e: "e = HsRead n" "0 < n" using n by (cases e) auto
  obtain b where b: "rc_relay c = Some b" "bev_read_on b" "wm_read_high b = need (rc_state c) p"
    "length (bev_input b) < need (rc_state c) p"
    using inv c by (auto simp: hs_inv.simps split: option.splits)
  then have "0 < read_room b n" using e by (simp add: read_room_def)
  then show ?thesis using c b p e by (auto simp: Let_def)
qed

lemma hs_consumes:
  assumes "hs_inv session env" and "hs_res (fold (hs_step readcb writecb) es env) = Handshake c p"
    and "length (hs_pending env) \<le> length (filter reading es)"
  shows "hs_rx (fold (hs_step readcb writecb) es env) = hs_rx env @ hs_pending env"
  using assms
proof (induction es arbitrary: env)
  case Nil
  then show ?case by simp
next
  case (Cons e es)
  let ?env = "hs_step readcb writecb e env"
  have fin: "hs_res (fold (hs_step readcb writecb) es ?env) = Handshake c p" using Cons.prems(2) by simp
  obtain c1 p1 where c1: "hs_res env = Handshake c1 p1" using hs_fold_final [OF Cons.prems(2)] by blast
  have inv: "hs_inv session ?env" using Cons.prems(1) by (cases e) (simp_all only: hs_inv_read hs_inv_write)
  have str: "hs_rx ?env @ hs_pending ?env = hs_rx env @ hs_pending env" by (rule hs_step_stream)
  have "length (hs_pending ?env) \<le> length (filter reading es)"
  proof (cases "reading e \<and> hs_pending env \<noteq> []")
    case True
    then show ?thesis using hs_progress [OF Cons.prems(1) c1, of e] Cons.prems(3) by simp
  next
    case False
    have "length (hs_rx env) \<le> length (hs_rx ?env)"
      by (cases e; cases "hs_res env") (auto simp: Let_def split: option.split)
    then have "length (hs_pending ?env) \<le> length (hs_pending env)"
      using arg_cong [OF str, of length] by simp
    then show ?thesis using False Cons.prems(3) by auto
  qed
  from Cons.IH [OF inv fin this] str show ?case by simp
qed

lemma hs_finishes:
  assumes "hs_inv session env" "hs_rx env = []" "snd (session (hs_pending env)) \<noteq> Waiting"
    and "length (hs_pending env) \<le> length (filter reading es)"
  shows "\<not> (\<exists>c p. hs_res (fold (hs_step readcb writecb) es env) = Handshake c p)"
proof (intro notI, elim exE)
  fix c p assume h: "hs_res (fold (hs_step readcb writecb) es env) = Handshake c p"
  from hs_run [OF assms(1) refl, of es] h hs_consumes [OF assms(1) h assms(4)] assms(2,3)
  show False by (auto simp: follows_def)
qed

end


section \<open>The SOCKS 5 session\<close>

text \<open>
  RFC 1928 and 1929 from the client's side, for a client that offers no authentication and,
  with credentials, user name and password.
\<close>

definition s5_skip :: "nat \<Rightarrow> bytes \<Rightarrow> bytes \<times> dialogue_end" where
  "s5_skip n bs = ([], if length bs < n then Waiting else Open (drop n bs))"

definition s5_domain :: "bytes \<Rightarrow> bytes \<times> dialogue_end" where
  "s5_domain bs = (case bs of [] \<Rightarrow> ([], Waiting) | len # bs \<Rightarrow> s5_skip (unat len + 2) bs)"

definition s5_reply :: "bytes \<Rightarrow> bytes \<times> dialogue_end" where
  "s5_reply bs = (case bs of
     ver # rep # rsv # atyp # bs \<Rightarrow>
       if ver \<noteq> 5 \<or> rep \<noteq> 0 then ([], Refused)
       else if atyp = 1 then s5_skip (4 + 2) bs
       else if atyp = 4 then s5_skip (16 + 2) bs
       else if atyp = 3 then s5_domain bs
       else ([], Refused)
   | _ \<Rightarrow> ([], Waiting))"

definition s5_request :: "socks5_client \<Rightarrow> bytes \<Rightarrow> bytes \<times> dialogue_end" where
  "s5_request p bs = says ([5, 1, 0, 1] @ s5_dest_addr p @ s5_dest_port p) (s5_reply bs)"

definition s5_auth :: "socks5_client \<Rightarrow> bytes \<Rightarrow> bytes \<times> dialogue_end" where
  "s5_auth p bs = (case bs of
     ver # status # bs \<Rightarrow> if ver = 1 \<and> status = 0 then s5_request p bs else ([], Refused)
   | _ \<Rightarrow> ([], Waiting))"

definition s5_methods :: "socks5_client \<Rightarrow> bytes \<Rightarrow> bytes \<times> dialogue_end" where
  "s5_methods p bs = (case bs of
     ver # meth # bs \<Rightarrow>
       if ver \<noteq> 5 then ([], Refused)
       else if meth = 0 then s5_request p bs
       else if meth = 2 then
         (case (s5_login p, s5_password p) of
            (Some l, Some pw) \<Rightarrow>
              if length l \<le> 255 \<and> length pw \<le> 255
              then says ([1, of_nat (length l)] @ l @ [of_nat (length pw)] @ pw) (s5_auth p bs)
              else ([], Refused)
          | _ \<Rightarrow> ([], Refused))
       else ([], Refused)
   | _ \<Rightarrow> ([], Waiting))"

definition socks5_session :: "socks5_client \<Rightarrow> bytes \<Rightarrow> bytes \<times> dialogue_end" where
  "socks5_session p bs =
     says (if socks5_is_valid_cred (s5_login p) (s5_password p) then [5, 2, 0, 2] else [5, 1, 0]) (s5_methods p bs)"

text \<open>The specification by state, and what the callbacks rely on.\<close>

definition socks5_dialogue :: "int \<Rightarrow> socks5_client \<Rightarrow> bytes \<Rightarrow> bytes \<times> dialogue_end" where
  "socks5_dialogue s p =
     (if s = socks5_method_sent then s5_methods p else if s = socks5_auth_sent then s5_auth p
      else if s = socks5_request_sent then s5_reply else if s = socks5_skip_domain then s5_domain
      else s5_skip (to_skip p))"

definition socks5_need :: "int \<Rightarrow> socks5_client \<Rightarrow> nat" where
  "socks5_need s p =
     (if s = socks5_method_sent then 2 else if s = socks5_auth_sent then 2
      else if s = socks5_request_sent then 4 else if s = socks5_skip_domain then 1 else to_skip p)"

definition socks5_valid :: "int \<Rightarrow> socks5_client \<Rightarrow> bool" where
  "socks5_valid s p \<longleftrightarrow> s \<in> {socks5_method_sent..socks5_skip_address} \<and>
     (s = socks5_skip_address \<longrightarrow> 0 < to_skip p) \<and>
     do_password p = socks5_is_valid_cred (s5_login p) (s5_password p)"

lemma length_2_4:
  "length bs = 2 \<longleftrightarrow> (\<exists>x y. bs = [x, y])" "length bs = 4 \<longleftrightarrow> (\<exists>x y z w. bs = [x, y, z, w])"
  "length bs = Suc 0 \<longleftrightarrow> (\<exists>x. bs = [x])"
  by (auto simp: numeral_eq_Suc length_Suc_conv)

lemma write_helper_relay:
  "rc_relay c = Some b \<Longrightarrow> redsocks_write_helper c msg st n =
     (case msg of Some None \<Rightarrow> Dropped
      | _ \<Rightarrow> Alive (c\<lparr>rc_state := st, rc_relay := Some (b\<lparr>
           bev_output := bev_output b @ (case msg of Some (Some m) \<Rightarrow> m | _ \<Rightarrow> []),
           wm_read_low := n, wm_read_high := n, bev_read_on := True\<rparr>)\<rparr>))"
  by (auto simp: redsocks_write_helper_def redsocks_write_helper_ex_plain_def Let_def split: option.split)

lemma start_relay_relay:
  "rc_relay c = Some b \<Longrightarrow> \<exists>b'. rc_relay (redsocks_start_relay c) = Some b' \<and>
     bev_input b' = bev_input b \<and> bev_output b' = bev_output b"
  by (simp add: redsocks_start_relay_def Let_def)

lemmas hs_simps = redsocks_read_expected_def relay_input_def set_relay_input_def sizes_equal_def
  sizes_greater_equal_def hs_of_def write_helper_relay Let_def

lemma valid_cred:
  "socks5_is_valid_cred l p \<longleftrightarrow> (\<exists>x y. l = Some x \<and> p = Some y \<and> length x \<le> 255 \<and> length y \<le> 255)"
  by (auto simp: socks5_is_valid_cred_def split: option.split)

lemma s5_need_pos: "socks5_valid s p \<Longrightarrow> 0 < socks5_need s p"
  by (auto simp: socks5_valid_def socks5_need_def socks5_states)

lemma short_cases:
  "length bs < 2 \<Longrightarrow> bs = [] \<or> (\<exists>x. bs = [x])"
  "length bs < 4 \<Longrightarrow> bs = [] \<or> (\<exists>x. bs = [x]) \<or> (\<exists>x y. bs = [x, y]) \<or> (\<exists>x y z. bs = [x, y, z])"
  by (auto simp: numeral_eq_Suc less_Suc_eq length_Suc_conv)

lemma s5_short:
  "length bs < 2 \<Longrightarrow> s5_methods p bs = ([], Waiting)" "length bs < 2 \<Longrightarrow> s5_auth p bs = ([], Waiting)"
  "length bs < 4 \<Longrightarrow> s5_reply bs = ([], Waiting)"
  by (drule short_cases, elim disjE exE, simp_all add: s5_methods_def s5_auth_def s5_reply_def)+

lemma s5_waits: "socks5_valid s p \<Longrightarrow> length bs < socks5_need s p \<Longrightarrow> socks5_dialogue s p bs = ([], Waiting)"
  unfolding socks5_need_def socks5_dialogue_def
  by (simp add: s5_short s5_domain_def s5_skip_def split: if_splits)


lemma read_ok_write_helper:
  assumes "rc_relay c = Some b" "valid st p'" "n = need st p'"
    and "\<And>bs. dialogue (rc_state c) p (bev_input b @ bs) = says m (dialogue st p' bs)"
    and "msg = None \<and> m = [] \<or> msg = Some (Some m)"
  shows "read_ok need valid dialogue c p b (hs_of p' (redsocks_write_helper (set_relay_input [] c) msg st n))"
  using assms by (auto simp: read_ok_simps hs_of_def set_relay_input_def write_helper_relay)

lemma read_ok_start_relay:
  assumes "rc_relay c = Some b" "\<And>bs. dialogue (rc_state c) p (bev_input b @ bs) = ([], Open bs)"
  shows "read_ok need valid dialogue c p b (Relaying (redsocks_start_relay (set_relay_input [] c)))"
  using assms by (simp add: read_ok_simps set_relay_input_def redsocks_start_relay_def Let_def)

lemma s5_read_methods:
  assumes "socks5_valid (rc_state c) p" "rc_relay c = Some b" "rc_state c = socks5_method_sent" "length (bev_input b) = 2"
  shows "read_ok socks5_need socks5_valid socks5_dialogue c p b (socks5_read_auth_methods c p)"
proof -
  obtain ver meth where i: "bev_input b = [ver, meth]" using assms(4) by (auto simp: length_2_4)
  have pw: "do_password p = socks5_is_valid_cred (s5_login p) (s5_password p)" using assms(1) by (simp add: socks5_valid_def)
  have v: "socks5_valid socks5_request_sent p" "socks5_valid socks5_auth_sent p"
    using pw by (simp_all add: socks5_valid_def socks5_states)
  have d: "socks5_dialogue (rc_state c) p (bev_input b @ bs) = s5_methods p (ver # meth # bs)" for bs
    using assms(3) i by (simp add: socks5_dialogue_def)
  have dr: "socks5_dialogue socks5_request_sent p = s5_reply" "socks5_dialogue socks5_auth_sent p = s5_auth p"
    by (simp_all add: socks5_dialogue_def socks5_states)
  have n: "socks5_need socks5_request_sent p = 4" "socks5_need socks5_auth_sent p = 2"
    by (simp_all add: socks5_need_def socks5_states)
  have e: "redsocks_read_expected (relay_input c) sizes_equal 2 = Some ([ver, meth], [])"
    using assms(2) i by (simp add: redsocks_read_expected_def relay_input_def sizes_equal_def)
  consider "ver \<noteq> 5" | "ver = 5" "meth = 0" | "ver = 5" "meth = 2" "do_password p" | "ver = 5" "meth = 2" "\<not> do_password p"
    | "ver = 5" "meth \<noteq> 0" "meth \<noteq> 2" by blast
  then show ?thesis
  proof cases
    case 1
    then show ?thesis by (simp add: socks5_read_auth_methods_def e socks5_is_known_auth_method_def socks5_consts
      read_ok_simps d s5_methods_def)
  next
    case 2
    have "read_ok socks5_need socks5_valid socks5_dialogue c p b
        (hs_of p (redsocks_write_helper (set_relay_input [] c) (Some (socks5_mkconnect p)) socks5_request_sent 4))"
      using 2 v n d by (intro read_ok_write_helper [OF assms(2)])
        (auto simp: dr s5_methods_def s5_request_def socks5_mkconnect_def socks5_mkcommand_plain_def socks5_consts)
    then show ?thesis using 2 by (simp add: socks5_read_auth_methods_def e socks5_is_known_auth_method_def socks5_consts)
  next
    case 3
    then obtain l q where lq: "s5_login p = Some l" "s5_password p = Some q" "length l \<le> 255" "length q \<le> 255"
      using pw valid_cred by metis
    have "read_ok socks5_need socks5_valid socks5_dialogue c p b
        (hs_of p (redsocks_write_helper (set_relay_input [] c) (Some (Some (socks5_mkpassword_plain l q))) socks5_auth_sent 2))"
      using 3 v n d lq by (intro read_ok_write_helper [OF assms(2)])
        (auto simp: dr s5_methods_def socks5_mkpassword_plain_def socks5_consts Let_def)
    then show ?thesis using 3 lq
      by (simp add: socks5_read_auth_methods_def e socks5_is_known_auth_method_def socks5_consts socks5_mkpassword_def)
  next
    case 4
    then show ?thesis using pw
      by (auto simp: socks5_read_auth_methods_def e socks5_is_known_auth_method_def socks5_consts
        read_ok_simps d s5_methods_def valid_cred split: option.split)
  next
    case 5
    then show ?thesis by (auto simp: socks5_read_auth_methods_def e socks5_is_known_auth_method_def socks5_consts
      read_ok_simps d s5_methods_def)
  qed
qed

lemma s5_read_auth:
  assumes "socks5_valid (rc_state c) p" "rc_relay c = Some b" "rc_state c = socks5_auth_sent" "length (bev_input b) = 2"
  shows "read_ok socks5_need socks5_valid socks5_dialogue c p b (socks5_read_auth_reply c p)"
proof -
  obtain ver st where i: "bev_input b = [ver, st]" using assms(4) by (auto simp: length_2_4)
  have v: "socks5_valid socks5_request_sent p" "4 = socks5_need socks5_request_sent p"
    using assms(1) by (simp_all add: socks5_valid_def socks5_need_def socks5_states)
  have d: "socks5_dialogue (rc_state c) p (bev_input b @ bs) = s5_auth p (ver # st # bs)" for bs
    using assms(3) i by (simp add: socks5_dialogue_def socks5_states)
  have dr: "socks5_dialogue socks5_request_sent p = s5_reply" by (simp add: socks5_dialogue_def socks5_states)
  have e: "redsocks_read_expected (relay_input c) sizes_equal 2 = Some ([ver, st], [])"
    using assms(2) i by (simp add: redsocks_read_expected_def relay_input_def sizes_equal_def)
  show ?thesis
  proof (cases "ver = 1 \<and> st = 0")
    case True
    have "read_ok socks5_need socks5_valid socks5_dialogue c p b
        (hs_of p (redsocks_write_helper (set_relay_input [] c) (Some (socks5_mkconnect p)) socks5_request_sent 4))"
      using True v d by (intro read_ok_write_helper [OF assms(2)])
        (auto simp: dr s5_auth_def s5_request_def socks5_mkconnect_def socks5_mkcommand_plain_def socks5_consts)
    then show ?thesis using True by (simp add: socks5_read_auth_reply_def e socks5_consts)
  next
    case False
    then show ?thesis by (auto simp: socks5_read_auth_reply_def e socks5_consts read_ok_simps d s5_auth_def)
  qed
qed

lemma s5_read_reply:
  assumes "socks5_valid (rc_state c) p" "rc_relay c = Some b" "rc_state c = socks5_request_sent" "length (bev_input b) = 4"
  shows "read_ok socks5_need socks5_valid socks5_dialogue c p b (socks5_read_reply c p)"
proof -
  obtain ver st r aty where i: "bev_input b = [ver, st, r, aty]" using assms(4) by (auto simp: length_2_4)
  have v: "socks5_valid socks5_skip_domain p" "1 = socks5_need socks5_skip_domain p"
    "socks5_valid socks5_skip_address (p\<lparr>to_skip := Suc k\<rparr>)" "Suc k = socks5_need socks5_skip_address (p\<lparr>to_skip := Suc k\<rparr>)" for k
    using assms(1) by (simp_all add: socks5_valid_def socks5_need_def socks5_states)
  have d: "socks5_dialogue (rc_state c) p (bev_input b @ bs) = s5_reply (ver # st # r # aty # bs)" for bs
    using assms(3) i by (simp add: socks5_dialogue_def socks5_states)
  have dr: "socks5_dialogue socks5_skip_domain p = s5_domain"
    "socks5_dialogue socks5_skip_address (p\<lparr>to_skip := k\<rparr>) = s5_skip k" for k
    by (simp_all add: socks5_dialogue_def socks5_states)
  have e: "redsocks_read_expected (relay_input c) sizes_greater_equal 4 = Some ([ver, st, r, aty], [])"
    using assms(2) i by (simp add: redsocks_read_expected_def relay_input_def sizes_greater_equal_def)
  consider "ver \<noteq> 5 \<or> st \<noteq> 0" | "ver = 5" "st = 0" "aty = 1" | "ver = 5" "st = 0" "aty = 4" | "ver = 5" "st = 0" "aty = 3"
    | "ver = 5" "st = 0" "aty \<notin> {1, 3, 4}" by blast
  then show ?thesis
  proof cases
    case 1
    then show ?thesis by (auto simp: socks5_read_reply_def e socks5_consts read_ok_simps d s5_reply_def Let_def)
  next
    case 2
    have "read_ok socks5_need socks5_valid socks5_dialogue c p b (hs_of (p\<lparr>to_skip := 6\<rparr>)
        (redsocks_write_helper (set_relay_input [] c) None socks5_skip_address 6))"
      using 2 v(3,4) [of 5] d by (intro read_ok_write_helper [OF assms(2)]) (auto simp: dr s5_reply_def)
    then show ?thesis using 2 by (simp add: socks5_read_reply_def e socks5_consts)
  next
    case 3
    have "read_ok socks5_need socks5_valid socks5_dialogue c p b (hs_of (p\<lparr>to_skip := 18\<rparr>)
        (redsocks_write_helper (set_relay_input [] c) None socks5_skip_address 18))"
      using 3 v(3,4) [of 17] d by (intro read_ok_write_helper [OF assms(2)]) (auto simp: dr s5_reply_def)
    then show ?thesis using 3 by (simp add: socks5_read_reply_def e socks5_consts)
  next
    case 4
    have "read_ok socks5_need socks5_valid socks5_dialogue c p b
        (hs_of p (redsocks_write_helper (set_relay_input [] c) None socks5_skip_domain 1))"
      using 4 v(1,2) d by (intro read_ok_write_helper [OF assms(2)]) (auto simp: dr s5_reply_def)
    then show ?thesis using 4 by (simp add: socks5_read_reply_def e socks5_consts)
  next
    case 5
    then show ?thesis by (auto simp: socks5_read_reply_def e socks5_consts read_ok_simps d s5_reply_def Let_def)
  qed
qed

lemma s5_reads:
  assumes "socks5_valid (rc_state c) p" "rc_relay c = Some b" "length (bev_input b) = socks5_need (rc_state c) p"
  shows "read_ok socks5_need socks5_valid socks5_dialogue c p b (socks5_read_cb c p)"
proof -
  consider "rc_state c = socks5_method_sent" | "rc_state c = socks5_auth_sent" | "rc_state c = socks5_request_sent"
    | "rc_state c = socks5_skip_domain" | "rc_state c = socks5_skip_address"
    using assms(1) by (fastforce simp: socks5_valid_def socks5_states)
  then show ?thesis
  proof cases
    case 1
    then show ?thesis using s5_read_methods [OF assms(1,2)] assms(3) by (simp add: socks5_read_cb_def socks5_need_def)
  next
    case 2
    then show ?thesis using s5_read_auth [OF assms(1,2)] assms(3)
      by (simp add: socks5_read_cb_def socks5_need_def socks5_states)
  next
    case 3
    then show ?thesis using s5_read_reply [OF assms(1,2)] assms(3)
      by (simp add: socks5_read_cb_def socks5_need_def socks5_states)
  next
    case 4
    then obtain l where l: "bev_input b = [l]" using assms(3)
      by (auto simp: socks5_need_def socks5_states length_2_4)
    have e: "redsocks_read_expected (relay_input c) sizes_greater_equal 1 = Some ([l], [])"
      using assms(2) l by (simp add: redsocks_read_expected_def relay_input_def sizes_greater_equal_def)
    have "read_ok socks5_need socks5_valid socks5_dialogue c p b (hs_of (p\<lparr>to_skip := unat l + 2\<rparr>)
        (redsocks_write_helper (set_relay_input [] c) None socks5_skip_address (unat l + 2)))"
      using 4 l assms(1) by (intro read_ok_write_helper [OF assms(2)])
        (auto simp: socks5_valid_def socks5_need_def socks5_dialogue_def socks5_states s5_domain_def)
    then show ?thesis using 4 e by (simp add: socks5_read_cb_def socks5_states)
  next
    case 5
    then have e: "redsocks_read_expected (relay_input c) sizes_greater_equal (to_skip p) = Some (bev_input b, [])"
      using assms(2,3) by (simp add: redsocks_read_expected_def relay_input_def sizes_greater_equal_def
        socks5_need_def socks5_states)
    have "read_ok socks5_need socks5_valid socks5_dialogue c p b
        (Relaying (redsocks_start_relay (set_relay_input [] c)))"
      using 5 assms(3) by (intro read_ok_start_relay [OF assms(2)])
        (simp add: socks5_dialogue_def socks5_need_def socks5_states s5_skip_def)
    then show ?thesis using 5 e by (simp add: socks5_read_cb_def socks5_states)
  qed
qed

lemma s5_writes:
  assumes "socks5_valid (rc_state c) p" "rc_relay c = Some b"
  shows "\<exists>w. socks5_write_cb c p = Handshake (c\<lparr>rc_relay := Some (b\<lparr>bev_write_on := w\<rparr>)\<rparr>) p"
  using assms by (intro exI [of _ "bev_write_on b"]) (auto simp: socks5_write_cb_def socks5_valid_def socks5_states)

interpretation s5: handshake socks5_read_cb socks5_write_cb socks5_need socks5_valid socks5_dialogue
  by unfold_locales (simp_all add: s5_need_pos s5_waits s5_reads s5_writes)


text \<open>
  The start: the connection to the proxy was made, the client initialised, and the write
  callback runs for the first time; \<open>stream\<close> is what the proxy is going to send.
\<close>

definition hs_begin :: "'p hs_result \<Rightarrow> bytes \<Rightarrow> 'p hs_env" where
  "hs_begin r stream = \<lparr>hs_res = r, hs_pending = stream, hs_rx = [], hs_tx = []\<rparr>"

definition socks5_start :: "redsocks_client \<Rightarrow> socks5_client \<Rightarrow> bytes \<Rightarrow> socks5_client hs_env" where
  "socks5_start c p stream = (let (c, p) = socks5_client_init c p in hs_begin (socks5_write_cb c p) stream)"

lemma socks5_mkmethods_session:
  "socks5_mkmethods_plain pw = (if pw then [5, 2, 0, 2] else [5, 1, 0])"
  by (simp add: socks5_mkmethods_plain_def socks5_consts)

lemma socks5_dialogue_start: "socks5_dialogue socks5_method_sent p = s5_methods p"
  by (simp add: socks5_dialogue_def)

lemma s5_start_inv:
  assumes "rc_relay c = Some b" "bev_input b = []" "bev_output b = []"
  shows "s5.hs_inv (socks5_session p) (socks5_start c p stream)"
proof -
  define q where "q = p\<lparr>do_password := socks5_is_valid_cred (s5_login p) (s5_password p)\<rparr>"
  have sel: "s5_login q = s5_login p" "s5_password q = s5_password p" "s5_dest_addr q = s5_dest_addr p"
    "s5_dest_port q = s5_dest_port p" "do_password q = socks5_is_valid_cred (s5_login p) (s5_password p)"
    by (simp_all add: q_def)
  have q: "s5_methods q = s5_methods p"
    unfolding fun_eq_iff s5_methods_def s5_auth_def s5_request_def sel by simp
  have v: "socks5_valid socks5_method_sent q" "socks5_need socks5_method_sent q = 2"
    by (simp_all add: socks5_valid_def socks5_need_def q_def socks5_states)
  let ?c = "c\<lparr>rc_state := socks5_new\<rparr>"
  have "socks5_write_cb ?c q = Handshake (?c\<lparr>rc_state := socks5_method_sent, rc_relay := Some (b\<lparr>
      bev_output := bev_output b @ socks5_mkmethods_plain (do_password q),
      wm_read_low := 2, wm_read_high := 2, bev_read_on := True\<rparr>)\<rparr>) q"
    using write_helper_relay [of ?c b "Some (socks5_mkmethods q)"] assms(1)
    by (simp add: socks5_write_cb_def hs_of_def socks5_mkmethods_def)
  then show ?thesis using assms(2,3) v q sel
    by (simp add: socks5_start_def socks5_client_init_def hs_begin_def s5.hs_inv.simps
        socks5_session_def socks5_dialogue_start socks5_mkmethods_session flip: q_def)
qed

text \<open>
  C20. Over every way the proxy's bytes arrive and the client's bytes leave, the SOCKS 5
  handshake of redsocks is the session of RFC 1928 and 1929: it never fails an assertion,
  it has sent exactly the messages the session prescribes for the bytes read so far, it
  starts relaying exactly when the session is open, having read not one byte past the
  proxy's reply, and drops the client only when the session was refused.
\<close>

theorem socks5_handshake_follows_session:
  assumes "rc_relay c = Some b" "bev_input b = []" "bev_output b = []"
  shows "follows (socks5_session p) (fold (hs_step socks5_read_cb socks5_write_cb) es (socks5_start c p stream))"
  using s5.hs_run [OF s5_start_inv [OF assms] refl] .

text \<open>
  C21. The handshake does not get stuck: if the proxy's stream completes the session, then
  after as many read events as it has bytes the client is relaying or dropped, and it is
  relaying if the session is open.
\<close>

theorem socks5_handshake_finishes:
  assumes "rc_relay c = Some b" "bev_input b = []" "bev_output b = []"
    and "snd (socks5_session p stream) \<noteq> Waiting" "length stream \<le> length (filter reading es)"
  shows "case hs_res (fold (hs_step socks5_read_cb socks5_write_cb) es (socks5_start c p stream)) of
     Relaying _ \<Rightarrow> True | Hs_dropped \<Rightarrow> True | _ \<Rightarrow> False"
proof -
  have p: "hs_rx (socks5_start c p stream) = []" "hs_pending (socks5_start c p stream) = stream"
    by (simp_all add: socks5_start_def hs_begin_def split: prod.split)
  note inv = s5_start_inv [OF assms(1-3), of p stream]
  show ?thesis using s5.hs_finishes [OF inv p(1), of es] s5.hs_run [OF inv refl, of es] assms(4,5) p(2)
    by (auto simp: follows_def split: hs_result.split)
qed

definition proxy_bev :: bufferevent where
  "proxy_bev = \<lparr>bev_input = [], bev_output = [], bev_read_on = False, bev_write_on = True, wm_read_low = 0,
     wm_read_high = 0, wm_write_low = 0, wm_write_high = 0, bev_shut_rd = False, bev_shut_wr = False\<rparr>"

definition proxy_client :: redsocks_client where
  "proxy_client = \<lparr>rc_client = proxy_bev, rc_relay = Some proxy_bev, rc_state = 0, client_evshut = 0, relay_evshut = 0\<rparr>"

definition proxy_s5 :: socks5_client where
  "proxy_s5 = \<lparr>do_password = False, to_skip = 0, s5_login = None, s5_password = None,
     s5_dest_addr = [10, 0, 0, 1], s5_dest_port = [0, 80]\<rparr>"

theorem socks5_handshake_follows_session_witness:
  "follows (socks5_session proxy_s5)
     (fold (hs_step socks5_read_cb socks5_write_cb) [HsWrite 3, HsRead 1, HsRead 7]
       (socks5_start proxy_client proxy_s5 [5, 0, 5, 0, 0, 1, 0, 0, 0, 0, 0, 0]))"
  by (rule socks5_handshake_follows_session [of _ proxy_bev]) (simp_all add: proxy_client_def proxy_bev_def)

theorem socks5_handshake_finishes_witness:
  "case hs_res (fold (hs_step socks5_read_cb socks5_write_cb) (replicate 12 (HsRead 20))
       (socks5_start proxy_client proxy_s5 [5, 0, 5, 0, 0, 1, 0, 0, 0, 0, 0, 0])) of
     Relaying _ \<Rightarrow> True | Hs_dropped \<Rightarrow> True | _ \<Rightarrow> False"
  by (rule socks5_handshake_finishes [of _ proxy_bev])
    (simp_all add: proxy_client_def proxy_bev_def socks5_session_def s5_methods_def s5_request_def s5_reply_def
      s5_skip_def)


section \<open>The SOCKS 4 session\<close>

definition s4_reply :: "bytes \<Rightarrow> bytes \<times> dialogue_end" where
  "s4_reply bs =
     ([], if length bs < 8 then Waiting else if bs ! 0 = 0 \<and> bs ! 1 = 90 then Open (drop 8 bs) else Refused)"

definition socks4_session :: "socks4_client \<Rightarrow> bytes \<Rightarrow> bytes \<times> dialogue_end" where
  "socks4_session p bs =
     says ([4, 1] @ s4_dest_port p @ s4_dest_addr p @ (case s4_login p of Some l \<Rightarrow> l | None \<Rightarrow> []) @ [0]) (s4_reply bs)"

definition socks4_valid :: "int \<Rightarrow> socks4_client \<Rightarrow> bool" where
  "socks4_valid s p \<longleftrightarrow> s = socks4_request_sent"

definition socks4_start :: "redsocks_client \<Rightarrow> socks4_client \<Rightarrow> bytes \<Rightarrow> socks4_client hs_env" where
  "socks4_start c p stream = hs_begin (socks4_write_cb (socks4_client_init c) p) stream"

lemma s4_reads:
  assumes "socks4_valid (rc_state c) p" "rc_relay c = Some b" "length (bev_input b) = 8"
  shows "read_ok (\<lambda>_ _. 8) socks4_valid (\<lambda>_ _. s4_reply) c p b (socks4_read_cb c p)"
proof -
  have st: "rc_state c = socks4_request_sent" using assms(1) by (simp add: socks4_valid_def)
  have e: "redsocks_read_expected (relay_input c) sizes_greater_equal 8 = Some (bev_input b, [])"
    using assms(2,3) by (simp add: redsocks_read_expected_def relay_input_def sizes_greater_equal_def)
  have r: "s4_reply (bev_input b @ bs) =
      ([], if bev_input b ! 0 = 0 \<and> bev_input b ! 1 = 90 then Open bs else Refused)" for bs
    using assms(3) by (simp add: s4_reply_def nth_append)
  show ?thesis
  proof (cases "bev_input b ! 0 = 0 \<and> bev_input b ! 1 = 90")
    case True
    then show ?thesis using st e r assms(2)
      by (auto simp: socks4_read_cb_def socks4_consts read_ok_simps set_relay_input_def redsocks_start_relay_def Let_def)
  next
    case False
    then show ?thesis using st e r by (auto simp: socks4_read_cb_def socks4_consts read_ok_simps Let_def)
  qed
qed

lemma s4_writes:
  assumes "socks4_valid (rc_state c) p" "rc_relay c = Some b"
  shows "\<exists>w. socks4_write_cb c p = Handshake (c\<lparr>rc_relay := Some (b\<lparr>bev_write_on := w\<rparr>)\<rparr>) p"
  using assms by (intro exI [of _ False]) (simp add: socks4_write_cb_def socks4_valid_def socks4_states)

interpretation s4: handshake socks4_read_cb socks4_write_cb "\<lambda>_ _. 8" socks4_valid "\<lambda>_ _. s4_reply"
  by unfold_locales (simp_all add: s4_reads s4_writes s4_reply_def)

lemma s4_start_inv:
  assumes "rc_relay c = Some b" "bev_input b = []" "bev_output b = []"
  shows "s4.hs_inv (socks4_session p) (socks4_start c p stream)"
proof -
  let ?c = "c\<lparr>rc_state := socks4_new\<rparr>"
  obtain m where m: "socks4_mkconnect p = Some m" "socks4_session p bs = says m (s4_reply bs)" for bs
    by (simp add: socks4_mkconnect_def socks4_session_def socks4_consts Let_def)
  have "socks4_write_cb ?c p = Handshake (?c\<lparr>rc_state := socks4_request_sent, rc_relay := Some (b\<lparr>
      bev_output := bev_output b @ m, wm_read_low := 8, wm_read_high := 8, bev_read_on := True\<rparr>)\<rparr>) p"
    using write_helper_relay [of ?c b "Some (socks4_mkconnect p)"] assms(1) m(1)
    by (simp add: socks4_write_cb_def hs_of_def)
  then show ?thesis using assms(2,3) m(2)
    by (simp add: socks4_start_def socks4_client_init_def hs_begin_def s4.hs_inv.simps socks4_valid_def)
qed

text \<open>
  C22. The SOCKS 4 handshake follows its session in the same sense, over every way the bytes
  arrive and leave, and once the whole reply was offered to be read it is relaying or has
  dropped the client.
\<close>

theorem socks4_handshake_follows_session:
  assumes "rc_relay c = Some b" "bev_input b = []" "bev_output b = []"
  shows "follows (socks4_session p) (fold (hs_step socks4_read_cb socks4_write_cb) es (socks4_start c p stream)) \<and>
    (8 \<le> length stream \<and> length stream \<le> length (filter reading es) \<longrightarrow>
     (case hs_res (fold (hs_step socks4_read_cb socks4_write_cb) es (socks4_start c p stream)) of
        Relaying _ \<Rightarrow> True | Hs_dropped \<Rightarrow> True | _ \<Rightarrow> False))"
proof -
  note inv = s4_start_inv [OF assms, of p stream]
  note run = s4.hs_run [OF inv refl, of es]
  have p: "hs_rx (socks4_start c p stream) = []" "hs_pending (socks4_start c p stream) = stream"
    by (simp_all add: socks4_start_def hs_begin_def)
  have "8 \<le> length stream \<Longrightarrow> snd (socks4_session p stream) \<noteq> Waiting"
    by (auto simp: socks4_session_def s4_reply_def)
  then show ?thesis using run s4.hs_finishes [OF inv p(1), of es] p(2)
    by (auto simp: follows_def split: hs_result.split)
qed

theorem socks4_handshake_follows_session_witness:
  "follows (socks4_session \<lparr>s4_login = Some [117], s4_dest_addr = [10, 0, 0, 1], s4_dest_port = [0, 80]\<rparr>)
     (fold (hs_step socks4_read_cb socks4_write_cb) (replicate 8 (HsRead 1))
       (socks4_start proxy_client \<lparr>s4_login = Some [117], s4_dest_addr = [10, 0, 0, 1], s4_dest_port = [0, 80]\<rparr>
         [0, 90, 0, 0, 0, 0, 0, 0]))"
  by (rule conjunct1 [OF socks4_handshake_follows_session [of _ proxy_bev]])
    (simp_all add: proxy_client_def proxy_bev_def)

end
