(* ===== verification/Redsocks_Base64.thy ===== *)
theory Redsocks_Base64
  imports Prelude
begin

text \<open>
  base64.c of redsocks. Characters are their byte codes. The encoder keeps its bits in an
  unsigned 32-bit accumulator; the decoder's accumulator is a signed int that the compiled
  code shifts modulo \<open>2 ^ 32\<close>, and only its low bits are ever used. The buffers are the byte
  sequences written to them, without the terminating zero.
\<close>

unbundle bit_operations_syntax

section \<open>Encoding\<close>

definition BASE64_SIZE :: "int \<Rightarrow> int" where
  "BASE64_SIZE x = (x + 2) div 3 * 4 + 1"

definition b64 :: bytes where
  "b64 = map of_char ''ABCDEFGHIJKLMNOPQRSTUVWXYZabcdefghijklmnopqrstuvwxyz0123456789+/''"

text \<open>The inner loop; \<open>fin\<close> says that no byte remains.\<close>

function b64_do :: "u32 \<Rightarrow> int \<Rightarrow> bool \<Rightarrow> bytes \<times> int" where
  "b64_do i_bits i_shift fin =
     (let ch = b64 ! unat (drop_bit (nat i_shift) (push_bit 6 i_bits) AND 0x3f);
          i_shift' = i_shift - 6 in
      if i_shift' > 6 \<or> fin \<and> i_shift' > 0
      then (let (chs, i_shift'') = b64_do i_bits i_shift' fin in (ch # chs, i_shift''))
      else ([ch], i_shift'))"
  by auto
termination by (relation "measure (\<lambda>(_, i_shift, _). nat i_shift)") auto

fun b64_while :: "u32 \<Rightarrow> int \<Rightarrow> bytes \<Rightarrow> bytes" where
  "b64_while i_bits i_shift [] = []"
| "b64_while i_bits i_shift (b # bs) =
     (let i_bits = push_bit 8 i_bits + ucast b; i_shift = i_shift + 8;
          (chs, i_shift) = b64_do i_bits i_shift (bs = [])
      in chs @ b64_while i_bits i_shift bs)"

function b64_pad :: "bytes \<Rightarrow> bytes" where
  "b64_pad dst = (if length dst AND 3 \<noteq> 0 then b64_pad (dst @ [of_char CHR ''='']) else dst)"
  by auto
termination
proof (relation "measure (\<lambda>dst. (4 - length dst mod 4) mod 4)", goal_cases)
  case (2 dst)
  have "(3::nat) = mask 2" by (simp add: mask_eq_exp_minus_1)
  with 2 have "length dst mod 4 \<noteq> 0" by (simp add: take_bit_eq_mask [symmetric] take_bit_eq_mod)
  moreover have "length dst mod 4 < 4" by simp
  ultimately show ?case by (simp add: mod_Suc) linarith
qed simp

definition base64_encode :: "int \<Rightarrow> bytes \<Rightarrow> bytes option" where
  "base64_encode out_size inp =
     (let in_size = int (length inp) in
      if in_size \<ge> (2 ^ 32 - 1) div 4 \<or> out_size < BASE64_SIZE in_size then None
      else Some (b64_pad (b64_while 0 0 inp)))"

section \<open>Decoding\<close>

definition map2 :: bytes where
  "map2 = [
    0x3e, 0xff, 0xff, 0xff, 0x3f, 0x34, 0x35, 0x36,
    0x37, 0x38, 0x39, 0x3a, 0x3b, 0x3c, 0x3d, 0xff,
    0xff, 0xff, 0xff, 0xff, 0xff, 0xff, 0x00, 0x01,
    0x02, 0x03, 0x04, 0x05, 0x06, 0x07, 0x08, 0x09,
    0x0a, 0x0b, 0x0c, 0x0d, 0x0e, 0x0f, 0x10, 0x11,
    0x12, 0x13, 0x14, 0x15, 0x16, 0x17, 0x18, 0x19,
    0xff, 0xff, 0xff, 0xff, 0xff, 0xff, 0x1a, 0x1b,
    0x1c, 0x1d, 0x1e, 0x1f, 0x20, 0x21, 0x22, 0x23,
    0x24, 0x25, 0x26, 0x27, 0x28, 0x29, 0x2a, 0x2b,
    0x2c, 0x2d, 0x2e, 0x2f, 0x30, 0x31, 0x32, 0x33]"

fun b64_for :: "nat \<Rightarrow> u32 \<Rightarrow> bytes \<Rightarrow> int \<Rightarrow> bytes \<Rightarrow> bytes option" where
  "b64_for i v out out_size [] = Some out"
| "b64_for i v out out_size (c # cs) =
     (if c = 0 \<or> c = of_char CHR ''='' then Some out
      else (let index = uint c - 43 in
            if index < 0 \<or> index \<ge> int (length map2) \<or> map2 ! nat index = 0xff then None
            else (let v = push_bit 6 v + ucast (map2 ! nat index);
                      out = (if i AND 3 \<noteq> 0 \<and> int (length out) < out_size
                             then out @ [ucast (drop_bit (6 - 2 * (i AND 3)) v)] else out)
                  in b64_for (i + 1) v out out_size cs)))"

definition base64_decode :: "bytes \<Rightarrow> int \<Rightarrow> bytes option" where
  "base64_decode inp out_size = b64_for 0 0 [] out_size inp"


section \<open>The encoder and RFC 4648\<close>

text \<open>The reference: three bytes make four characters, and the last group is padded.\<close>

definition enc6 :: "u8 \<Rightarrow> u8" where
  "enc6 w = b64 ! unat w"

fun base64_ref :: "bytes \<Rightarrow> bytes" where
  "base64_ref [] = []"
| "base64_ref [a] = [enc6 (drop_bit 2 a), enc6 (push_bit 4 (a AND 3)), 61, 61]"
| "base64_ref [a, b] = [enc6 (drop_bit 2 a), enc6 (push_bit 4 (a AND 3) OR drop_bit 4 b),
     enc6 (push_bit 2 (b AND 15)), 61]"
| "base64_ref (a # b # c # bs) = [enc6 (drop_bit 2 a), enc6 (push_bit 4 (a AND 3) OR drop_bit 4 b),
     enc6 (push_bit 2 (b AND 15) OR drop_bit 6 c), enc6 (c AND 63)] @ base64_ref bs"

lemma masks: "(0x3f :: 'a::len word) = mask 6" "(3 :: 'a word) = mask 2" "(15 :: 'a word) = mask 4" "(63 :: 'a word) = mask 6"
  by (simp_all add: mask_eq_exp_minus_1)

lemma shift_add: "push_bit 8 x + (ucast (a :: u8) :: u32) = push_bit 8 x OR ucast a"
  by (rule disjunctive_add_eq_or, rule bit_word_eqI) (auto simp: bit_simps dest: bit_imp_le_length)

lemma sextets:
  fixes x :: u32 and a b c :: u8
  defines "xa \<equiv> push_bit 8 x + ucast a"
  defines "xab \<equiv> push_bit 8 xa + ucast b"
  shows "drop_bit 8 (push_bit 6 xa) AND 0x3f = (ucast (drop_bit 2 a) :: u32)"
    "drop_bit 2 (push_bit 6 xa) AND 0x3f = (ucast (push_bit 4 (a AND 3)) :: u32)"
    "drop_bit 10 (push_bit 6 xab) AND 0x3f = (ucast (push_bit 4 (a AND 3) OR drop_bit 4 b) :: u32)"
    "drop_bit 4 (push_bit 6 xab) AND 0x3f = (ucast (push_bit 2 (b AND 15)) :: u32)"
    "drop_bit 12 (push_bit 6 (push_bit 8 xab + ucast c)) AND 0x3f = (ucast (push_bit 2 (b AND 15) OR drop_bit 6 c) :: u32)"
    "drop_bit 6 (push_bit 6 xa) AND 0x3f = (ucast (a AND 63) :: u32)"
    "drop_bit 14 (push_bit 6 (push_bit 8 xab + ucast c)) AND 0x3f = (ucast (b AND 63) :: u32)"
  unfolding xab_def xa_def shift_add masks
  subgoal by (rule bit_word_eqI) (auto simp: bit_simps dest: bit_imp_le_length)
  subgoal by (rule bit_word_eqI) (auto simp: bit_simps dest: bit_imp_le_length)
  subgoal by (rule bit_word_eqI) (auto simp: bit_simps dest: bit_imp_le_length)
  subgoal by (rule bit_word_eqI) (auto simp: bit_simps dest: bit_imp_le_length)
  subgoal by (rule bit_word_eqI) (auto simp: bit_simps dest: bit_imp_le_length)
  subgoal by (rule bit_word_eqI) (auto simp: bit_simps dest: bit_imp_le_length)
  subgoal by (rule bit_word_eqI) (auto simp: bit_simps dest: bit_imp_le_length)
  done


declare b64_do.simps [simp del] b64_pad.simps [simp del]

definition b64_ch :: "u32 \<Rightarrow> nat \<Rightarrow> u8" where
  "b64_ch w n = b64 ! unat (drop_bit n (push_bit 6 w) AND 0x3f)"

lemma b64_do_one: "i \<le> 12 \<Longrightarrow> \<not> fin \<or> i \<le> 6 \<Longrightarrow> b64_do w i fin = ([b64_ch w (nat i)], i - 6)"
  by (subst b64_do.simps) (auto simp: b64_ch_def Let_def)

lemma b64_do_more: "12 < i \<or> fin \<and> 6 < i \<Longrightarrow>
    b64_do w i fin = (b64_ch w (nat i) # fst (b64_do w (i - 6) fin), snd (b64_do w (i - 6) fin))"
  by (subst b64_do.simps) (auto simp: b64_ch_def Let_def split: prod.split)

lemmas b64_do_eval = b64_do_one b64_do_more

lemma unat_ucast_u32: "unat (ucast (w :: u8) :: u32) = unat w"
proof -
  have "unat w < 2 ^ LENGTH(8)" by (rule unsigned_less)
  then show ?thesis by (simp add: unsigned_ucast_eq take_bit_nat_eq_self)
qed

lemma b64_ch_sextets:
  "b64_ch (push_bit 8 x + ucast a) 8 = enc6 (drop_bit 2 a)"
  "b64_ch (push_bit 8 x + ucast a) 2 = enc6 (push_bit 4 (a AND 3))"
  "b64_ch (push_bit 8 (push_bit 8 x + ucast a) + ucast b) 10 = enc6 (push_bit 4 (a AND 3) OR drop_bit 4 b)"
  "b64_ch (push_bit 8 (push_bit 8 x + ucast a) + ucast b) 4 = enc6 (push_bit 2 (b AND 15))"
  "b64_ch (push_bit 8 (push_bit 8 (push_bit 8 x + ucast a) + ucast b) + ucast c) 12 =
     enc6 (push_bit 2 (b AND 15) OR drop_bit 6 c)"
  "b64_ch (push_bit 8 x + ucast a) 6 = enc6 (a AND 63)"
  "b64_ch (push_bit 8 (push_bit 8 (push_bit 8 x + ucast a) + ucast b) + ucast c) 14 = enc6 (b AND 63)"
  unfolding b64_ch_def enc6_def sextets unat_ucast_u32 by (rule refl)+

lemma b64_while_pending:
  fixes a :: u8
  shows "b64_while (push_bit 8 (push_bit 8 x + ucast a) + ucast b) 6 (c # cs) =
   enc6 (b AND 63) # b64_while (push_bit 8 (push_bit 8 x + ucast a) + ucast b) 0 (c # cs)"
  by (simp add: b64_do_eval b64_ch_sextets Let_def split: prod.split)

lemma and_3: "(n :: nat) AND 3 = n mod 4"
proof -
  have "(3::nat) = mask 2" by (simp add: mask_eq_exp_minus_1)
  then show ?thesis by (simp only: take_bit_eq_mask [symmetric]) (simp add: take_bit_eq_mod)
qed

lemma b64_pad_step: "length dst mod 4 \<noteq> 0 \<Longrightarrow> b64_pad dst = b64_pad (dst @ [61])"
  by (subst b64_pad.simps) (simp add: and_3)

lemma b64_pad_done: "length dst mod 4 = 0 \<Longrightarrow> b64_pad dst = dst"
  by (subst b64_pad.simps) (simp add: and_3)

lemma mod4_Suc:
  assumes "(n :: nat) mod 4 = 0"
  shows "Suc n mod 4 = 1" "Suc (Suc n) mod 4 = 2" "Suc (Suc (Suc n)) mod 4 = 3" "Suc (Suc (Suc (Suc n))) mod 4 = 0"
    "(2 + n) mod 4 = 2" "(3 + n) mod 4 = 3" "(4 + n) mod 4 = 0"
  using assms by presburger+

lemma b64_pad_tail:
  assumes "length pre mod 4 = 0"
  shows "b64_pad (pre @ [a, b]) = pre @ [a, b, 61, 61]" "b64_pad (pre @ [a, b, c]) = pre @ [a, b, c, 61]"
proof -
  have 3: "b64_pad (pre @ [a, b, c]) = pre @ [a, b, c, 61]" for a b c
    using assms b64_pad_step [of "pre @ [a, b, c]"] by (simp add: b64_pad_done mod4_Suc)
  then show "b64_pad (pre @ [a, b, c]) = pre @ [a, b, c, 61]" .
  show "b64_pad (pre @ [a, b]) = pre @ [a, b, 61, 61]"
    using assms b64_pad_step [of "pre @ [a, b]"] 3 by (simp add: mod4_Suc)
qed

lemma b64_while_ref: "length pre mod 4 = 0 \<Longrightarrow> b64_pad (pre @ b64_while x 0 bs) = pre @ base64_ref bs"
proof (induction bs arbitrary: x pre rule: base64_ref.induct)
  case 1
  then show ?case by (simp add: b64_pad_done)
next
  case (2 a)
  then show ?case by (simp add: b64_do_eval b64_ch_sextets b64_pad_tail mod4_Suc)
next
  case (3 a b)
  then show ?case by (simp add: b64_do_eval b64_ch_sextets b64_pad_tail mod4_Suc)
next
  case (4 a b c bs)
  show ?case
  proof (cases bs)
    case Nil
    then show ?thesis using 4(2) by (simp add: b64_do_eval b64_ch_sextets b64_pad_done mod4_Suc)
  next
    case (Cons d ds)
    define y where "y = push_bit 8 (push_bit 8 (push_bit 8 x + ucast a) + ucast b) + ucast c"
    define p where "p = pre @ [enc6 (drop_bit 2 a), enc6 (push_bit 4 (a AND 3) OR drop_bit 4 b),
      enc6 (push_bit 2 (b AND 15) OR drop_bit 6 c), enc6 (c AND 63)]"
    have "b64_while x 0 (a # b # c # bs) = [enc6 (drop_bit 2 a), enc6 (push_bit 4 (a AND 3) OR drop_bit 4 b),
      enc6 (push_bit 2 (b AND 15) OR drop_bit 6 c)] @ b64_while y 6 bs"
      using Cons by (simp add: b64_do_eval b64_ch_sextets y_def del: b64_while.simps(2)
        add: b64_while.simps(2) [of _ _ a] b64_while.simps(2) [of _ _ b] b64_while.simps(2) [of _ _ c])
    moreover have "b64_while y 6 bs = enc6 (c AND 63) # b64_while y 0 bs"
      unfolding y_def Cons by (rule b64_while_pending)
    ultimately have "pre @ b64_while x 0 (a # b # c # bs) = p @ b64_while y 0 bs" by (simp add: p_def)
    moreover have "length p mod 4 = 0" using 4(2) by (simp add: p_def mod4_Suc)
    ultimately show ?thesis using 4(1) [of p y] by (simp add: p_def)
  qed
qed

lemma length_base64_ref: "length (base64_ref bs) = (length bs + 2) div 3 * 4"
proof (induction bs rule: base64_ref.induct)
  case (4 a b c bs)
  have "(length (a # b # c # bs) + 2) div 3 = Suc ((length bs + 2) div 3)" by simp
  with 4 show ?case by simp
qed simp_all

text \<open>
  C24. The encoder is the encoding of RFC 4648: for every input below the size limit and an
  output buffer of at least BASE64_SIZE bytes it produces exactly the reference encoding,
  which with its terminating zero fits the buffer; for a smaller buffer it refuses.
\<close>

theorem base64_encode_ref:
  assumes "int (length inp) < (2 ^ 32 - 1) div 4"
  shows "base64_encode out_size inp = (if BASE64_SIZE (int (length inp)) \<le> out_size then Some (base64_ref inp) else None) \<and>
    int (length (base64_ref inp)) + 1 = BASE64_SIZE (int (length inp))"
proof -
  have "int ((length inp + 2) div 3 * 4) = (int (length inp) + 2) div 3 * 4" by (simp add: zdiv_int)
  then show ?thesis using assms b64_while_ref [of "[]" 0 inp]
    by (simp add: base64_encode_def Let_def BASE64_SIZE_def length_base64_ref)
qed

theorem base64_encode_ref_witness:
  "base64_encode 100 [77, 97] = Some [enc6 19, enc6 22, enc6 4, 61]"
  using base64_encode_ref [of "[77, 97]" 100] by (simp add: BASE64_SIZE_def)


section \<open>Decoding what was encoded\<close>

lemma enc6_table:
  "list_all (\<lambda>n. let c = b64 ! n in c \<noteq> 0 \<and> c \<noteq> 61 \<and> 43 \<le> uint c \<and> uint c - 43 < int (length map2) \<and>
     map2 ! nat (uint c - 43) = of_nat n) [0..<64]"
  by code_simp

lemma enc6_props:
  assumes "unat s < 64"
  shows "enc6 s \<noteq> 0" "enc6 s \<noteq> 61" "43 \<le> uint (enc6 s)" "uint (enc6 s) - 43 < int (length map2)"
    "map2 ! nat (uint (enc6 s) - 43) = s" "s \<noteq> 255"
proof -
  have "unat s \<in> set [0..<64]" using assms by simp
  with enc6_table show "enc6 s \<noteq> 0" "enc6 s \<noteq> 61" "43 \<le> uint (enc6 s)" "uint (enc6 s) - 43 < int (length map2)"
    "map2 ! nat (uint (enc6 s) - 43) = s"
    unfolding list_all_iff enc6_def Let_def by (force simp del: upt_Suc)+
  show "s \<noteq> 255" using assms by auto
qed

lemma b64_for_enc:
  assumes "unat s < 64"
  shows "b64_for i v out n (enc6 s # cs) =
    (let v = push_bit 6 v + ucast s in
     b64_for (i + 1) v (if i mod 4 \<noteq> 0 \<and> int (length out) < n
       then out @ [ucast (drop_bit (6 - 2 * (i mod 4)) v)] else out) n cs)"
  using enc6_props [OF assms] by (simp add: Let_def and_3 not_less)

lemma shift6_add: "unat (s :: u8) < 64 \<Longrightarrow> push_bit 6 x + (ucast s :: u32) = push_bit 6 x OR ucast s"
proof (rule disjunctive_add_eq_or, rule bit_word_eqI)
  fix n assume "unat s < 64"
  then have "unat (take_bit 6 s) = unat s" by (simp add: unsigned_take_bit_eq take_bit_nat_eq_self)
  then have "take_bit 6 s = s" by (simp only: word_unat_eq_iff)
  then have "\<not> bit s k" if "6 \<le> k" for k using that by (metis bit_take_bit_iff not_less)
  then show "bit (push_bit 6 x AND ucast s) n = bit (0 :: u32) n" by (auto simp: bit_simps)
qed

lemma sextet_less:
  fixes a b :: u8
  shows "unat (drop_bit 2 a) < 64" "unat (push_bit 4 (a AND 3) OR drop_bit 4 b) < 64"
    "unat (push_bit 2 (a AND 15) OR drop_bit 6 b) < 64" "unat (a AND 63) < 64"
    "unat (push_bit 4 (a AND 3)) < 64" "unat (push_bit 2 (a AND 15)) < 64"
proof -
  have small: "unat w < 64" if "take_bit 6 w = w" for w :: u8
  proof -
    have "unat (take_bit 6 w) = take_bit 6 (unat w)" by (simp add: unsigned_take_bit_eq)
    moreover have "take_bit 6 (unat w) < 2 ^ 6" by (rule take_bit_nat_less_exp)
    ultimately show ?thesis using that by simp
  qed
  show "unat (drop_bit 2 a) < 64" "unat (push_bit 4 (a AND 3) OR drop_bit 4 b) < 64"
    "unat (push_bit 2 (a AND 15) OR drop_bit 6 b) < 64" "unat (a AND 63) < 64"
    "unat (push_bit 4 (a AND 3)) < 64" "unat (push_bit 2 (a AND 15)) < 64"
    unfolding masks by (rule small, rule bit_word_eqI, auto simp: bit_simps dest: bit_imp_le_length)+
qed

lemma byte_eqI:
  fixes x y :: u8
  assumes "bit x 0 = bit y 0" "bit x 1 = bit y 1" "bit x 2 = bit y 2" "bit x 3 = bit y 3"
    "bit x 4 = bit y 4" "bit x 5 = bit y 5" "bit x 6 = bit y 6" "bit x 7 = bit y 7"
  shows "x = y"
proof (rule bit_word_eqI)
  fix n assume "n < LENGTH(8)"
  then have "n \<in> {0, 1, 2, 3, 4, 5, 6, 7}" by auto
  then show "bit x n = bit y n" using assms by auto
qed

lemma u8_bit_out: "8 \<le> n \<Longrightarrow> \<not> bit (b :: u8) n"
  by (auto dest: bit_imp_le_length)

lemma octets:
  fixes v :: u32 and a b c :: u8
  defines "v0 \<equiv> push_bit 6 v + ucast (drop_bit 2 a)"
  defines "v1 \<equiv> push_bit 6 v0 + ucast (push_bit 4 (a AND 3) OR drop_bit 4 b)"
  defines "v2 \<equiv> push_bit 6 v1 + ucast (push_bit 2 (b AND 15) OR drop_bit 6 c)"
  shows "ucast (drop_bit 4 v1) = a" "ucast (drop_bit 2 v2) = b" "ucast (push_bit 6 v2 + ucast (c AND 63)) = c"
    "ucast (drop_bit 4 (push_bit 6 v0 + ucast (push_bit 4 (a AND 3)))) = a"
    "ucast (drop_bit 2 (push_bit 6 v1 + ucast (push_bit 2 (b AND 15)))) = b"
  unfolding v2_def v1_def v0_def shift6_add [OF sextet_less(1)] shift6_add [OF sextet_less(2)]
    shift6_add [OF sextet_less(3)] shift6_add [OF sextet_less(4)] shift6_add [OF sextet_less(5)]
    shift6_add [OF sextet_less(6)]
  unfolding masks
  subgoal by (rule byte_eqI) (simp_all add: bit_simps u8_bit_out)
  subgoal by (rule byte_eqI) (simp_all add: bit_simps u8_bit_out)
  subgoal by (rule byte_eqI) (simp_all add: bit_simps u8_bit_out)
  subgoal by (rule byte_eqI) (simp_all add: bit_simps u8_bit_out)
  subgoal by (rule byte_eqI) (simp_all add: bit_simps u8_bit_out)
  done


lemma mod4_next:
  assumes "(i :: nat) mod 4 = 0"
  shows "(i + 1) mod 4 = 1" "(i + 1 + 1) mod 4 = 2" "(i + 1 + 1 + 1) mod 4 = 3" "(i + 1 + 1 + 1 + 1) mod 4 = 0"
  using assms by presburger+

lemma b64_for_pad: "b64_for i v out n (61 # cs) = Some out"
  by simp

lemma b64_for_ref:
  "i mod 4 = 0 \<Longrightarrow> int (length out) + int (length bs) \<le> n \<Longrightarrow> b64_for i v out n (base64_ref bs) = Some (out @ bs)"
proof (induction bs arbitrary: i v out rule: base64_ref.induct)
  case 1
  then show ?case by simp
next
  case (2 a)
  note m = mod4_next [OF 2(1)]
  show ?case using 2 m unfolding base64_ref.simps b64_for_enc [OF sextet_less(1)] b64_for_enc [OF sextet_less(5)]
    b64_for_pad Let_def by (simp add: octets del: One_nat_def push_bit_and)
next
  case (3 a b)
  note m = mod4_next [OF 3(1)]
  show ?case using 3 m unfolding base64_ref.simps b64_for_enc [OF sextet_less(1)] b64_for_enc [OF sextet_less(2)]
    b64_for_enc [OF sextet_less(6)] b64_for_pad Let_def by (simp add: octets del: One_nat_def push_bit_and)
next
  case (4 a b c bs)
  note m = mod4_next [OF 4(2)]
  have "b64_for i v out n (base64_ref (a # b # c # bs)) =
     b64_for (i + 1 + 1 + 1 + 1) (push_bit 6 (push_bit 6 (push_bit 6 (push_bit 6 v + ucast (drop_bit 2 a)) +
       ucast (push_bit 4 (a AND 3) OR drop_bit 4 b)) + ucast (push_bit 2 (b AND 15) OR drop_bit 6 c)) + ucast (c AND 63))
       (out @ [a, b, c]) n (base64_ref bs)"
    using 4(2,3) m unfolding base64_ref.simps append.simps b64_for_enc [OF sextet_less(1)] b64_for_enc [OF sextet_less(2)]
      b64_for_enc [OF sextet_less(3)] b64_for_enc [OF sextet_less(4)] Let_def
    by (simp add: octets del: One_nat_def push_bit_and)
  also have "\<dots> = Some ((out @ [a, b, c]) @ bs)" using 4(3) by (intro 4(1) m(4)) simp
  finally show ?case by simp
qed

text \<open>
  C23. Decoding undoes encoding: what the encoder produced is decoded to the original bytes
  whenever the output buffer has room for them.
\<close>

theorem base64_roundtrip:
  assumes "base64_encode out_size inp = Some enc" "int (length inp) \<le> n"
  shows "base64_decode enc n = Some inp"
proof -
  have "enc = base64_ref inp" using assms(1) b64_while_ref [of "[]" 0 inp]
    by (simp add: base64_encode_def Let_def split: if_splits)
  then show ?thesis using b64_for_ref [of 0 "[]" inp n 0] assms(2) by (simp add: base64_decode_def)
qed

theorem base64_roundtrip_witness: "base64_decode (the (base64_encode 9 [200, 0, 255, 1])) 4 = Some [200, 0, 255, 1]"
proof -
  have "base64_encode 9 [200, 0, 255, 1] = Some (the (base64_encode 9 [200, 0, 255, 1]))"
    by (simp add: base64_encode_def BASE64_SIZE_def)
  from base64_roundtrip [OF this, of 4] show ?thesis by simp
qed

end
