(* ===== verification/Redsocks_Md5.thy ===== *)
theory Redsocks_Md5
  imports Prelude
begin

text \<open>
  md5.c of redsocks, the MD5 implementation behind HTTP digest authentication: the block
  function with its 64 operations, and the streaming interface that collects bytes into
  blocks. A block is 64 bytes; the four registers are 32-bit words.
\<close>

unbundle bit_operations_syntax

section \<open>The block function\<close>

type_synonym md5_regs = "u32 \<times> u32 \<times> u32 \<times> u32"

definition T_MASK :: u32 where
  "T_MASK = NOT 0"

definition md5_T :: "u32 list" where
  "md5_T = [
    T_MASK XOR 0x28955b87, T_MASK XOR 0x173848a9, 0x242070db, T_MASK XOR 0x3e423111,
    T_MASK XOR 0x0a83f050, 0x4787c62a, T_MASK XOR 0x57cfb9ec, T_MASK XOR 0x02b96afe,
    0x698098d8, T_MASK XOR 0x74bb0850, T_MASK XOR 0x0000a44e, T_MASK XOR 0x76a32841,
    0x6b901122, T_MASK XOR 0x02678e6c, T_MASK XOR 0x5986bc71, 0x49b40821,
    T_MASK XOR 0x09e1da9d, T_MASK XOR 0x3fbf4cbf, 0x265e5a51, T_MASK XOR 0x16493855,
    T_MASK XOR 0x29d0efa2, 0x02441453, T_MASK XOR 0x275e197e, T_MASK XOR 0x182c0437,
    0x21e1cde6, T_MASK XOR 0x3cc8f829, T_MASK XOR 0x0b2af278, 0x455a14ed,
    T_MASK XOR 0x561c16fa, T_MASK XOR 0x03105c07, 0x676f02d9, T_MASK XOR 0x72d5b375,
    T_MASK XOR 0x0005c6bd, T_MASK XOR 0x788e097e, 0x6d9d6122, T_MASK XOR 0x021ac7f3,
    T_MASK XOR 0x5b4115bb, 0x4bdecfa9, T_MASK XOR 0x0944b49f, T_MASK XOR 0x4140438f,
    0x289b7ec6, T_MASK XOR 0x155ed805, T_MASK XOR 0x2b10cf7a, 0x04881d05,
    T_MASK XOR 0x262b2fc6, T_MASK XOR 0x1924661a, 0x1fa27cf8, T_MASK XOR 0x3b53a99a,
    T_MASK XOR 0x0bd6ddbb, 0x432aff97, T_MASK XOR 0x546bdc58, T_MASK XOR 0x036c5fc6,
    0x655b59c3, T_MASK XOR 0x70f3336d, T_MASK XOR 0x00100b82, T_MASK XOR 0x7a7ba22e,
    0x6fa87e4f, T_MASK XOR 0x01d3191f, T_MASK XOR 0x5cfebceb, 0x4e0811a1,
    T_MASK XOR 0x08ac817d, T_MASK XOR 0x42c50dca, 0x2ad7d2bb, T_MASK XOR 0x14792c6e]"

definition md5_Ti :: "nat \<Rightarrow> u32" where
  "md5_Ti i = md5_T ! (i - 1)"

definition ROTATE_LEFT :: "u32 \<Rightarrow> nat \<Rightarrow> u32" where
  "ROTATE_LEFT x n = push_bit n x OR drop_bit (32 - n) x"

definition md5_F :: "u32 \<Rightarrow> u32 \<Rightarrow> u32 \<Rightarrow> u32" where
  "md5_F x y z = x AND y OR NOT x AND z"

definition md5_G :: "u32 \<Rightarrow> u32 \<Rightarrow> u32 \<Rightarrow> u32" where
  "md5_G x y z = x AND z OR y AND NOT z"

definition md5_H :: "u32 \<Rightarrow> u32 \<Rightarrow> u32 \<Rightarrow> u32" where
  "md5_H x y z = x XOR y XOR z"

definition md5_I :: "u32 \<Rightarrow> u32 \<Rightarrow> u32 \<Rightarrow> u32" where
  "md5_I x y z = y XOR (x OR NOT z)"

text \<open>
  The macro SET as a statement on the four local variables, for the four orders in which the
  code uses it; \<open>f\<close> is the function of the round.
\<close>

definition md5_SET :: "(u32 \<Rightarrow> u32 \<Rightarrow> u32 \<Rightarrow> u32) \<Rightarrow> u32 \<Rightarrow> u32 \<Rightarrow> u32 \<Rightarrow> u32 \<Rightarrow> u32 \<Rightarrow> nat \<Rightarrow> u32 \<Rightarrow> u32" where
  "md5_SET f a b c d Xk s Ti = (let t = a + f b c d + Xk + Ti in ROTATE_LEFT t s + b)"

definition SET_abcd :: "(u32 \<Rightarrow> u32 \<Rightarrow> u32 \<Rightarrow> u32) \<Rightarrow> u32 list \<Rightarrow> nat \<Rightarrow> nat \<Rightarrow> u32 \<Rightarrow> md5_regs \<Rightarrow> md5_regs" where
  "SET_abcd f X k s Ti = (\<lambda>(a, b, c, d). (md5_SET f a b c d (X ! k) s Ti, b, c, d))"

definition SET_dabc :: "(u32 \<Rightarrow> u32 \<Rightarrow> u32 \<Rightarrow> u32) \<Rightarrow> u32 list \<Rightarrow> nat \<Rightarrow> nat \<Rightarrow> u32 \<Rightarrow> md5_regs \<Rightarrow> md5_regs" where
  "SET_dabc f X k s Ti = (\<lambda>(a, b, c, d). (a, b, c, md5_SET f d a b c (X ! k) s Ti))"

definition SET_cdab :: "(u32 \<Rightarrow> u32 \<Rightarrow> u32 \<Rightarrow> u32) \<Rightarrow> u32 list \<Rightarrow> nat \<Rightarrow> nat \<Rightarrow> u32 \<Rightarrow> md5_regs \<Rightarrow> md5_regs" where
  "SET_cdab f X k s Ti = (\<lambda>(a, b, c, d). (a, b, md5_SET f c d a b (X ! k) s Ti, d))"

definition SET_bcda :: "(u32 \<Rightarrow> u32 \<Rightarrow> u32 \<Rightarrow> u32) \<Rightarrow> u32 list \<Rightarrow> nat \<Rightarrow> nat \<Rightarrow> u32 \<Rightarrow> md5_regs \<Rightarrow> md5_regs" where
  "SET_bcda f X k s Ti = (\<lambda>(a, b, c, d). (a, md5_SET f b c d a (X ! k) s Ti, c, d))"

text \<open>The statements of the four rounds, in order.\<close>

definition md5_round1 :: "u32 list \<Rightarrow> (md5_regs \<Rightarrow> md5_regs) list" where
  "md5_round1 X = [
     SET_abcd md5_F X 0 7 (md5_Ti 1), SET_dabc md5_F X 1 12 (md5_Ti 2),
     SET_cdab md5_F X 2 17 (md5_Ti 3), SET_bcda md5_F X 3 22 (md5_Ti 4),
     SET_abcd md5_F X 4 7 (md5_Ti 5), SET_dabc md5_F X 5 12 (md5_Ti 6),
     SET_cdab md5_F X 6 17 (md5_Ti 7), SET_bcda md5_F X 7 22 (md5_Ti 8),
     SET_abcd md5_F X 8 7 (md5_Ti 9), SET_dabc md5_F X 9 12 (md5_Ti 10),
     SET_cdab md5_F X 10 17 (md5_Ti 11), SET_bcda md5_F X 11 22 (md5_Ti 12),
     SET_abcd md5_F X 12 7 (md5_Ti 13), SET_dabc md5_F X 13 12 (md5_Ti 14),
     SET_cdab md5_F X 14 17 (md5_Ti 15), SET_bcda md5_F X 15 22 (md5_Ti 16)]"

definition md5_round2 :: "u32 list \<Rightarrow> (md5_regs \<Rightarrow> md5_regs) list" where
  "md5_round2 X = [
     SET_abcd md5_G X 1 5 (md5_Ti 17), SET_dabc md5_G X 6 9 (md5_Ti 18),
     SET_cdab md5_G X 11 14 (md5_Ti 19), SET_bcda md5_G X 0 20 (md5_Ti 20),
     SET_abcd md5_G X 5 5 (md5_Ti 21), SET_dabc md5_G X 10 9 (md5_Ti 22),
     SET_cdab md5_G X 15 14 (md5_Ti 23), SET_bcda md5_G X 4 20 (md5_Ti 24),
     SET_abcd md5_G X 9 5 (md5_Ti 25), SET_dabc md5_G X 14 9 (md5_Ti 26),
     SET_cdab md5_G X 3 14 (md5_Ti 27), SET_bcda md5_G X 8 20 (md5_Ti 28),
     SET_abcd md5_G X 13 5 (md5_Ti 29), SET_dabc md5_G X 2 9 (md5_Ti 30),
     SET_cdab md5_G X 7 14 (md5_Ti 31), SET_bcda md5_G X 12 20 (md5_Ti 32)]"

definition md5_round3 :: "u32 list \<Rightarrow> (md5_regs \<Rightarrow> md5_regs) list" where
  "md5_round3 X = [
     SET_abcd md5_H X 5 4 (md5_Ti 33), SET_dabc md5_H X 8 11 (md5_Ti 34),
     SET_cdab md5_H X 11 16 (md5_Ti 35), SET_bcda md5_H X 14 23 (md5_Ti 36),
     SET_abcd md5_H X 1 4 (md5_Ti 37), SET_dabc md5_H X 4 11 (md5_Ti 38),
     SET_cdab md5_H X 7 16 (md5_Ti 39), SET_bcda md5_H X 10 23 (md5_Ti 40),
     SET_abcd md5_H X 13 4 (md5_Ti 41), SET_dabc md5_H X 0 11 (md5_Ti 42),
     SET_cdab md5_H X 3 16 (md5_Ti 43), SET_bcda md5_H X 6 23 (md5_Ti 44),
     SET_abcd md5_H X 9 4 (md5_Ti 45), SET_dabc md5_H X 12 11 (md5_Ti 46),
     SET_cdab md5_H X 15 16 (md5_Ti 47), SET_bcda md5_H X 2 23 (md5_Ti 48)]"

definition md5_round4 :: "u32 list \<Rightarrow> (md5_regs \<Rightarrow> md5_regs) list" where
  "md5_round4 X = [
     SET_abcd md5_I X 0 6 (md5_Ti 49), SET_dabc md5_I X 7 10 (md5_Ti 50),
     SET_cdab md5_I X 14 15 (md5_Ti 51), SET_bcda md5_I X 5 21 (md5_Ti 52),
     SET_abcd md5_I X 12 6 (md5_Ti 53), SET_dabc md5_I X 3 10 (md5_Ti 54),
     SET_cdab md5_I X 10 15 (md5_Ti 55), SET_bcda md5_I X 1 21 (md5_Ti 56),
     SET_abcd md5_I X 8 6 (md5_Ti 57), SET_dabc md5_I X 15 10 (md5_Ti 58),
     SET_cdab md5_I X 6 15 (md5_Ti 59), SET_bcda md5_I X 13 21 (md5_Ti 60),
     SET_abcd md5_I X 4 6 (md5_Ti 61), SET_dabc md5_I X 11 10 (md5_Ti 62),
     SET_cdab md5_I X 2 15 (md5_Ti 63), SET_bcda md5_I X 9 21 (md5_Ti 64)]"

text \<open>The sixteen little-endian words of a block.\<close>

definition md5_words :: "bytes \<Rightarrow> u32 list" where
  "md5_words data = map (\<lambda>i. ucast (data ! (4 * i)) + push_bit 8 (ucast (data ! (4 * i + 1))) +
     push_bit 16 (ucast (data ! (4 * i + 2))) + push_bit 24 (ucast (data ! (4 * i + 3)))) [0..<16]"

definition md5_process :: "md5_regs \<Rightarrow> bytes \<Rightarrow> md5_regs" where
  "md5_process abcd data =
     (let X = md5_words data;
          (a, b, c, d) = fold (\<lambda>stm. stm) (md5_round1 X @ md5_round2 X @ md5_round3 X @ md5_round4 X) abcd;
          (a0, b0, c0, d0) = abcd
      in (a0 + a, b0 + b, c0 + c, d0 + d))"

section \<open>The streaming interface\<close>

record md5_state =
  md5_count0 :: u32
  md5_count1 :: u32
  md5_abcd :: md5_regs
  md5_buf :: bytes

definition md5_init :: "md5_state \<Rightarrow> md5_state" where
  "md5_init pms = pms\<lparr>md5_count0 := 0, md5_count1 := 0,
     md5_abcd := (0x67452301, T_MASK XOR 0x10325476, T_MASK XOR 0x67452301, 0x10325476)\<rparr>"

text \<open>The loop over full blocks: the registers after it and the bytes left.\<close>

fun md5_blocks :: "md5_regs \<Rightarrow> bytes \<Rightarrow> md5_regs \<times> bytes" where
  "md5_blocks abcd p =
     (if length p \<ge> 64 then md5_blocks (md5_process abcd (take 64 p)) (drop 64 p) else (abcd, p))"

text \<open>Updating the message length in \<^verbatim>\<open>count\<close>.\<close>

definition md5_counted :: "md5_state \<Rightarrow> nat \<Rightarrow> md5_state" where
  "md5_counted pms nbytes =
     (let nbits = (of_int (int nbytes * 8) :: u32);
          pms = pms\<lparr>md5_count1 := md5_count1 pms + of_int (int nbytes div 2 ^ 29),
                    md5_count0 := md5_count0 pms + nbits\<rparr>
      in if md5_count0 pms < nbits then pms\<lparr>md5_count1 := md5_count1 pms + 1\<rparr> else pms)"

definition md5_append :: "md5_state \<Rightarrow> bytes \<Rightarrow> md5_state" where
  "md5_append pms data =
     (let nbytes = length data; offset = unat (drop_bit 3 (md5_count0 pms) AND 63) in
      if nbytes \<le> 0 then pms
      else (let pms = md5_counted pms nbytes;
                copy = (if offset + nbytes > 64 then 64 - offset else nbytes);
                buf = take offset (md5_buf pms) @ take copy data @ drop (offset + copy) (md5_buf pms) in
            if offset \<noteq> 0 \<and> offset + copy < 64 then pms\<lparr>md5_buf := buf\<rparr>
            else (let (pms, p) = (if offset \<noteq> 0
                                  then (pms\<lparr>md5_buf := buf, md5_abcd := md5_process (md5_abcd pms) buf\<rparr>, drop copy data)
                                  else (pms, data));
                      (abcd, p) = md5_blocks (md5_abcd pms) p;
                      pms = pms\<lparr>md5_abcd := abcd\<rparr>
                  in if p \<noteq> [] then pms\<lparr>md5_buf := p @ drop (length p) (md5_buf pms)\<rparr> else pms)))"

definition md5_pad :: bytes where
  "md5_pad = 0x80 # replicate 63 0"

definition md5_finish :: "md5_state \<Rightarrow> bytes" where
  "md5_finish pms =
     (let count = (\<lambda>i. if i = 0 then md5_count0 pms else md5_count1 pms);
          data = map (\<lambda>i. ucast (drop_bit (i mod 4 * 8) (count (i div 4)))) [0..<8];
          pms = md5_append pms (take (unat ((55 - drop_bit 3 (md5_count0 pms)) AND 63) + 1) md5_pad);
          pms = md5_append pms data;
          (a, b, c, d) = md5_abcd pms
      in map (\<lambda>i. ucast (drop_bit (i mod 4 * 8) ([a, b, c, d] ! (i div 4)))) [0..<16])"


section \<open>The block function and RFC 1321\<close>

text \<open>
  The reference: 64 steps of one form that rotate the registers, with the word index, the
  shift and the constant of step \<open>i\<close> given by formulas and by the RFC's table.
\<close>

definition md5_K :: "u32 list" where
  "md5_K = [
    0xd76aa478, 0xe8c7b756, 0x242070db, 0xc1bdceee, 0xf57c0faf, 0x4787c62a,
    0xa8304613, 0xfd469501, 0x698098d8, 0x8b44f7af, 0xffff5bb1, 0x895cd7be,
    0x6b901122, 0xfd987193, 0xa679438e, 0x49b40821, 0xf61e2562, 0xc040b340,
    0x265e5a51, 0xe9b6c7aa, 0xd62f105d, 0x02441453, 0xd8a1e681, 0xe7d3fbc8,
    0x21e1cde6, 0xc33707d6, 0xf4d50d87, 0x455a14ed, 0xa9e3e905, 0xfcefa3f8,
    0x676f02d9, 0x8d2a4c8a, 0xfffa3942, 0x8771f681, 0x6d9d6122, 0xfde5380c,
    0xa4beea44, 0x4bdecfa9, 0xf6bb4b60, 0xbebfbc70, 0x289b7ec6, 0xeaa127fa,
    0xd4ef3085, 0x04881d05, 0xd9d4d039, 0xe6db99e5, 0x1fa27cf8, 0xc4ac5665,
    0xf4292244, 0x432aff97, 0xab9423a7, 0xfc93a039, 0x655b59c3, 0x8f0ccc92,
    0xffeff47d, 0x85845dd1, 0x6fa87e4f, 0xfe2ce6e0, 0xa3014314, 0x4e0811a1,
    0xf7537e82, 0xbd3af235, 0x2ad7d2bb, 0xeb86d391]"

definition md5_op :: "(u32 \<Rightarrow> u32 \<Rightarrow> u32 \<Rightarrow> u32) \<Rightarrow> u32 \<Rightarrow> nat \<Rightarrow> u32 \<Rightarrow> md5_regs \<Rightarrow> md5_regs" where
  "md5_op f x s t = (\<lambda>(a, b, c, d). (d, b + ROTATE_LEFT (a + f b c d + x + t) s, b, c))"

definition md5_ref_step :: "u32 list \<Rightarrow> nat \<Rightarrow> md5_regs \<Rightarrow> md5_regs" where
  "md5_ref_step X i =
     md5_op (if i < 16 then md5_F else if i < 32 then md5_G else if i < 48 then md5_H else md5_I)
       (X ! (if i < 16 then i else if i < 32 then (5 * i + 1) mod 16 else if i < 48 then (3 * i + 5) mod 16 else (7 * i) mod 16))
       ([[7, 12, 17, 22], [5, 9, 14, 20], [4, 11, 16, 23], [6, 10, 15, 21]] ! (i div 16) ! (i mod 4))
       (md5_K ! i)"

definition md5_compress :: "md5_regs \<Rightarrow> u32 list \<Rightarrow> md5_regs" where
  "md5_compress = (\<lambda>(a0, b0, c0, d0) X. case fold (md5_ref_step X) [0..<64] (a0, b0, c0, d0) of
     (a, b, c, d) \<Rightarrow> (a0 + a, b0 + b, c0 + c, d0 + d))"

lemma md5_T_K: "md5_T = md5_K"
  by code_simp

lemma md5_quad:
  "fold (\<lambda>stm. stm) (SET_abcd f X k0 s0 t0 # SET_dabc f X k1 s1 t1 # SET_cdab f X k2 s2 t2 # SET_bcda f X k3 s3 t3 # rest) st =
   fold (\<lambda>stm. stm) rest (md5_op f (X ! k3) s3 t3 (md5_op f (X ! k2) s2 t2 (md5_op f (X ! k1) s1 t1 (md5_op f (X ! k0) s0 t0 st))))"
  by (cases st) (simp add: SET_abcd_def SET_dabc_def SET_cdab_def SET_bcda_def md5_SET_def md5_op_def Let_def add.commute)

lemma upt_16: "[0..<16] = 0 # 1 # [2..<16::nat]"
  by code_simp

lemma md5_round1_ref: "fold (\<lambda>stm. stm) (md5_round1 X) st = fold (md5_ref_step X) [0..<16] st"
  unfolding md5_round1_def md5_quad upt_16
  by (simp add: md5_ref_step_def md5_Ti_def md5_T_K upt_rec_numeral fold_simps)

lemma md5_round2_ref: "fold (\<lambda>stm. stm) (md5_round2 X) st = fold (md5_ref_step X) [16..<32] st"
  unfolding md5_round2_def md5_quad by (simp add: md5_ref_step_def md5_Ti_def md5_T_K upt_rec_numeral fold_simps)

lemma md5_round3_ref: "fold (\<lambda>stm. stm) (md5_round3 X) st = fold (md5_ref_step X) [32..<48] st"
  unfolding md5_round3_def md5_quad by (simp add: md5_ref_step_def md5_Ti_def md5_T_K upt_rec_numeral fold_simps)

lemma md5_round4_ref: "fold (\<lambda>stm. stm) (md5_round4 X) st = fold (md5_ref_step X) [48..<64] st"
  unfolding md5_round4_def md5_quad by (simp add: md5_ref_step_def md5_Ti_def md5_T_K upt_rec_numeral fold_simps)

lemma upt_rounds: "[0..<64] = [0..<16] @ [16..<32] @ [32..<48] @ [48..<64::nat]"
  by (simp add: upt_add_eq_append [symmetric] del: upt_Suc) code_simp

lemma md5_process_compress: "md5_process abcd data = md5_compress abcd (md5_words data)"
  by (cases abcd) (simp add: md5_process_def md5_compress_def upt_rounds md5_round1_ref md5_round2_ref
    md5_round3_ref md5_round4_ref Let_def del: upt_Suc)

text \<open>
  C26. The unrolled block function is the compression function of RFC 1321: its 64
  statements, with their word indices, shifts and complemented constants, compute the 64
  steps of the reference.
\<close>

theorem md5_process_ref: "md5_process abcd data = md5_compress abcd (md5_words data)"
  by (rule md5_process_compress)


section \<open>The streaming interface and RFC 1321\<close>

definition le64 :: "nat \<Rightarrow> bytes" where
  "le64 n = map (\<lambda>i. of_nat (n div 256 ^ i)) [0..<8]"

definition md5_padded :: "bytes \<Rightarrow> bytes" where
  "md5_padded msg = msg @ [0x80] @ replicate ((119 - length msg mod 64) mod 64) 0 @ le64 (8 * length msg mod 2 ^ 64)"

fun md5_absorb :: "md5_regs \<Rightarrow> bytes \<Rightarrow> md5_regs" where
  "md5_absorb abcd msg =
     (if msg = [] then abcd else md5_absorb (md5_compress abcd (md5_words (take 64 msg))) (drop 64 msg))"

definition md5_digest :: "bytes \<Rightarrow> bytes" where
  "md5_digest msg =
     (case md5_absorb (0x67452301, 0xefcdab89, 0x98badcfe, 0x10325476) (md5_padded msg) of
        (a, b, c, d) \<Rightarrow> concat (map (\<lambda>w. map (\<lambda>i. ucast (drop_bit (i * 8) w)) [0..<4]) [a, b, c, d]))"

declare md5_blocks.simps [simp del] md5_absorb.simps [simp del]

lemma md5_blocks_short: "length p < 64 \<Longrightarrow> md5_blocks abcd p = (abcd, p)"
  by (subst md5_blocks.simps) simp

lemma md5_blocks_full: "length b = 64 \<Longrightarrow> md5_blocks abcd (b @ p) = md5_blocks (md5_process abcd b) p"
  by (subst md5_blocks.simps) simp

lemma md5_blocks_append:
  "md5_blocks abcd p = (r, rest) \<Longrightarrow> md5_blocks abcd (p @ q) = md5_blocks r (rest @ q)"
proof (induction abcd p rule: md5_blocks.induct)
  case (1 abcd p)
  show ?case
  proof (cases "length p \<ge> 64")
    case True
    then have "md5_blocks abcd (p @ q) = md5_blocks (md5_process abcd (take 64 p)) (drop 64 p @ q)"
      by (subst md5_blocks.simps) simp
    moreover have "md5_blocks (md5_process abcd (take 64 p)) (drop 64 p) = (r, rest)"
      using "1.prems" True by (subst (asm) md5_blocks.simps) simp
    ultimately show ?thesis using "1.IH" [OF True] by simp
  next
    case False
    then show ?thesis using "1.prems" by (simp add: md5_blocks_short)
  qed
qed

lemma md5_blocks_rest: "md5_blocks abcd p = (r, rest) \<Longrightarrow> length rest = length p mod 64"
proof (induction abcd p rule: md5_blocks.induct)
  case (1 abcd p)
  show ?case
  proof (cases "length p \<ge> 64")
    case True
    then have "md5_blocks (md5_process abcd (take 64 p)) (drop 64 p) = (r, rest)"
      using "1.prems" by (subst (asm) md5_blocks.simps) simp
    with "1.IH" [OF True] have "length rest = (length p - 64) mod 64" by simp
    then show ?thesis using True by (simp add: le_mod_geq)
  next
    case False
    then show ?thesis using "1.prems" by (simp add: md5_blocks_short)
  qed
qed

lemma md5_absorb_blocks: "md5_blocks abcd p = (r, []) \<Longrightarrow> md5_absorb abcd p = r"
proof (induction abcd p rule: md5_blocks.induct)
  case (1 abcd p)
  show ?case
  proof (cases "length p \<ge> 64")
    case True
    then have "md5_blocks (md5_process abcd (take 64 p)) (drop 64 p) = (r, [])"
      using "1.prems" by (subst (asm) md5_blocks.simps) simp
    from "1.IH" [OF True this] True show ?thesis by (subst md5_absorb.simps) (auto simp: md5_process_compress)
  next
    case False
    then show ?thesis using "1.prems" by (subst md5_absorb.simps) (simp add: md5_blocks_short)
  qed
qed

text \<open>The 64-bit bit count kept in two words.\<close>

lemma count_carry:
  fixes c0 c1 nb W :: nat
  assumes "c0 < W"
  defines "lo \<equiv> nb mod W"
  defines "s \<equiv> (c0 + lo) mod W"
  shows "s + W * ((c1 + nb div W + (if s < lo then 1 else 0)) mod W) = (c0 + W * c1 + nb) mod (W * W)"
proof -
  have W: "0 < W" and lo: "lo < W" using assms by (auto simp: lo_def)
  have k: "c0 + lo = s + W * (if s < lo then 1 else 0)"
    using assms(1) lo by (auto simp: s_def mod_if)
  have "c0 + W * c1 + nb = s + W * (c1 + nb div W + (if s < lo then 1 else 0))" (is "_ = s + W * ?x")
  proof -
    have "nb = lo + W * (nb div W)" by (simp add: lo_def)
    then have "c0 + W * c1 + nb = (c0 + lo) + W * c1 + W * (nb div W)" by simp
    then show ?thesis unfolding k by (simp add: algebra_simps)
  qed
  moreover have "s < W" using W by (simp add: s_def)
  ultimately show ?thesis using W by (simp add: mod_mult2_eq)
qed

definition md5_count :: "md5_state \<Rightarrow> nat" where
  "md5_count pms = unat (md5_count0 pms) + 2 ^ 32 * unat (md5_count1 pms)"

definition md5_regs0 :: md5_regs where
  "md5_regs0 = (0x67452301, T_MASK XOR 0x10325476, T_MASK XOR 0x67452301, 0x10325476)"

definition md5_inv :: "md5_state \<Rightarrow> bytes \<Rightarrow> bool" where
  "md5_inv pms msg \<longleftrightarrow> length (md5_buf pms) = 64 \<and> md5_count pms = 8 * length msg mod 2 ^ 64 \<and>
     md5_blocks md5_regs0 msg = (md5_abcd pms, take (length msg mod 64) (md5_buf pms))"

lemma md5_inv_init: "length (md5_buf pms) = 64 \<Longrightarrow> md5_inv (md5_init pms) []"
  by (simp add: md5_inv_def md5_init_def md5_count_def md5_blocks_short md5_regs0_def)

lemma md5_offset:
  assumes "md5_count pms = 8 * n mod 2 ^ 64"
  shows "unat (drop_bit 3 (md5_count0 pms) AND 63) = n mod 64"
proof -
  have lt: "unat (md5_count0 pms) < 2 ^ 32" using unsigned_less [of "md5_count0 pms"] by simp
  have "unat (md5_count0 pms) = md5_count pms mod 2 ^ 32" using lt by (simp add: md5_count_def)
  also have "\<dots> = 8 * n mod 2 ^ 32" unfolding assms by (simp add: mod_mod_cancel)
  finally have c: "unat (md5_count0 pms) = 8 * n mod 2 ^ 32" .
  have m: "(63 :: u32) = mask 6" by (simp add: mask_eq_exp_minus_1)
  have "unat (drop_bit 3 (md5_count0 pms) AND 63) = take_bit 6 (drop_bit 3 (unat (md5_count0 pms)))"
    unfolding m take_bit_eq_mask [symmetric] using lt
    by (simp add: unsigned_take_bit_eq unsigned_drop_bit_eq take_bit_nat_eq_self)
  also have "\<dots> = (8 * n mod 2 ^ 32) div 8 mod 64" by (simp add: c take_bit_eq_mod drop_bit_eq_div)
  also have "(8 * n mod 2 ^ 32) div 8 = n mod 2 ^ 29"
    using mult_mod_right [of 8 n "2 ^ 29"] by simp
  also have "n mod 2 ^ 29 mod 64 = n mod 64" by (simp add: mod_mod_cancel)
  finally show ?thesis .
qed


lemma unat_of_int_nat: "unat (of_int (int n) :: u32) = n mod 2 ^ 32"
  by (simp add: unat_of_nat)

lemma unat_add_u32: "unat (x + y :: u32) = (unat x + unat y) mod 2 ^ 32"
  by (simp add: unat_word_ariths)

lemma md5_counted_count: "md5_count (md5_counted pms n) = (md5_count pms + 8 * n) mod 2 ^ 64"
proof -
  let ?nb = "8 * n" and ?W = "2 ^ 32 :: nat"
  define lo where "lo = (of_int (int n * 8) :: u32)"
  define hi where "hi = (of_int (int n div 2 ^ 29) :: u32)"
  have lo: "unat lo = ?nb mod ?W" using unat_of_int_nat [of "8 * n"] by (simp add: lo_def mult.commute)
  have "int n div 2 ^ 29 = int (?nb div ?W)" by (simp add: zdiv_int)
  then have hi: "unat hi = ?nb div ?W mod ?W" unfolding hi_def by (simp only: unat_of_int_nat)
  have c0: "unat (md5_count0 pms) < ?W" using unsigned_less [of "md5_count0 pms"] by simp
  let ?s = "(unat (md5_count0 pms) + ?nb mod ?W) mod ?W"
  have s: "unat (md5_count0 pms + lo) = ?s" by (simp only: unat_add_u32 lo)
  have less: "md5_count0 pms + lo < lo \<longleftrightarrow> ?s < ?nb mod ?W" by (simp only: word_less_nat_alt s lo)
  have cnt: "md5_count (md5_counted pms n) = unat (md5_count0 pms + lo) +
      ?W * unat (if md5_count0 pms + lo < lo then md5_count1 pms + hi + 1 else md5_count1 pms + hi)"
    unfolding md5_counted_def md5_count_def Let_def lo_def [symmetric] hi_def [symmetric] by simp
  have "md5_count (md5_counted pms n) = ?s + ?W * ((unat (md5_count1 pms) + ?nb div ?W + (if ?s < ?nb mod ?W then 1 else 0)) mod ?W)"
  proof (cases "?s < ?nb mod ?W")
    case True
    have "unat (md5_count1 pms + hi + 1) = (unat (md5_count1 pms) + ?nb div ?W + 1) mod ?W"
      by (simp only: unat_add_u32 hi) (simp add: mod_simps)
    then show ?thesis unfolding cnt less s using True by simp
  next
    case False
    have "unat (md5_count1 pms + hi) = (unat (md5_count1 pms) + ?nb div ?W) mod ?W"
      by (simp only: unat_add_u32 hi) (simp add: mod_simps)
    then show ?thesis unfolding cnt less s using False by simp
  qed
  also have "\<dots> = (unat (md5_count0 pms) + ?W * unat (md5_count1 pms) + ?nb) mod (?W * ?W)"
    by (rule count_carry [OF c0])
  also have "?W * ?W = 2 ^ 64" by simp
  finally show ?thesis by (simp add: md5_count_def)
qed

lemma md5_counted_fields [simp]:
  "md5_abcd (md5_counted pms n) = md5_abcd pms" "md5_buf (md5_counted pms n) = md5_buf pms"
  by (simp_all add: md5_counted_def Let_def)


lemma md5_put_rest:
  assumes "length buf = 64" "length rest < 64"
  shows "take (length rest) (if rest \<noteq> [] then rest @ drop (length rest) buf else buf) = rest"
    "length (if rest \<noteq> [] then rest @ drop (length rest) buf else buf) = 64"
  using assms by auto

lemma md5_counted_inv:
  assumes "md5_inv pms msg" "md5_blocks md5_regs0 (msg @ data) = (r, rest)" "length buf = 64"
  shows "md5_inv ((md5_counted pms (length data))\<lparr>md5_buf := if rest \<noteq> [] then rest @ drop (length rest) buf else buf,
    md5_abcd := r\<rparr>) (msg @ data)"
proof -
  have l: "length rest = length (msg @ data) mod 64" by (rule md5_blocks_rest [OF assms(2)])
  then have "length rest < 64" by simp
  note pr = md5_put_rest [OF assms(3) this]
  let ?p = "(md5_counted pms (length data))\<lparr>md5_buf := if rest \<noteq> [] then rest @ drop (length rest) buf else buf, md5_abcd := r\<rparr>"
  have "md5_count ?p = md5_count (md5_counted pms (length data))" by (simp add: md5_count_def)
  also have "\<dots> = 8 * length (msg @ data) mod 2 ^ 64"
    unfolding md5_counted_count using assms(1) by (simp add: md5_inv_def mod_simps algebra_simps)
  finally have c: "md5_count ?p = 8 * length (msg @ data) mod 2 ^ 64" .
  have "take (length (msg @ data) mod 64) (md5_buf ?p) = rest" using pr(1) l by simp
  then show ?thesis unfolding md5_inv_def using c pr(2) assms(2) by simp
qed

lemma md5_inv_append:
  assumes inv: "md5_inv pms msg"
  shows "md5_inv (md5_append pms data) (msg @ data)"
proof (cases "data = []")
  case True
  then show ?thesis using inv by (simp add: md5_append_def)
next
  case False
  define off where "off = length msg mod 64"
  define buf where "buf = md5_buf pms"
  have buf: "length buf = 64" and blk: "md5_blocks md5_regs0 msg = (md5_abcd pms, take off buf)"
    using inv by (simp_all add: md5_inv_def off_def buf_def)
  have off: "unat (drop_bit 3 (md5_count0 pms) AND 63) = off"
    using inv md5_offset by (simp add: md5_inv_def off_def)
  have o64: "off < 64" by (simp add: off_def)
  have step: "md5_blocks md5_regs0 (msg @ data) = md5_blocks (md5_abcd pms) (take off buf @ data)"
    by (rule md5_blocks_append [OF blk])
  consider "off \<noteq> 0" "off + length data < 64" | "off \<noteq> 0" "off + length data \<ge> 64" | "off = 0" by linarith
  then show ?thesis
  proof cases
    case 1
    have b: "md5_blocks md5_regs0 (msg @ data) = (md5_abcd pms, take off buf @ data)"
      unfolding step using 1 buf o64 by (intro md5_blocks_short) simp
    have "md5_append pms data = (md5_counted pms (length data))\<lparr>md5_buf := take off buf @ data @ drop (off + length data) buf\<rparr>"
      using 1 False by (simp add: md5_append_def off Let_def buf_def)
    moreover have "md5_inv ((md5_counted pms (length data))\<lparr>md5_buf := if take off buf @ data \<noteq> [] then
        (take off buf @ data) @ drop (length (take off buf @ data)) buf else buf, md5_abcd := md5_abcd pms\<rparr>) (msg @ data)"
      by (rule md5_counted_inv [OF inv b buf])
    ultimately show ?thesis using False buf o64 by (simp add: min_def md5_inv_def md5_count_def)
  next
    case 2
    define b' where "b' = take off buf @ take (64 - off) data"
    have b': "length b' = 64" using 2 buf o64 by (simp add: b'_def)
    obtain r rest where r: "md5_blocks (md5_process (md5_abcd pms) b') (drop (64 - off) data) = (r, rest)" by fastforce
    have "take off buf @ data = b' @ drop (64 - off) data" by (simp add: b'_def)
    then have b: "md5_blocks md5_regs0 (msg @ data) = (r, rest)" unfolding step using md5_blocks_full [OF b'] r by simp
    have copy: "(if off + length data > 64 then 64 - off else length data) = 64 - off" using 2 o64 by auto
    have "md5_append pms data = (md5_counted pms (length data))\<lparr>md5_buf := if rest \<noteq> [] then rest @ drop (length rest) b' else b',
        md5_abcd := r\<rparr>"
      using 2 False r buf o64 unfolding md5_append_def off Let_def copy
      by (simp add: b'_def flip: buf_def)
    then show ?thesis using md5_counted_inv [OF inv b b'] by simp
  next
    case 3
    obtain r rest where r: "md5_blocks (md5_abcd pms) data = (r, rest)" by fastforce
    have b: "md5_blocks md5_regs0 (msg @ data) = (r, rest)" unfolding step using 3 r by simp
    have "md5_append pms data = (md5_counted pms (length data))\<lparr>md5_buf := if rest \<noteq> [] then rest @ drop (length rest) buf else buf,
        md5_abcd := r\<rparr>"
      using 3 False r by (simp add: md5_append_def off Let_def buf_def)
    then show ?thesis using md5_counted_inv [OF inv b buf] by simp
  qed
qed


lemma ucast_byte: "(ucast (drop_bit (8 * k) w) :: u8) = of_nat (unat w div 256 ^ k)" for w :: u32
proof -
  have "unat (ucast (drop_bit (8 * k) w) :: u8) = unat (drop_bit (8 * k) w) mod 2 ^ 8"
    by (simp only: unsigned_ucast_eq take_bit_eq_mod) simp
  also have "unat (drop_bit (8 * k) w) = unat w div 2 ^ (8 * k)"
    unfolding unat_drop_bit_eq by (rule drop_bit_eq_div)
  also have "(2 :: nat) ^ (8 * k) = 256 ^ k" by (simp add: power_mult)
  finally show ?thesis by (simp only: word_unat_eq_iff unat_of_nat) simp
qed

lemma u8_256: "(of_nat (q + 256 * z) :: u8) = of_nat q"
  by (simp only: word_of_nat_eq_iff take_bit_eq_mod) simp

lemma count_bytes:
  fixes x y :: nat
  shows "k < 4 \<Longrightarrow> (of_nat ((x + 2 ^ 32 * y) div 256 ^ k) :: u8) = of_nat (x div 256 ^ k)"
    "x < 2 ^ 32 \<Longrightarrow> (x + 2 ^ 32 * y) div 256 ^ (4 + k) = y div 256 ^ k"
proof -
  assume k: "k < 4"
  have "(2 :: nat) ^ 32 = 256 ^ k * (256 * 256 ^ (3 - k))"
  proof -
    have "256 ^ k * (256 * 256 ^ (3 - k)) = (256 :: nat) ^ (k + Suc (3 - k))" by (simp add: power_add)
    also have "k + Suc (3 - k) = 4" using k by simp
    finally show ?thesis by simp
  qed
  then have "x + 2 ^ 32 * y = x + 256 ^ k * (256 * 256 ^ (3 - k) * y)" by (simp only: mult.assoc)
  moreover have "(x + 256 ^ k * (256 * 256 ^ (3 - k) * y)) div 256 ^ k = x div 256 ^ k + 256 * 256 ^ (3 - k) * y"
    by (subst div_mult_self2) simp_all
  ultimately have "(x + 2 ^ 32 * y) div 256 ^ k = x div 256 ^ k + 256 * 256 ^ (3 - k) * y" by (simp only:)
  then show "(of_nat ((x + 2 ^ 32 * y) div 256 ^ k) :: u8) = of_nat (x div 256 ^ k)"
    using u8_256 [of "x div 256 ^ k" "256 ^ (3 - k) * y"] by (simp only: mult.assoc)
next
  assume x: "x < 2 ^ 32"
  have "(x + 2 ^ 32 * y) div 256 ^ (4 + k) = (x + 2 ^ 32 * y) div 2 ^ 32 div 256 ^ k"
    by (simp add: div_mult2_eq power_add)
  also have "(x + 2 ^ 32 * y) div 2 ^ 32 = y" using x by simp
  finally show "(x + 2 ^ 32 * y) div 256 ^ (4 + k) = y div 256 ^ k" .
qed

lemma md5_length_bytes:
  "map (\<lambda>i. ucast (drop_bit (i mod 4 * 8) (if i div 4 = 0 then md5_count0 pms else md5_count1 pms))) [0..<8] = le64 (md5_count pms)"
proof -
  have lt: "unat (md5_count0 pms) < 2 ^ 32" using unsigned_less [of "md5_count0 pms"] by simp
  have "(ucast (drop_bit (i mod 4 * 8) (if i div 4 = 0 then md5_count0 pms else md5_count1 pms)) :: u8) =
      of_nat (md5_count pms div 256 ^ i)" if i: "i < 8" for i
  proof (cases "i < 4")
    case True
    then show ?thesis using ucast_byte [of i "md5_count0 pms"] count_bytes(1) [OF True]
      by (simp add: md5_count_def mult.commute)
  next
    case False
    then obtain k where k: "i = 4 + k" "k < 4" using i by (metis add_less_cancel_left le_Suc_ex not_less numeral_Bit0)
    then show ?thesis using ucast_byte [of k "md5_count1 pms"] count_bytes(2) [OF lt]
      by (simp add: md5_count_def mult.commute)
  qed
  then show ?thesis unfolding le64_def by (intro map_cong) simp_all
qed

lemma md5_pad_length:
  assumes "md5_count pms = 8 * n mod 2 ^ 64"
  shows "unat ((55 - drop_bit 3 (md5_count0 pms)) AND 63) = (119 - n mod 64) mod 64"
proof -
  have m: "(63 :: u32) = mask 6" by (simp add: mask_eq_exp_minus_1)
  define x where "x = drop_bit 3 (md5_count0 pms)"
  have and63: "unat (w AND 63) = unat w mod 64" for w :: u32
    unfolding m take_bit_eq_mask [symmetric] unsigned_take_bit_eq by (simp add: take_bit_eq_mod unat_mod)
  have xn: "unat x mod 64 = n mod 64" using md5_offset [OF assms] unfolding x_def [symmetric] and63 .
  have x: "unat x < 2 ^ 32" using unsigned_less [of x] by simp
  have "unat (55 - x) mod 64 = (119 - unat x mod 64) mod 64"
  proof (cases "unat x \<le> 55")
    case True
    then have "unat (55 - x) = 55 - unat x" by (simp add: unat_sub_if')
    moreover have "119 - unat x = 55 - unat x + 64" using True by simp
    moreover have "unat x mod 64 = unat x" using True by simp
    ultimately show ?thesis by (simp only: mod_add_self2)
  next
    case False
    then have u: "unat (55 - x) = 55 + 2 ^ 32 - unat x" by (simp add: unat_sub_if')
    define q where "q = unat x div 64"
    define r where "r = unat x mod 64"
    have xq: "unat x = 64 * q + r" "r < 64" by (simp_all add: q_def r_def)
    have "64 * q < 64 * 2 ^ 26" using x xq by simp
    then obtain k where "2 ^ 26 = q + Suc k" by (metis add_Suc_right less_imp_Suc_add mult_less_cancel1)
    then have "2 ^ 32 = 64 * q + 64 * k + (64 :: nat)" by simp
    then have "55 + 2 ^ 32 - unat x = 119 - r + k * 64" using xq by linarith
    then show ?thesis unfolding u r_def [symmetric] by (simp only: mod_mult_self1)
  qed
  then show ?thesis unfolding x_def [symmetric] and63 xn .
qed


lemma md5_inv_chunks: "md5_inv pms msg \<Longrightarrow> md5_inv (fold (\<lambda>data pms. md5_append pms data) chunks pms) (msg @ concat chunks)"
proof (induction chunks arbitrary: pms msg)
  case (Cons d ds)
  from Cons.IH [OF md5_inv_append [OF Cons.prems, of d]] show ?case by simp
qed simp

lemma upt_8_16: "[0..<8] = [0, 1, 2, 3, 4, 5, 6, 7::nat]" "[0..<4] = [0, 1, 2, 3::nat]"
  "[0..<16] = [0, 1, 2, 3, 4, 5, 6, 7, 8, 9, 10, 11, 12, 13, 14, 15::nat]"
  by code_simp+

lemma md5_regs0_RFC: "md5_regs0 = (0x67452301, 0xefcdab89, 0x98badcfe, 0x10325476)"
  by (simp add: md5_regs0_def T_MASK_def)

lemma pad_mod:
  fixes r :: nat
  assumes "r < 64"
  shows "(119 - r) mod 64 = (if r \<le> 55 then 55 - r else 119 - r)"
proof (cases "r \<le> 55")
  case True
  then have "119 - r = 55 - r + 64" by simp
  then show ?thesis using True by (simp only: mod_add_self2) simp
qed (use assms in simp)

lemma md5_inv_finish:
  assumes inv: "md5_inv pms msg"
  shows "md5_finish pms = md5_digest msg"
proof -
  define k where "k = (119 - length msg mod 64) mod 64"
  have cnt: "md5_count pms = 8 * length msg mod 2 ^ 64" using inv by (simp add: md5_inv_def)
  have k: "unat ((55 - drop_bit 3 (md5_count0 pms)) AND 63) = k" unfolding k_def by (rule md5_pad_length [OF cnt])
  have "k < 64" by (simp add: k_def)
  then have pad: "take (k + 1) md5_pad = 0x80 # replicate k 0" by (simp add: md5_pad_def min_def)
  define p1 where "p1 = md5_append pms (0x80 # replicate k 0)"
  define p2 where "p2 = md5_append p1 (le64 (md5_count pms))"
  have "md5_inv p2 ((msg @ (0x80 # replicate k 0)) @ le64 (md5_count pms))"
    unfolding p2_def p1_def by (intro md5_inv_append inv)
  then have "md5_inv p2 (md5_padded msg)" by (simp add: md5_padded_def cnt k_def)
  moreover have "length (md5_padded msg) mod 64 = 0"
  proof -
    have "length msg mod 64 + 9 + (119 - length msg mod 64) mod 64 = 64 \<or>
      length msg mod 64 + 9 + (119 - length msg mod 64) mod 64 = 128"
      using pad_mod [of "length msg mod 64"] by (auto split: if_splits)
    moreover have "x mod 64 = 0" if "x = 64 \<or> x = 128" for x :: nat using that by auto
    ultimately have "(length msg mod 64 + 9 + (119 - length msg mod 64) mod 64) mod 64 = 0" by blast
    then have "(length msg + (9 + (119 - length msg mod 64) mod 64)) mod 64 = 0"
      by (subst mod_add_left_eq [symmetric]) (simp only: add.assoc)
    moreover have "length (le64 n) = 8" for n by (simp add: le64_def)
    ultimately show ?thesis by (simp add: md5_padded_def add.commute add.left_commute)
  qed
  ultimately have "md5_blocks md5_regs0 (md5_padded msg) = (md5_abcd p2, [])" by (simp add: md5_inv_def)
  then have abs: "md5_absorb md5_regs0 (md5_padded msg) = md5_abcd p2" by (rule md5_absorb_blocks)
  obtain a b c d where abcd: "md5_abcd p2 = (a, b, c, d)" by (cases "md5_abcd p2") auto
  have "md5_finish pms = map (\<lambda>i. ucast (drop_bit (i mod 4 * 8) ([a, b, c, d] ! (i div 4)))) [0..<16]"
    unfolding md5_finish_def Let_def md5_length_bytes k pad p1_def [symmetric] p2_def [symmetric] abcd by simp
  also have "\<dots> = concat (map (\<lambda>w. map (\<lambda>i. ucast (drop_bit (i * 8) w)) [0..<4]) [a, b, c, d])"
    by (simp add: upt_8_16)
  finally show ?thesis by (simp add: md5_digest_def abs [unfolded md5_regs0_RFC] abcd)
qed

text \<open>
  C25. The streaming interface computes MD5: however a message is cut into pieces, appending
  them one after the other and finishing yields the digest of RFC 1321 of the whole message,
  with its length counted modulo \<open>2 ^ 64\<close>.
\<close>

theorem md5_streaming:
  assumes "length (md5_buf pms) = 64"
  shows "md5_finish (fold (\<lambda>data pms. md5_append pms data) chunks (md5_init pms)) = md5_digest (concat chunks)"
proof -
  from md5_inv_chunks [OF md5_inv_init [OF assms], of chunks] show ?thesis by (simp add: md5_inv_finish)
qed

definition md5_stack :: md5_state where
  "md5_stack = \<lparr>md5_count0 = 0, md5_count1 = 0, md5_abcd = (0, 0, 0, 0), md5_buf = replicate 64 0\<rparr>"

lemma md5_abc:
  "md5_finish (md5_append (md5_append (md5_init md5_stack) [97]) [98, 99]) =
     [0x90, 0x01, 0x50, 0x98, 0x3c, 0xd2, 0x4f, 0xb0, 0xd6, 0x96, 0x3f, 0x7d, 0x28, 0xe1, 0x7f, 0x72]"
  by code_simp

theorem md5_streaming_witness:
  "md5_digest [97, 98, 99] = [0x90, 0x01, 0x50, 0x98, 0x3c, 0xd2, 0x4f, 0xb0, 0xd6, 0x96, 0x3f, 0x7d, 0x28, 0xe1, 0x7f, 0x72]"
  using md5_streaming [of md5_stack "[[97], [98, 99]]"] md5_abc by (simp add: md5_stack_def)

end
