(* ===== verification/Spec2Isabelle.thy ===== *)
theory Spec2Isabelle
  imports Badvpn_LinkedList Badvpn_BPending Badvpn_PacketBuffer Badvpn_Flow Badvpn_PacketProto
    Badvpn_FairQueue Badvpn_BSize Badvpn_BAVL_List Badvpn_SocksClient Badvpn_Packets Badvpn_BAddr Tun2socks_Udp Tun2socks_UdpClient Redsocks_Core Redsocks_Accept Redsocks_Socks Redsocks_Base64 Redsocks_Md5
begin

text \<open>
  A verification of the native programs bundled in re-shadowsocks-android: badvpn's
  tun2socks, which turns the traffic of the tun device into SOCKS connections, and redsocks,
  which redirects TCP connections through a proxy.
\<close>


section \<open>Connections in a tree\<close>

definition sample_conaddr :: "addr \<Rightarrow> conaddr" where
  "sample_conaddr a = \<lparr>local_addr = BADDR_TYPE_IPV4 1 (of_nat a), remote_addr = BADDR_TYPE_IPV4 2 53\<rparr>"

definition sample_ops :: "conaddr bavl_op list" where
  "sample_ops = [Bavl_Insert 1, Bavl_Insert 2, Bavl_Insert 3, Bavl_Remove 2, Bavl_LookupExact (sample_conaddr 3), Bavl_LookupExact (sample_conaddr 2)]"

definition sample_tree :: BAVL where
  "sample_tree = \<lparr>bv_root = Some 7, bv_node = (\<lambda>a. \<lparr>bn_parent = Some 7, bn_link0 = Some 7, bn_link1 = None, bn_balance = 5\<rparr>)\<rparr>"

text \<open>
  C3. The tree in which the UDP relay client keeps its connections, ordered by their two
  addresses, behaves like the sorted list of the nodes in it: from \<open>BAVL_Init\<close>, however dirty
  the memory of the nodes, every sequence of insertions, removals, lookups and walks in which
  no node is inserted twice or removed without being in the tree comes to its end, with no
  null pointer followed and no assertion failed, and gives the results that the list gives.
  At the end the nodes are linked as an AVL tree with exactly the list's nodes in its order,
  each balance factor is the difference of the heights and between -1 and 1, and the height
  is at most twice the binary logarithm of the number of nodes plus one.
\<close>

theorem connections_tree_refines_list:
  assumes "bavl_allowed_run conaddr_comparator conaddr_ok (val, []) xs"
  shows "\<exists>val' o1 t. bavl_run conaddr_comparator (val, BAVL_Init o') xs = Some ((val', o1), snd (list_run conaddr_comparator (val, []) xs)) \<and>
    fst (list_run conaddr_comparator (val, []) xs) = (val', inorder t) \<and> bavl_shape o1 t \<and> bal o1 t \<and> 2 ^ height t \<le> (length (inorder t) + 1)\<^sup>2"
  using assms by (rule compare_conaddr.tree_refines_list)

theorem connections_tree_refines_list_witness:
  "\<exists>o1 t. bavl_run conaddr_comparator (sample_conaddr, BAVL_Init sample_tree) sample_ops =
      Some ((sample_conaddr, o1), [Bavl_node None, Bavl_node None, Bavl_node None, Bavl_done, Bavl_node (Some 3), Bavl_node None]) \<and>
    inorder t = [1, 3] \<and> bavl_shape o1 t \<and> bal o1 t"
proof -
  note defs = sample_ops_def sample_conaddr_def conaddr_ok_def BAddr_ok_def insert_sorted_def conaddr_comparator_def BAddr_CompareOrder_def
  have "bavl_allowed_run conaddr_comparator conaddr_ok (sample_conaddr, []) sample_ops" by (simp add: defs)
  from connections_tree_refines_list [OF this, of sample_tree] show ?thesis by (simp add: defs) metis
qed

end
